(* ===== verification/Prelude.thy ===== *)
theory Prelude
  imports Main "HOL-Library.Word"
begin

unbundle bit_operations_syntax

text \<open>
  Shared vocabulary of the development: the machine integer types of
  \<open>kernel/types.h\<close>, the outcome monad in which every kernel function is written, and the
  little-endian byte memory on which the C objects that the kernel addresses by raw
  pointers (pages, page tables, trapframes, disk blocks) are laid out.
\<close>

section \<open>Machine integers\<close>

type_synonym u8 = "8 word"
type_synonym u16 = "16 word"
type_synonym u32 = "32 word"
type_synonym u64 = "64 word"

lemma unat_lt_64: "unat (x :: u64) < 2 ^ 64"
  using unsigned_less [of x] by simp

lemma unat_lt_32: "unat (x :: u32) < 2 ^ 32"
  using unsigned_less [of x] by simp

lemma unat_of_nat_64: "i < 2 ^ 64 \<Longrightarrow> unat (of_nat i :: u64) = i"
  by (simp add: unat_of_nat take_bit_eq_mod)

lemma unat_of_nat_32: "i < 2 ^ 32 \<Longrightarrow> unat (of_nat i :: u32) = i"
  by (simp add: unat_of_nat take_bit_eq_mod)

lemma unat_plus_64: "unat x + unat y < 2 ^ 64 \<Longrightarrow> unat (x + y :: u64) = unat x + unat y"
  using unat_add_lem [of x y] by simp

lemma unat_plus_nat_64: "unat x + i < 2 ^ 64 \<Longrightarrow> unat (x + of_nat i :: u64) = unat x + i"
  by (subst unat_plus_64) (simp_all add: unat_of_nat_64)

lemma unat_uminus_64: "x \<noteq> 0 \<Longrightarrow> unat (- x :: u64) = 2 ^ 64 - unat x"
  using unat_sub_if' [of 0 x] by (simp add: unat_eq_0)

lemma unat_offset: "i < 2 ^ 64 \<Longrightarrow> unat (a + of_nat i - a :: u64) = i"
  by (simp add: unat_of_nat_64)

lemma eq_offset_iff: "i < 2 ^ 64 \<Longrightarrow> a = d + of_nat i \<longleftrightarrow> unat (a - d :: u64) = i"
proof -
  assume i: "i < 2 ^ 64"
  have "a = d + of_nat i \<longleftrightarrow> a - d = of_nat i"
    by (auto simp: algebra_simps)
  also have "\<dots> \<longleftrightarrow> unat (a - d) = i"
    using unat_of_nat_64 [OF i] by (simp only: word_unat_eq_iff)
  finally show ?thesis .
qed

section \<open>Collections\<close>

text \<open>
  \<open>prog_simps\<close> runs a program step by step; \<open>mem_simps\<close> reads through memory updates;
  \<open>frame_simps\<close> collects the fields an operation leaves alone.
\<close>

named_theorems prog_simps
named_theorems mem_simps
named_theorems frame_simps

section \<open>Outcomes of kernel code\<close>

text \<open>
  A kernel function either returns a value, panics with the message of the C call
  \<open>panic(msg)\<close>, hands the CPU to the scheduler (\<open>sched()\<close>, reached from \<open>sleep\<close>, \<open>yield\<close>
  and \<open>exit\<close>; the statements after the call are not executed until the thread is
  resumed), or runs forever. The state passed along is the state of the kernel at that point;
  a panic stops the machine, so no state follows it.
\<close>

datatype ('s, 'a) outcome = Ret 'a 's | Panic string | Switch 's | Diverge

type_synonym ('s, 'a) prog = "'s \<Rightarrow> ('s, 'a) outcome"

definition ret :: "'a \<Rightarrow> ('s, 'a) prog" where
  "ret a = (\<lambda>s. Ret a s)"

definition panic :: "string \<Rightarrow> ('s, 'a) prog" where
  "panic msg = (\<lambda>s. Panic msg)"

definition gets :: "('s \<Rightarrow> 'a) \<Rightarrow> ('s, 'a) prog" where
  "gets f = (\<lambda>s. Ret (f s) s)"

definition modify :: "('s \<Rightarrow> 's) \<Rightarrow> ('s, unit) prog" where
  "modify f = (\<lambda>s. Ret () (f s))"

definition bindp :: "('s, 'a) prog \<Rightarrow> ('a \<Rightarrow> ('s, 'b) prog) \<Rightarrow> ('s, 'b) prog" where
  "bindp m f = (\<lambda>s. case m s of Ret a t \<Rightarrow> f a t | Panic msg \<Rightarrow> Panic msg
                              | Switch t \<Rightarrow> Switch t | Diverge \<Rightarrow> Diverge)"

definition seqp :: "('s, unit) prog \<Rightarrow> ('s, 'b) prog \<Rightarrow> ('s, 'b) prog" where
  "seqp m n = bindp m (\<lambda>_. n)"

definition whenp :: "bool \<Rightarrow> ('s, unit) prog \<Rightarrow> ('s, unit) prog" where
  "whenp b m = (if b then m else ret ())"

text \<open>\<open>block [c1, \<dots>, cn]\<close> is the C compound statement \<open>{ c1; \<dots>; cn; }\<close>.\<close>

fun block :: "('s, unit) prog list \<Rightarrow> ('s, unit) prog" where
  "block [] = ret ()"
| "block (c # cs) = seqp c (block cs)"

lemma ret_apply [simp, prog_simps]: "ret a s = Ret a s"
  by (simp add: ret_def)

lemma panic_apply [simp, prog_simps]: "panic msg s = Panic msg"
  by (simp add: panic_def)

lemma gets_apply [simp, prog_simps]: "gets f s = Ret (f s) s"
  by (simp add: gets_def)

lemma modify_apply [simp, prog_simps]: "modify f s = Ret () (f s)"
  by (simp add: modify_def)

lemma bindp_apply [prog_simps]:
  "bindp m f s = (case m s of Ret a t \<Rightarrow> f a t | Panic msg \<Rightarrow> Panic msg
                            | Switch t \<Rightarrow> Switch t | Diverge \<Rightarrow> Diverge)"
  by (simp add: bindp_def)

lemma seqp_apply [prog_simps]:
  "seqp m n s = (case m s of Ret a t \<Rightarrow> n t | Panic msg \<Rightarrow> Panic msg
                           | Switch t \<Rightarrow> Switch t | Diverge \<Rightarrow> Diverge)"
  by (simp add: seqp_def bindp_def)

lemma whenp_apply [prog_simps]: "whenp b m s = (if b then m s else Ret () s)"
  by (simp add: whenp_def)

lemma bindp_eq_Ret:
  "bindp m f s = Ret b u \<longleftrightarrow> (\<exists>a t. m s = Ret a t \<and> f a t = Ret b u)"
  by (simp add: bindp_def split: outcome.splits)

lemma seqp_eq_Ret:
  "seqp m n s = Ret b u \<longleftrightarrow> (\<exists>t. m s = Ret () t \<and> n t = Ret b u)"
  by (simp add: seqp_def bindp_eq_Ret)

lemma whenp_eq_Ret:
  "whenp b m s = Ret x u \<longleftrightarrow> (if b then m s = Ret x u else u = s)"
  by (auto simp: whenp_def)

lemmas run_eq_Ret = bindp_eq_Ret seqp_eq_Ret whenp_eq_Ret

text \<open>Total correctness of a program from one state, and an invariant that a program keeps.\<close>

definition returns :: "('s, 'a) prog \<Rightarrow> 's \<Rightarrow> ('a \<Rightarrow> 's \<Rightarrow> bool) \<Rightarrow> bool" where
  "returns m s Q \<longleftrightarrow> (\<exists>a t. m s = Ret a t \<and> Q a t)"

definition keeps :: "('s \<Rightarrow> bool) \<Rightarrow> ('s, 'a) prog \<Rightarrow> bool" where
  "keeps P m \<longleftrightarrow> (\<forall>s a t. P s \<longrightarrow> m s = Ret a t \<longrightarrow> P t)"

lemma keepsD: "keeps P m \<Longrightarrow> P s \<Longrightarrow> m s = Ret a t \<Longrightarrow> P t"
  by (auto simp: keeps_def)

lemma keeps_bindp: "keeps P m \<Longrightarrow> (\<And>a. keeps P (f a)) \<Longrightarrow> keeps P (bindp m f)"
  unfolding keeps_def bindp_eq_Ret by blast

lemma keeps_seqp: "keeps P m \<Longrightarrow> keeps P n \<Longrightarrow> keeps P (seqp m n)"
  by (simp add: seqp_def keeps_bindp)

lemma keeps_whenp: "keeps P m \<Longrightarrow> keeps P (whenp b m)"
  by (simp add: keeps_def whenp_eq_Ret)

lemma keeps_gets: "keeps P (gets f)"
  by (simp add: keeps_def)

lemma keeps_ret: "keeps P (ret a)"
  by (simp add: keeps_def)

lemma keeps_panic: "keeps P (panic msg)"
  by (simp add: keeps_def)

lemma keeps_modify: "(\<And>s. P s \<Longrightarrow> P (f s)) \<Longrightarrow> keeps P (modify f)"
  by (simp add: keeps_def)

lemma keeps_if: "(b \<Longrightarrow> keeps P m) \<Longrightarrow> (\<not> b \<Longrightarrow> keeps P n) \<Longrightarrow> keeps P (if b then m else n)"
  by simp

lemmas keeps_intros = keeps_bindp keeps_seqp keeps_whenp keeps_gets keeps_ret keeps_panic keeps_if

section \<open>Little-endian words\<close>

fun le_word :: "u8 list \<Rightarrow> 'a::len word" where
  "le_word [] = 0"
| "le_word (b # bs) = ucast b OR push_bit 8 (le_word bs)"

definition le_bytes :: "nat \<Rightarrow> 'a::len word \<Rightarrow> u8 list" where
  "le_bytes n w = map (\<lambda>i. ucast (drop_bit (8 * i) w)) [0..<n]"

lemma length_le_bytes [simp]: "length (le_bytes n w) = n"
  by (simp add: le_bytes_def)

lemma bit_le_word:
  "bit (le_word bs :: 'a::len word) i \<longleftrightarrow>
     i < LENGTH('a) \<and> i div 8 < length bs \<and> bit (bs ! (i div 8)) (i mod 8)"
proof (induction bs arbitrary: i)
  case Nil
  then show ?case by simp
next
  case (Cons b bs)
  show ?case
  proof (cases "i < 8")
    case True
    then show ?thesis
      by (auto simp: bit_or_iff bit_push_bit_iff bit_ucast_iff not_le dest: bit_imp_le_length)
  next
    case False
    then obtain k where k: "i = k + 8"
      using le_Suc_ex [of 8 i] by (auto simp: not_less add.commute)
    have "(k + 8) div 8 = Suc (k div 8)"
      by simp
    moreover have "\<not> bit b i"
      using False bit_imp_le_length [of b i] by auto
    ultimately show ?thesis
      using Cons.IH [of k]
      by (auto simp: k bit_or_iff bit_push_bit_iff bit_ucast_iff)
  qed
qed

lemma nth_le_bytes: "i < n \<Longrightarrow> le_bytes n w ! i = ucast (drop_bit (8 * i) w)"
  by (simp add: le_bytes_def)

lemma le_word_le_bytes:
  assumes "LENGTH('a::len) \<le> 8 * n"
  shows "le_word (le_bytes n w) = (w :: 'a word)"
proof (rule bit_eqI)
  fix i assume "possible_bit TYPE('a word) i"
  then have i: "i < LENGTH('a)" by simp
  then have "i div 8 < n" using assms by simp
  then show "bit (le_word (le_bytes n w) :: 'a word) i = bit w i"
    using i by (simp add: bit_le_word nth_le_bytes bit_ucast_iff bit_drop_bit_eq)
qed

lemma le_word_4 [simp]: "le_word (le_bytes 4 w) = (w :: u32)"
  by (rule le_word_le_bytes) simp

lemma le_word_8 [simp]: "le_word (le_bytes 8 w) = (w :: u64)"
  by (rule le_word_le_bytes) simp

lemma le_word_2 [simp]: "le_word (le_bytes 2 w) = (w :: u16)"
  by (rule le_word_le_bytes) simp

section \<open>Byte memory\<close>

type_synonym memory = "u64 \<Rightarrow> u8"

definition read_bytes :: "memory \<Rightarrow> u64 \<Rightarrow> nat \<Rightarrow> u8 list" where
  "read_bytes m a n = map (\<lambda>i. m (a + of_nat i)) [0..<n]"

definition write_bytes :: "memory \<Rightarrow> u64 \<Rightarrow> u8 list \<Rightarrow> memory" where
  "write_bytes m a bs = (\<lambda>x. if unat (x - a) < length bs then bs ! unat (x - a) else m x)"

definition load32 :: "memory \<Rightarrow> u64 \<Rightarrow> u32" where
  "load32 m a = le_word (read_bytes m a 4)"

definition load64 :: "memory \<Rightarrow> u64 \<Rightarrow> u64" where
  "load64 m a = le_word (read_bytes m a 8)"

definition store32 :: "memory \<Rightarrow> u64 \<Rightarrow> u32 \<Rightarrow> memory" where
  "store32 m a v = write_bytes m a (le_bytes 4 v)"

definition store64 :: "memory \<Rightarrow> u64 \<Rightarrow> u64 \<Rightarrow> memory" where
  "store64 m a v = write_bytes m a (le_bytes 8 v)"

lemma length_read_bytes [simp]: "length (read_bytes m a n) = n"
  by (simp add: read_bytes_def)

lemma nth_read_bytes [simp]: "i < n \<Longrightarrow> read_bytes m a n ! i = m (a + of_nat i)"
  by (simp add: read_bytes_def)

lemma read_bytes_cong:
  "(\<And>i. i < n \<Longrightarrow> m (a + of_nat i) = m' (a + of_nat i)) \<Longrightarrow> read_bytes m a n = read_bytes m' a n"
  by (simp add: read_bytes_def)

lemma read_write_same [mem_simps]:
  "length bs \<le> 2 ^ 64 \<Longrightarrow> n = length bs \<Longrightarrow> read_bytes (write_bytes m a bs) a n = bs"
  by (rule nth_equalityI) (simp_all add: write_bytes_def unat_of_nat take_bit_eq_mod)

lemma write_bytes_outside:
  "length bs \<le> unat (x - a) \<Longrightarrow> write_bytes m a bs x = m x"
  by (simp add: write_bytes_def)

lemma load64_store64_same [simp, mem_simps]: "load64 (store64 m a v) a = v"
  by (simp add: load64_def store64_def read_write_same)

lemma load32_store32_same [simp, mem_simps]: "load32 (store32 m a v) a = v"
  by (simp add: load32_def store32_def read_write_same)

lemma le_word_zeros [simp]: "le_word (replicate n 0) = 0"
  by (induction n) simp_all

lemma load64_zero [simp]: "load64 (\<lambda>_. 0) a = 0"
  by (simp add: load64_def read_bytes_def map_replicate_const)

section \<open>Lists\<close>

lemma takeWhile_less: "x \<in> set xs \<Longrightarrow> \<not> P x \<Longrightarrow> length (takeWhile P xs) < length xs"
  by (induction xs) auto

end
