(* ===== verification/Cstring.thy ===== *)
theory Cstring
  imports Prelude
begin

text \<open>
  The byte and string routines of \<open>kernel/string.c\<close>. The \<open>mem*\<close> routines work on raw
  addresses of the byte memory, because the kernel relies on how they treat overlapping
  ranges. The \<open>str*\<close> routines work on character objects: a \<open>char *\<close> is the object it
  points into, a function from the offset to the byte stored there, and \<open>*p++\<close> moves the
  offset. An \<open>int\<close> argument that is stored into a \<open>char\<close> is a 32-bit word that is truncated.
\<close>

type_synonym cobj = "nat \<Rightarrow> u8"

section \<open>memset, memcmp, memmove\<close>

definition memset :: "memory \<Rightarrow> u64 \<Rightarrow> u32 \<Rightarrow> u32 \<Rightarrow> memory" where
  "memset m dst c n = fold (\<lambda>i m. m(dst + of_nat i := ucast c)) [0..<unat n] m"

fun memcmp_loop :: "memory \<Rightarrow> u64 \<Rightarrow> u64 \<Rightarrow> nat \<Rightarrow> int" where
  "memcmp_loop m s1 s2 0 = 0"
| "memcmp_loop m s1 s2 (Suc n) =
     (if m s1 \<noteq> m s2 then uint (m s1) - uint (m s2) else memcmp_loop m (s1 + 1) (s2 + 1) n)"

definition memcmp :: "memory \<Rightarrow> u64 \<Rightarrow> u64 \<Rightarrow> u32 \<Rightarrow> int" where
  "memcmp m v1 v2 n = memcmp_loop m v1 v2 (unat n)"

text \<open>\<open>while(n-- > 0) *--d = *--s;\<close> and \<open>while(n-- > 0) *d++ = *s++;\<close>\<close>

fun copy_down :: "memory \<Rightarrow> u64 \<Rightarrow> u64 \<Rightarrow> nat \<Rightarrow> memory" where
  "copy_down m d s 0 = m"
| "copy_down m d s (Suc n) = copy_down (m(d - 1 := m (s - 1))) (d - 1) (s - 1) n"

fun copy_up :: "memory \<Rightarrow> u64 \<Rightarrow> u64 \<Rightarrow> nat \<Rightarrow> memory" where
  "copy_up m d s 0 = m"
| "copy_up m d s (Suc n) = copy_up (m(d := m s)) (d + 1) (s + 1) n"

definition memmove :: "memory \<Rightarrow> u64 \<Rightarrow> u64 \<Rightarrow> u32 \<Rightarrow> memory" where
  "memmove m dst src n =
     (if n = 0 then m
      else if src < dst \<and> src + ucast n > dst
      then copy_down m (dst + ucast n) (src + ucast n) (unat n)
      else copy_up m dst src (unat n))"

definition memcpy :: "memory \<Rightarrow> u64 \<Rightarrow> u64 \<Rightarrow> u32 \<Rightarrow> memory" where
  "memcpy m dst src n = memmove m dst src n"

section \<open>Strings\<close>

fun strncmp_loop :: "cobj \<Rightarrow> cobj \<Rightarrow> nat \<Rightarrow> nat \<Rightarrow> int" where
  "strncmp_loop p q i 0 = 0"
| "strncmp_loop p q i (Suc n) =
     (if p i \<noteq> 0 \<and> p i = q i then strncmp_loop p q (Suc i) n else uint (p i) - uint (q i))"

definition strncmp :: "cobj \<Rightarrow> cobj \<Rightarrow> nat \<Rightarrow> int" where
  "strncmp p q n = strncmp_loop p q 0 n"

text \<open>The two loops of \<open>strncpy\<close>: copy up to and including the NUL, then pad with zeros.\<close>

fun pad_loop :: "cobj \<Rightarrow> nat \<Rightarrow> nat \<Rightarrow> cobj" where
  "pad_loop s i 0 = s"
| "pad_loop s i (Suc n) = pad_loop (s(i := 0)) (Suc i) n"

fun strncpy_loop :: "cobj \<Rightarrow> cobj \<Rightarrow> nat \<Rightarrow> nat \<Rightarrow> cobj" where
  "strncpy_loop s t i 0 = s"
| "strncpy_loop s t i (Suc n) =
     (let s' = s(i := t i) in
      if t i \<noteq> 0 then strncpy_loop s' t (Suc i) n else pad_loop s' (Suc i) n)"

definition strncpy :: "cobj \<Rightarrow> cobj \<Rightarrow> int \<Rightarrow> cobj" where
  "strncpy s t n = strncpy_loop s t 0 (nat n)"

text \<open>\<open>while(--n > 0 && (*s++ = *t++) != 0); *s = 0;\<close> with \<open>n\<close> the count after the decrement.\<close>

fun safestrcpy_loop :: "cobj \<Rightarrow> cobj \<Rightarrow> nat \<Rightarrow> nat \<Rightarrow> cobj" where
  "safestrcpy_loop s t i 0 = s(i := 0)"
| "safestrcpy_loop s t i (Suc n) =
     (let s' = s(i := t i) in
      if t i \<noteq> 0 then safestrcpy_loop s' t (Suc i) n else s'(Suc i := 0))"

definition safestrcpy :: "cobj \<Rightarrow> cobj \<Rightarrow> int \<Rightarrow> cobj" where
  "safestrcpy s t n = (if n \<le> 0 then s else safestrcpy_loop s t 0 (nat (n - 1)))"

text \<open>\<open>None\<close> is the run that never meets a NUL.\<close>

partial_function (option) strlen_loop :: "cobj \<Rightarrow> nat \<Rightarrow> nat option" where
  "strlen_loop s n = (if s n = 0 then Some n else strlen_loop s (Suc n))"

definition strlen :: "cobj \<Rightarrow> nat option" where
  "strlen s = strlen_loop s 0"

section \<open>The memory routines against their closed forms\<close>

lemma fold_upd_range:
  "k \<le> 2 ^ 64 \<Longrightarrow>
     fold (\<lambda>i m. m(d + of_nat i := v)) [0..<k] m a = (if unat (a - d :: u64) < k then v else m a)"
proof (induction k)
  case 0
  then show ?case by simp
next
  case (Suc k)
  then show ?case by (auto simp: eq_offset_iff less_Suc_eq)
qed

lemma memset_apply [mem_simps]:
  "memset m dst c n a = (if unat (a - dst) < unat n then ucast c else m a)"
proof -
  have "unat n \<le> 2 ^ 64"
    using unat_lt_32 [of n] by simp
  then show ?thesis
    unfolding memset_def by (rule fold_upd_range)
qed

definition copied :: "memory \<Rightarrow> u64 \<Rightarrow> u64 \<Rightarrow> nat \<Rightarrow> memory" where
  "copied m d s n = (\<lambda>a. if unat (a - d) < n then m (s + (a - d)) else m a)"

lemma unat_minus_Suc:
  "(unat (a - (d + 1)) < n \<and> a \<noteq> d) \<longleftrightarrow> (0 < unat (a - d :: u64) \<and> unat (a - d) < Suc n)"
  if "n < 2 ^ 64"
proof (cases "a = d")
  case True
  then show ?thesis by simp
next
  case False
  then have "a - d \<noteq> 0" by simp
  then have "unat (a - d - 1) = unat (a - d) - 1"
    by (simp add: unat_minus_one)
  then have "unat (a - (d + 1)) = unat (a - d) - 1"
    by (simp add: diff_diff_eq)
  moreover have "0 < unat (a - d)"
    using \<open>a - d \<noteq> 0\<close> unat_gt_0 by blast
  ultimately show ?thesis
    using False by auto
qed

lemma copy_up_eq:
  assumes "n < 2 ^ 64" and "\<And>j. 0 < j \<Longrightarrow> j < n \<Longrightarrow> s + of_nat j \<noteq> d"
  shows "copy_up m d s n = copied m d s n"
  using assms
proof (induction n arbitrary: m d s)
  case 0
  then show ?case by (simp add: copied_def)
next
  case (Suc n)
  have IH: "copy_up (m(d := m s)) (d + 1) (s + 1) n = copied (m(d := m s)) (d + 1) (s + 1) n"
  proof (rule Suc.IH)
    show "n < 2 ^ 64" using Suc.prems by simp
    fix j assume "0 < j" "j < n"
    then show "s + 1 + of_nat j \<noteq> d + 1"
      using Suc.prems(2) [of j] by (simp add: algebra_simps)
  qed
  show ?case
  proof
    fix a
    consider "a = d" | "a \<noteq> d" "unat (a - (d + 1)) < n" | "a \<noteq> d" "\<not> unat (a - (d + 1)) < n"
      by blast
    then show "copy_up m d s (Suc n) a = copied m d s (Suc n) a"
    proof cases
      case 1
      have "unat (- 1 :: u64) = 2 ^ 64 - 1"
        by (simp add: unsigned_minus_1_eq_mask mask_eq_exp_minus_1)
      then have "\<not> unat (d - (d + 1)) < n" using Suc.prems(1) by simp
      with 1 show ?thesis by (simp add: IH copied_def)
    next
      case 2
      then have r: "0 < unat (a - d)" "unat (a - d) < Suc n"
        using unat_minus_Suc [of n a d] Suc.prems(1) by auto
      then have "s + of_nat (unat (a - d)) \<noteq> d"
        using Suc.prems(2) [of "unat (a - d)"] by blast
      then have "s + (a - d) \<noteq> d" by simp
      with 2 r show ?thesis by (simp add: IH copied_def)
    next
      case 3
      then have "\<not> unat (a - d) < Suc n"
        using unat_minus_Suc [of n a d] Suc.prems(1) by (auto simp: unat_gt_0)
      with 3 show ?thesis by (simp add: IH copied_def)
    qed
  qed
qed

lemma copy_down_eq:
  assumes "n < 2 ^ 64" and "\<And>j. 0 < j \<Longrightarrow> j < n \<Longrightarrow> d + of_nat j \<noteq> s"
  shows "copy_down m (d + of_nat n) (s + of_nat n) n = copied m d s n"
  using assms
proof (induction n arbitrary: m)
  case 0
  then show ?case by (simp add: copied_def)
next
  case (Suc n)
  let ?m = "m(d + of_nat n := m (s + of_nat n))"
  have IH: "copy_down ?m (d + of_nat n) (s + of_nat n) n = copied ?m d s n"
    using Suc.prems by (intro Suc.IH) auto
  have ne: "s + of_nat i \<noteq> d + of_nat n" if "i < n" for i
  proof -
    have "d + of_nat (n - i) \<noteq> s" using Suc.prems(2) [of "n - i"] that by simp
    then show ?thesis using that by (simp add: of_nat_diff algebra_simps)
  qed
  show ?case
  proof
    fix a
    have e: "a = d + of_nat n \<longleftrightarrow> unat (a - d) = n"
      using Suc.prems(1) by (simp add: eq_offset_iff)
    have r: "s + (a - d) \<noteq> d + of_nat n" if "unat (a - d) < n"
      using ne [OF that] by simp
    have step: "copy_down m (d + of_nat (Suc n)) (s + of_nat (Suc n)) (Suc n)
                  = copied ?m d s n"
      using IH by (simp add: add.commute [of 1] flip: add.assoc)
    consider "unat (a - d) < n" | "unat (a - d) = n" | "n < unat (a - d)" by linarith
    then show "copy_down m (d + of_nat (Suc n)) (s + of_nat (Suc n)) (Suc n) a
                 = copied m d s (Suc n) a"
    proof cases
      case 1
      with r e show ?thesis unfolding step by (simp add: copied_def)
    next
      case 2
      then have a: "a = d + of_nat n" using e by simp
      have "s + (a - d) = s + of_nat n" by (simp add: a)
      with 2 a show ?thesis unfolding step copied_def by simp
    next
      case 3
      with e show ?thesis unfolding step by (auto simp: copied_def)
    qed
  qed
qed

lemma memmove_eq:
  assumes "unat src + unat n < 2 ^ 64" and "unat dst + unat n \<le> 2 ^ 64"
  shows "memmove m dst src n = copied m dst src (unat n)"
proof (cases "n = 0")
  case True
  then show ?thesis by (simp add: memmove_def copied_def)
next
  case False
  have n: "of_nat (unat n) = (ucast n :: u64)" "unat n < 2 ^ 64"
    using unat_lt_32 [of n] by (simp_all add: of_nat_unat)
  have un: "unat (ucast n :: u64) = unat n"
    using n by (metis unat_of_nat_64)
  have sn: "unat (src + ucast n) = unat src + unat n"
    using assms(1) by (simp add: unat_plus_64 un)
  have off: "unat (x + of_nat j :: u64) = unat x + j" if "unat x + j < 2 ^ 64" for x :: u64 and j
    using that by (rule unat_plus_nat_64)
  show ?thesis
  proof (cases "src < dst \<and> src + ucast n > dst")
    case True
    have "dst + of_nat j \<noteq> src" if "0 < j" "j < unat n" for j
      using off [of dst j] that assms(2) True by (auto simp: word_less_nat_alt)
    then have "copy_down m (dst + of_nat (unat n)) (src + of_nat (unat n)) (unat n)
                 = copied m dst src (unat n)"
      using n(2) by (intro copy_down_eq) auto
    then show ?thesis using True False n(1) by (simp add: memmove_def)
  next
    case no: False
    have "src + of_nat j \<noteq> dst" if "0 < j" "j < unat n" for j
      using off [of src j] that assms(1) no sn by (auto simp: word_less_nat_alt not_less)
    then have "copy_up m dst src (unat n) = copied m dst src (unat n)"
      using n(2) by (intro copy_up_eq) auto
    then show ?thesis using no False by (auto simp: memmove_def)
  qed
qed

section \<open>The string routines against C strings\<close>

text \<open>The C string stored in at most \<open>n\<close> bytes from offset \<open>i\<close> on: the bytes before the first NUL.\<close>

fun cstr_from :: "cobj \<Rightarrow> nat \<Rightarrow> nat \<Rightarrow> u8 list" where
  "cstr_from p i 0 = []"
| "cstr_from p i (Suc n) = (if p i = 0 then [] else p i # cstr_from p (Suc i) n)"

definition cstr :: "cobj \<Rightarrow> nat \<Rightarrow> u8 list" where
  "cstr p n = cstr_from p 0 n"

lemma cstr_from_cong:
  "(\<And>j. i \<le> j \<Longrightarrow> j < i + n \<Longrightarrow> p j = q j) \<Longrightarrow> cstr_from p i n = cstr_from q i n"
  by (induction n arbitrary: i) auto

lemma cstr_from_mono_nul:
  "cstr_from p i n = cstr_from p i m" if "i \<le> k" "p k = 0" "k < i + n" "k < i + m"
  using that
proof (induction n arbitrary: i m)
  case 0
  then show ?case by simp
next
  case (Suc n)
  then obtain m' where m: "m = Suc m'" by (cases m) auto
  show ?case
  proof (cases "p i = 0")
    case True
    then show ?thesis by (simp add: m)
  next
    case False
    then have "Suc i \<le> k" using Suc.prems(1,2) by (metis le_antisym not_less_eq_eq)
    then show ?thesis using Suc.IH [of "Suc i" m'] Suc.prems False by (simp add: m)
  qed
qed

lemma strncmp_loop_eq_0: "strncmp_loop p q i n = 0 \<longleftrightarrow> cstr_from p i n = cstr_from q i n"
proof (induction n arbitrary: i)
  case 0
  then show ?case by simp
next
  case (Suc n)
  have "uint (p i) - uint (q i) = 0 \<longleftrightarrow> p i = q i"
    by (simp add: word_uint_eq_iff)
  then show ?case using Suc.IH by auto
qed

lemma pad_loop_apply: "pad_loop s i n j = (if i \<le> j \<and> j < i + n then 0 else s j)"
  by (induction n arbitrary: s i) auto

lemma strncpy_loop_apply:
  "strncpy_loop s t i n j =
     (if i \<le> j \<and> j < i + n then if \<exists>k. i \<le> k \<and> k < j \<and> t k = 0 then 0 else t j else s j)"
proof (induction n arbitrary: s i j)
  case 0
  then show ?case by auto
next
  case (Suc n)
  show ?case
  proof (cases "t i = 0")
    case True
    then have "(\<exists>k. i \<le> k \<and> k < j \<and> t k = 0) \<longleftrightarrow> i < j" by (metis le_less_trans order_refl)
    with True show ?thesis by (simp add: pad_loop_apply Let_def)
  next
    case False
    then have "(\<exists>k. i \<le> k \<and> k < j \<and> t k = 0) \<longleftrightarrow> (\<exists>k. Suc i \<le> k \<and> k < j \<and> t k = 0)"
      by (metis Suc_leD Suc_leI le_neq_implies_less)
    moreover have "\<not> (\<exists>k. i \<le> k \<and> k < i \<and> t k = 0)" by simp
    ultimately show ?thesis
      using False by (cases "j = i") (simp_all add: Suc.IH Let_def le_less [of i] Suc_le_eq)
  qed
qed

lemma cstr_from_strncpy_loop: "cstr_from (strncpy_loop s t i n) i n = cstr_from t i n"
proof (induction n arbitrary: s i)
  case 0
  then show ?case by simp
next
  case (Suc n)
  let ?r = "strncpy_loop s t i (Suc n)"
  have ri: "?r i = t i"
    by (subst strncpy_loop_apply) auto
  show ?case
  proof (cases "t i = 0")
    case True
    then show ?thesis unfolding cstr_from.simps(2) ri by simp
  next
    case False
    then have "?r = strncpy_loop (s(i := t i)) t (Suc i) n" by (simp add: Let_def)
    then have "cstr_from ?r (Suc i) n = cstr_from t (Suc i) n" by (simp only: Suc.IH)
    then show ?thesis unfolding cstr_from.simps(2) ri by (simp only:)
  qed
qed

lemma safestrcpy_loop_outside:
  "j < i \<or> i + n < j \<Longrightarrow> safestrcpy_loop s t i n j = s j"
  by (induction n arbitrary: s i) (auto simp: Let_def)

lemma cstr_from_safestrcpy_loop:
  "cstr_from (safestrcpy_loop s t i n) i (Suc n) = cstr_from t i n"
proof (induction n arbitrary: s i)
  case 0
  then show ?case by simp
next
  case (Suc n)
  let ?r = "safestrcpy_loop s t i (Suc n)"
  have unf: "cstr_from ?r i (Suc (Suc n))
               = (if ?r i = 0 then [] else ?r i # cstr_from ?r (Suc i) (Suc n))"
    by (rule cstr_from.simps(2))
  show ?case
  proof (cases "t i = 0")
    case True
    then show ?thesis unfolding unf by (simp add: Let_def)
  next
    case False
    then have r: "?r = safestrcpy_loop (s(i := t i)) t (Suc i) n" by (simp add: Let_def)
    then have "?r i = t i" by (simp add: safestrcpy_loop_outside)
    moreover have "cstr_from ?r (Suc i) (Suc n) = cstr_from t (Suc i) n"
      unfolding r by (rule Suc.IH)
    ultimately show ?thesis unfolding unf using False by simp
  qed
qed

lemma cstr_from_nul:
  "length (cstr_from p i n) < n \<Longrightarrow> p (i + length (cstr_from p i n)) = 0"
  by (induction n arbitrary: i) (auto split: if_splits simp flip: add_Suc)

lemma length_cstr_from: "length (cstr_from p i n) \<le> n"
  by (induction n arbitrary: i) auto

lemma strlen_loop_Some:
  "i \<le> k \<Longrightarrow> s k = 0 \<Longrightarrow> (\<And>j. i \<le> j \<Longrightarrow> j < k \<Longrightarrow> s j \<noteq> 0) \<Longrightarrow> strlen_loop s i = Some k"
proof (induction "k - i" arbitrary: i)
  case 0
  then show ?case by (subst strlen_loop.simps) simp
next
  case (Suc d)
  have "s i \<noteq> 0" using Suc.hyps(2) by (intro Suc.prems(3)) auto
  moreover have "strlen_loop s (Suc i) = Some k"
    using Suc.hyps(2) Suc.prems by (intro Suc.hyps(1)) auto
  ultimately show ?case by (subst strlen_loop.simps) simp
qed

lemma strlen_loop_SomeD:
  assumes "strlen_loop s i = Some k"
  shows "i \<le> k \<and> s k = 0 \<and> (\<forall>j. i \<le> j \<and> j < k \<longrightarrow> s j \<noteq> 0)"
proof (rule strlen_loop.raw_induct
    [where P = "\<lambda>s i k. i \<le> k \<and> s k = 0 \<and> (\<forall>j. i \<le> j \<and> j < k \<longrightarrow> s j \<noteq> 0)", OF _ assms])
  fix f and s :: cobj and n k
  assume IH: "\<And>s n k. f s n = Some k \<Longrightarrow> n \<le> k \<and> s k = 0 \<and> (\<forall>j. n \<le> j \<and> j < k \<longrightarrow> s j \<noteq> 0)"
    and eq: "(if s n = 0 then Some n else f s (Suc n)) = Some k"
  show "n \<le> k \<and> s k = 0 \<and> (\<forall>j. n \<le> j \<and> j < k \<longrightarrow> s j \<noteq> 0)"
  proof (cases "s n = 0")
    case True
    with eq show ?thesis by auto
  next
    case False
    with eq have "Suc n \<le> k \<and> s k = 0 \<and> (\<forall>j. Suc n \<le> j \<and> j < k \<longrightarrow> s j \<noteq> 0)"
      by (intro IH) simp
    with False show ?thesis by (metis Suc_leD Suc_leI le_neq_implies_less)
  qed
qed

lemma strlen_Some_iff: "strlen s = Some k \<longleftrightarrow> s k = 0 \<and> (\<forall>j<k. s j \<noteq> 0)"
proof
  assume "strlen s = Some k"
  then show "s k = 0 \<and> (\<forall>j<k. s j \<noteq> 0)"
    using strlen_loop_SomeD [of s 0 k] by (simp add: strlen_def)
next
  assume "s k = 0 \<and> (\<forall>j<k. s j \<noteq> 0)"
  then show "strlen s = Some k"
    unfolding strlen_def by (intro strlen_loop_Some) auto
qed

section \<open>Properties\<close>

text \<open>
  C11: \<open>memmove\<close> copies correctly whether or not the two ranges overlap: afterwards the
  \<open>n\<close> bytes at \<open>dst\<close> are the bytes that were at \<open>src\<close> before the call, and every other byte
  of memory is unchanged, for ranges that do not wrap around the address space.
\<close>

theorem memmove_correct:
  assumes "unat src + unat n < 2 ^ 64" and "unat dst + unat n \<le> 2 ^ 64"
  shows "memmove m dst src n a =
           (if unat (a - dst) < unat n then m (src + (a - dst)) else m a)"
  by (simp add: memmove_eq [OF assms] copied_def)

theorem memmove_correct_witness:
  "memmove (\<lambda>a. ucast a) 101 100 3 101 = 100 \<and> memmove (\<lambda>a. ucast a) 101 100 3 103 = 102"
  using memmove_correct [of 100 3 101 "\<lambda>a. ucast a" 101]
    memmove_correct [of 100 3 101 "\<lambda>a. ucast a" 103] by simp

text \<open>
  \<open>strncmp\<close> returns 0 exactly when the two objects hold the same C string within the
  first \<open>n\<close> bytes; \<open>namecmp\<close> of the file system relies on this to compare directory names.
\<close>

lemma strncmp_correct: "strncmp p q n = 0 \<longleftrightarrow> cstr p n = cstr q n"
  by (simp add: strncmp_def cstr_def strncmp_loop_eq_0)

text \<open>
  C12: \<open>safestrcpy\<close> always leaves a NUL-terminated string in its \<open>n\<close>-byte destination: the
  longest prefix of the source that fits with its NUL; and it writes no byte past the
  destination.
\<close>

theorem safestrcpy_terminates:
  assumes "0 < n"
  shows "cstr (safestrcpy s t n) (nat n) = cstr t (nat n - 1) \<and>
         (\<exists>i < nat n. safestrcpy s t n i = 0) \<and>
         (\<forall>j \<ge> nat n. safestrcpy s t n j = s j)"
proof -
  obtain k where k: "nat n = Suc k" "nat (n - 1) = k"
    using assms by (cases "nat n") auto
  let ?r = "safestrcpy_loop s t 0 k"
  have r: "safestrcpy s t n = ?r" using assms by (simp add: safestrcpy_def k)
  have c: "cstr_from ?r 0 (Suc k) = cstr_from t 0 k" by (rule cstr_from_safestrcpy_loop)
  then have l: "length (cstr_from ?r 0 (Suc k)) < Suc k"
    using length_cstr_from [of t 0 k] by simp
  have "?r (length (cstr_from ?r 0 (Suc k))) = 0"
    using cstr_from_nul [OF l] by simp
  with l have "\<exists>i < Suc k. ?r i = 0" by blast
  moreover have "\<forall>j \<ge> Suc k. ?r j = s j" by (simp add: safestrcpy_loop_outside)
  ultimately show ?thesis using c by (simp add: r k cstr_def)
qed

theorem safestrcpy_terminates_witness:
  "cstr (safestrcpy (\<lambda>_. 7) (\<lambda>_. 65) 4) 4 = [65, 65, 65]"
proof -
  have "cstr (\<lambda>_. 65 :: u8) 3 = [65, 65, 65]"
    by (simp add: cstr_def numeral_3_eq_3)
  then show ?thesis
    using safestrcpy_terminates [of 4 "\<lambda>_. 7" "\<lambda>_. 65"] by simp
qed

end
