(* ===== verification/Machine.thy ===== *)
theory Machine
  imports Cstring
begin

text \<open>
  The state every kernel component shares: physical memory, and the spinlocks held by the
  executing hart. The kernel's critical sections are written with
  \<open>acquire\<close>/\<open>release\<close>; here they appear as \<open>lock_acquire\<close>/\<open>lock_release\<close> on the set of held
  locks, the view one hart has of \<open>kernel/spinlock.c\<close>. The theory \<open>Spinlock\<close> models
  \<open>spinlock.c\<close> itself (interrupt nesting, the atomic swap, several harts) and proves that this
  view is exact: re-acquiring a held lock and releasing a lock that is not held are the two
  panics, and a hart that gets past \<open>acquire\<close> is the only one inside.

  Each component adds its own fields by extending this record, so an operation of a lower
  component applies to the state of every component above it and cannot touch their fields.
\<close>

text \<open>Spinlocks, named by the object they are embedded in.\<close>

datatype sleeplockid = SBuf nat | SInode nat

datatype lockid =
    LKmem | LPid | LWait | LProc nat | LTicks | LBcache | LLog | LItable | LFtable
  | LPipe u64 | LCons | LUart | LDisk | LPr | LSleep sleeplockid

text \<open>
  Sleep channels: in the kernel a channel is the address of some object. Distinct
  constructors stand for distinct objects; \<open>NoChan\<close> is the null pointer.
\<close>

datatype chan =
    NoChan | ChProc nat | ChTicks | ChSleep sleeplockid | ChLog | ChBuf nat | ChDiskFree
  | ChPipeRead u64 | ChPipeWrite u64 | ChCons | ChUart

record machine =
  mem :: memory
  held :: "lockid set"

definition lock_acquire :: "lockid \<Rightarrow> ('z machine_scheme, unit) prog" where
  "lock_acquire l s = (if l \<in> held s then Panic ''acquire''
                       else Ret () (s\<lparr>held := insert l (held s)\<rparr>))"

definition lock_release :: "lockid \<Rightarrow> ('z machine_scheme, unit) prog" where
  "lock_release l s = (if l \<notin> held s then Panic ''release''
                       else Ret () (s\<lparr>held := held s - {l}\<rparr>))"

definition lock_init :: "lockid \<Rightarrow> ('z machine_scheme, unit) prog" where
  "lock_init l = modify (\<lambda>s. s\<lparr>held := held s - {l}\<rparr>)"

lemma lock_acquire_free [simp, prog_simps]:
  "l \<notin> held s \<Longrightarrow> lock_acquire l s = Ret () (s\<lparr>held := insert l (held s)\<rparr>)"
  by (simp add: lock_acquire_def)

lemma lock_release_held [simp, prog_simps]:
  "l \<in> held s \<Longrightarrow> lock_release l s = Ret () (s\<lparr>held := held s - {l}\<rparr>)"
  by (simp add: lock_release_def)

lemma lock_acquire_Ret:
  "lock_acquire l s = Ret x t \<longleftrightarrow> l \<notin> held s \<and> t = s\<lparr>held := insert l (held s)\<rparr>"
  by (auto simp: lock_acquire_def)

lemma lock_release_Ret:
  "lock_release l s = Ret x t \<longleftrightarrow> l \<in> held s \<and> t = s\<lparr>held := held s - {l}\<rparr>"
  by (auto simp: lock_release_def)

text \<open>A critical section around a program that does not touch the held locks is that program.\<close>

lemma held_roundtrip [simp]: "l \<notin> held s \<Longrightarrow> s\<lparr>held := held s - {l}\<rparr> = s"
  by simp

section \<open>Pages\<close>

abbreviation PGSIZE :: u64 where
  "PGSIZE \<equiv> 4096"

definition PGROUNDUP :: "u64 \<Rightarrow> u64" where
  "PGROUNDUP sz = (sz + PGSIZE - 1) AND NOT (PGSIZE - 1)"

definition PGROUNDDOWN :: "u64 \<Rightarrow> u64" where
  "PGROUNDDOWN a = a AND NOT (PGSIZE - 1)"

definition KERNBASE :: u64 where
  "KERNBASE = 0x80000000"

definition PHYSTOP :: u64 where
  "PHYSTOP = KERNBASE + 128 * 1024 * 1024"

definition page_aligned :: "u64 \<Rightarrow> bool" where
  "page_aligned a \<longleftrightarrow> a mod PGSIZE = 0"

lemma PGROUNDDOWN_eq: "PGROUNDDOWN a = push_bit 12 (drop_bit 12 a)"
proof -
  have "(PGSIZE - 1 :: u64) = mask 12" by (simp add: mask_eq_exp_minus_1)
  then have "PGROUNDDOWN a = a AND NOT (mask 12)" by (simp add: PGROUNDDOWN_def)
  also have "\<dots> = push_bit 12 (drop_bit 12 a)"
    by (rule bit_word_eqI) (auto simp: bit_simps)
  finally show ?thesis .
qed

lemma unat_PGROUNDDOWN: "unat (PGROUNDDOWN a) = unat a div 4096 * 4096"
proof -
  have "unat a div 4096 * 4096 < 2 ^ 64"
    using unat_lt_64 [of a] div_times_less_eq_dividend [of "unat a" 4096] by linarith
  moreover have "unat (PGROUNDDOWN a) = take_bit 64 (push_bit 12 (drop_bit 12 (unat a)))"
    unfolding PGROUNDDOWN_eq unsigned_push_bit_eq unsigned_drop_bit_eq
    using unat_lt_64 [of a] by (simp add: take_bit_nat_eq_self)
  ultimately show ?thesis
    by (simp add: take_bit_eq_mod push_bit_eq_mult drop_bit_eq_div)
qed

lemma page_aligned_iff: "page_aligned a \<longleftrightarrow> 4096 dvd unat a"
  by (simp add: page_aligned_def word_unat_eq_iff unat_mod dvd_eq_mod_eq_0)

lemma page_aligned_PGROUNDDOWN [simp]: "page_aligned (PGROUNDDOWN a)"
  by (simp add: page_aligned_iff unat_PGROUNDDOWN)

lemma PGROUNDDOWN_le: "unat (PGROUNDDOWN a) \<le> unat a"
  by (simp add: unat_PGROUNDDOWN)

lemma PGROUNDDOWN_aligned: "page_aligned a \<Longrightarrow> PGROUNDDOWN a = a"
  by (simp add: word_unat_eq_iff unat_PGROUNDDOWN page_aligned_iff)

text \<open>The bytes of the page at \<open>p\<close> are the addresses whose page base is \<open>p\<close>.\<close>

lemma in_page_iff:
  assumes "page_aligned p"
  shows "unat (a - p) < 4096 \<longleftrightarrow> PGROUNDDOWN a = p"
proof
  assume "PGROUNDDOWN a = p"
  then have "p \<le> a" "unat p = unat a div 4096 * 4096"
    using PGROUNDDOWN_le [of a] by (auto simp: word_le_nat_alt unat_PGROUNDDOWN)
  then show "unat (a - p) < 4096" by (simp add: unat_sub)
next
  assume off: "unat (a - p) < 4096"
  have a: "a = p + of_nat (unat (a - p))" by simp
  obtain k where k: "unat p = 4096 * k" using assms by (auto simp: page_aligned_iff dvd_def)
  then have "k < 2 ^ 52" using unat_lt_64 [of p] by simp
  then have "unat p + unat (a - p) < 2 ^ 64" using off k by simp
  then have "unat a = unat p + unat (a - p)"
    by (subst a) (rule unat_plus_nat_64)
  then have "unat a div 4096 * 4096 = unat p" using off k by simp
  then show "PGROUNDDOWN a = p" by (simp add: word_unat_eq_iff unat_PGROUNDDOWN)
qed

lemma page_offset:
  "page_aligned p \<Longrightarrow> i < 4096 \<Longrightarrow> PGROUNDDOWN (p + of_nat i) = p"
  by (subst in_page_iff [symmetric]) (simp_all add: unat_of_nat_64)

definition same_outside :: "u64 \<Rightarrow> memory \<Rightarrow> memory \<Rightarrow> bool" where
  "same_outside p m m' \<longleftrightarrow> (\<forall>a. PGROUNDDOWN a \<noteq> p \<longrightarrow> m' a = m a)"

lemma same_outside_refl [simp]: "same_outside p m m"
  by (simp add: same_outside_def)

lemma same_outside_trans: "same_outside p m m' \<Longrightarrow> same_outside p m' m'' \<Longrightarrow> same_outside p m m''"
  by (simp add: same_outside_def)

lemma memset_same_outside:
  "page_aligned p \<Longrightarrow> same_outside p m (memset m p c 4096)"
  by (simp add: same_outside_def memset_apply in_page_iff)

lemma write_bytes_same_outside:
  assumes "page_aligned p" and "off + length bs \<le> 4096"
  shows "same_outside p m (write_bytes m (p + of_nat off) bs)"
  unfolding same_outside_def
proof (intro allI impI)
  fix a assume a: "PGROUNDDOWN a \<noteq> p"
  show "write_bytes m (p + of_nat off) bs a = m a"
  proof (rule write_bytes_outside, rule ccontr)
    assume "\<not> length bs \<le> unat (a - (p + of_nat off))"
    moreover have "a = p + of_nat (off + unat (a - (p + of_nat off)))" by simp
    ultimately have "PGROUNDDOWN a = p"
      using assms page_offset [OF assms(1), of "off + unat (a - (p + of_nat off))"] by simp
    with a show False by simp
  qed
qed

lemma store64_same_outside:
  "page_aligned p \<Longrightarrow> off + 8 \<le> 4096 \<Longrightarrow> same_outside p m (store64 m (p + of_nat off) v)"
  unfolding store64_def by (rule write_bytes_same_outside) simp_all

lemma read_bytes_same_outside:
  assumes "page_aligned q" and "q \<noteq> p" and "off + n \<le> 4096" and "same_outside p m m'"
  shows "read_bytes m' (q + of_nat off) n = read_bytes m (q + of_nat off) n"
proof (rule read_bytes_cong)
  fix i assume "i < n"
  then have "PGROUNDDOWN (q + of_nat (off + i)) = q"
    using assms by (intro page_offset) auto
  then show "m' (q + of_nat off + of_nat i) = m (q + of_nat off + of_nat i)"
    using assms(2,4) by (simp add: same_outside_def add.assoc)
qed

lemma load64_same_outside:
  "page_aligned q \<Longrightarrow> q \<noteq> p \<Longrightarrow> off + 8 \<le> 4096 \<Longrightarrow> same_outside p m m' \<Longrightarrow>
     load64 m' (q + of_nat off) = load64 m (q + of_nat off)"
  by (simp add: load64_def read_bytes_same_outside)

lemma unat_PGROUNDUP:
  assumes "unat sz + 4095 < 2 ^ 64"
  shows "unat (PGROUNDUP sz) = (unat sz + 4095) div 4096 * 4096"
proof -
  have "unat (sz + 4095) = unat sz + 4095"
    using assms by (simp add: unat_plus_64)
  moreover have "PGROUNDUP sz = PGROUNDDOWN (sz + 4095)"
    by (simp add: PGROUNDUP_def PGROUNDDOWN_def add.commute diff_add_eq)
  ultimately show ?thesis by (simp add: unat_PGROUNDDOWN)
qed

lemma page_aligned_PGROUNDUP [simp]: "page_aligned (PGROUNDUP sz)"
proof -
  have "PGROUNDUP sz = PGROUNDDOWN (sz + PGSIZE - 1)"
    by (simp add: PGROUNDUP_def PGROUNDDOWN_def)
  then show ?thesis by simp
qed

lemma PGROUNDUP_least:
  assumes "unat sz + 4095 < 2 ^ 64"
  shows "sz \<le> PGROUNDUP sz" and "page_aligned q \<Longrightarrow> sz \<le> q \<Longrightarrow> PGROUNDUP sz \<le> q"
proof -
  show "sz \<le> PGROUNDUP sz"
    using assms by (simp add: word_le_nat_alt unat_PGROUNDUP)
  assume "page_aligned q" and "sz \<le> q"
  then obtain k where "unat q = 4096 * k" "unat sz \<le> 4096 * k"
    by (auto simp: page_aligned_iff word_le_nat_alt dvd_def)
  then show "PGROUNDUP sz \<le> q"
    using assms by (simp add: word_le_nat_alt unat_PGROUNDUP)
qed

lemma load64_store64_offset:
  assumes "i + 8 \<le> j \<or> j + 8 \<le> i" and "i + 8 \<le> 4096" and "j + 8 \<le> 4096"
  shows "load64 (store64 m (p + of_nat i) v) (p + of_nat j) = load64 m (p + of_nat j)"
  unfolding load64_def
proof (rule arg_cong [where f = le_word], rule read_bytes_cong)
  fix k :: nat assume k: "k < 8"
  have "8 \<le> unat (p + of_nat j + of_nat k - (p + of_nat i) :: u64)"
  proof (cases "i \<le> j")
    case True
    then have "p + of_nat j + of_nat k - (p + of_nat i) = (of_nat (j + k - i) :: u64)"
      by (simp add: of_nat_diff)
    moreover have "unat (of_nat (j + k - i) :: u64) = j + k - i"
      using assms(3) k by (intro unat_of_nat_64) simp
    ultimately have "unat (p + of_nat j + of_nat k - (p + of_nat i) :: u64) = j + k - i"
      by (simp only:)
    then show ?thesis using assms(1) True by linarith
  next
    case False
    then have ji: "j + 8 \<le> i" using assms(1) by simp
    let ?d = "of_nat (i - j - k) :: u64"
    have e: "p + of_nat j + of_nat k - (p + of_nat i) = - ?d"
      using ji k by (simp add: of_nat_diff)
    have d: "unat ?d = i - j - k"
      using assms(2) by (intro unat_of_nat_64) simp
    have "?d \<noteq> 0"
    proof
      assume "?d = 0"
      then have "unat ?d = 0" by (simp only: unat_0)
      with d ji k show False by linarith
    qed
    then have "unat (- ?d) = 2 ^ 64 - (i - j - k)"
      using d unat_uminus_64 by metis
    moreover have "8 \<le> 2 ^ 64 - (i - j - k)" using assms(2) by simp
    ultimately show ?thesis unfolding e by (simp only:)
  qed
  then show "store64 m (p + of_nat i) v (p + of_nat j + of_nat k) = m (p + of_nat j + of_nat k)"
    unfolding store64_def by (intro write_bytes_outside) simp
qed

end
