(* ===== verification/Spinlock.thy ===== *)
theory Spinlock
  imports Machine
begin

text \<open>
  \<open>kernel/spinlock.c\<close>: interrupt nesting (\<open>push_off\<close>, \<open>pop_off\<close>), \<open>acquire\<close> and \<open>release\<close> of
  a spinlock by one hart, and the interleaving of several harts at the granularity of the
  atomic swap. The hart that executes an operation (\<open>cpuid()\<close>, the \<open>tp\<close> register) is the
  argument \<open>c\<close>. A hart that spins on a lock that stays locked is \<open>Diverge\<close>: no statement after
  the loop runs. The interface \<open>spin_view\<close> is the contract that the rest of the kernel uses.
\<close>

section \<open>State\<close>

record spinlock =
  locked :: u32
  lkcpu :: "nat option"

record cpu =
  noff :: int
  intena :: bool

record harts =
  locks :: "lockid \<Rightarrow> spinlock"
  cpus :: "nat \<Rightarrow> cpu"
  sie :: "nat \<Rightarrow> bool"

section \<open>Operations\<close>

definition initlock :: "lockid \<Rightarrow> (harts, unit) prog" where
  "initlock l = modify (\<lambda>s. s\<lparr>locks := (locks s)(l := \<lparr>locked = 0, lkcpu = None\<rparr>)\<rparr>)"

definition set_locked :: "lockid \<Rightarrow> u32 \<Rightarrow> (harts, unit) prog" where
  "set_locked l v = modify (\<lambda>s. s\<lparr>locks := (locks s)(l := (locks s l)\<lparr>locked := v\<rparr>)\<rparr>)"

definition set_lkcpu :: "lockid \<Rightarrow> nat option \<Rightarrow> (harts, unit) prog" where
  "set_lkcpu l v = modify (\<lambda>s. s\<lparr>locks := (locks s)(l := (locks s l)\<lparr>lkcpu := v\<rparr>)\<rparr>)"

definition intr_get :: "nat \<Rightarrow> harts \<Rightarrow> bool" where
  "intr_get c s = sie s c"

definition intr_on :: "nat \<Rightarrow> (harts, unit) prog" where
  "intr_on c = modify (\<lambda>s. s\<lparr>sie := (sie s)(c := True)\<rparr>)"

definition intr_off :: "nat \<Rightarrow> (harts, unit) prog" where
  "intr_off c = modify (\<lambda>s. s\<lparr>sie := (sie s)(c := False)\<rparr>)"

definition set_noff :: "nat \<Rightarrow> int \<Rightarrow> (harts, unit) prog" where
  "set_noff c n = modify (\<lambda>s. s\<lparr>cpus := (cpus s)(c := (cpus s c)\<lparr>noff := n\<rparr>)\<rparr>)"

definition set_intena :: "nat \<Rightarrow> bool \<Rightarrow> (harts, unit) prog" where
  "set_intena c b = modify (\<lambda>s. s\<lparr>cpus := (cpus s)(c := (cpus s c)\<lparr>intena := b\<rparr>)\<rparr>)"

definition push_off :: "nat \<Rightarrow> (harts, unit) prog" where
  "push_off c =
     bindp (gets (intr_get c)) (\<lambda>old.
     seqp (intr_off c) (
     bindp (gets (\<lambda>s. noff (cpus s c))) (\<lambda>n.
     seqp (whenp (n = 0) (set_intena c old)) (
     set_noff c (n + 1)))))"

definition pop_off :: "nat \<Rightarrow> (harts, unit) prog" where
  "pop_off c =
     bindp (gets (intr_get c)) (\<lambda>on.
     if on then panic ''pop_off - interruptible'' else
     bindp (gets (\<lambda>s. noff (cpus s c))) (\<lambda>n.
     if n < 1 then panic ''pop_off'' else
     seqp (set_noff c (n - 1)) (
     bindp (gets (\<lambda>s. intena (cpus s c))) (\<lambda>ena.
     whenp (n - 1 = 0 \<and> ena) (intr_on c)))))"

definition holding :: "nat \<Rightarrow> lockid \<Rightarrow> harts \<Rightarrow> bool" where
  "holding c l s \<longleftrightarrow> locked (locks s l) \<noteq> 0 \<and> lkcpu (locks s l) = Some c"

text \<open>\<open>__sync_lock_test_and_set\<close>: one atomic swap, and the loop around it.\<close>

definition test_and_set :: "lockid \<Rightarrow> (harts, u32) prog" where
  "test_and_set l =
     bindp (gets (\<lambda>s. locked (locks s l))) (\<lambda>old. seqp (set_locked l 1) (ret old))"

definition spin :: "lockid \<Rightarrow> (harts, unit) prog" where
  "spin l = bindp (test_and_set l) (\<lambda>old. if old \<noteq> 0 then (\<lambda>s. Diverge) else ret ())"

definition acquire :: "nat \<Rightarrow> lockid \<Rightarrow> (harts, unit) prog" where
  "acquire c l =
     seqp (push_off c) (
     bindp (gets (holding c l)) (\<lambda>h.
     if h then panic ''acquire'' else
     seqp (spin l) (
     set_lkcpu l (Some c))))"

definition release :: "nat \<Rightarrow> lockid \<Rightarrow> (harts, unit) prog" where
  "release c l =
     bindp (gets (holding c l)) (\<lambda>h.
     if \<not> h then panic ''release'' else
     seqp (set_lkcpu l None) (
     seqp (set_locked l 0) (
     pop_off c)))"

lemmas spin_defs = initlock_def set_locked_def set_lkcpu_def intr_get_def intr_on_def intr_off_def
  set_noff_def set_intena_def push_off_def pop_off_def holding_def test_and_set_def spin_def
  acquire_def release_def

section \<open>Interrupt nesting\<close>

text \<open>A hart with a nonzero \<open>noff\<close> runs with interrupts off, as every caller keeps it.\<close>

definition hart_ok :: "nat \<Rightarrow> harts \<Rightarrow> bool" where
  "hart_ok c s \<longleftrightarrow> 0 \<le> noff (cpus s c) \<and> (0 < noff (cpus s c) \<longrightarrow> \<not> sie s c)"

lemma push_off_apply:
  "push_off c s =
     Ret () (s\<lparr>sie := (sie s)(c := False),
              cpus := (cpus s)(c := (cpus s c)\<lparr>
                intena := (if noff (cpus s c) = 0 then sie s c else intena (cpus s c)),
                noff := noff (cpus s c) + 1\<rparr>)\<rparr>)"
  by (simp add: spin_defs prog_simps)

lemma pop_off_apply:
  "\<not> sie s c \<Longrightarrow> 1 \<le> noff (cpus s c) \<Longrightarrow>
   pop_off c s =
     Ret () (s\<lparr>cpus := (cpus s)(c := (cpus s c)\<lparr>noff := noff (cpus s c) - 1\<rparr>),
              sie := (sie s)(c := noff (cpus s c) = 1 \<and> intena (cpus s c))\<rparr>)"
  by (auto simp: spin_defs prog_simps fun_upd_idem)

text \<open>
  A run of \<open>push_off\<close>s and \<open>pop_off\<close>s on one hart. \<open>depth\<close> is the nesting the run leaves,
  \<open>None\<close> when it pops more often than it pushed.
\<close>

datatype nesting = PushOff | PopOff

primrec do_nesting :: "nat \<Rightarrow> nesting \<Rightarrow> (harts, unit) prog" where
  "do_nesting c PushOff = push_off c"
| "do_nesting c PopOff = pop_off c"

fun depth :: "nat \<Rightarrow> nesting list \<Rightarrow> nat option" where
  "depth d [] = Some d"
| "depth d (PushOff # ns) = depth (Suc d) ns"
| "depth d (PopOff # ns) = (if d = 0 then None else depth (d - 1) ns)"

definition nested_at :: "nat \<Rightarrow> bool \<Rightarrow> nat \<Rightarrow> harts \<Rightarrow> bool" where
  "nested_at c b d s \<longleftrightarrow> noff (cpus s c) = int d \<and> sie s c = (d = 0 \<and> b) \<and>
                         (0 < d \<longrightarrow> intena (cpus s c) = b)"

lemma nested_at_push: "nested_at c b d s \<Longrightarrow> \<exists>t. push_off c s = Ret () t \<and> nested_at c b (Suc d) t"
  by (auto simp: push_off_apply nested_at_def)

lemma nested_at_pop:
  "nested_at c b (Suc d) s \<Longrightarrow> \<exists>t. pop_off c s = Ret () t \<and> nested_at c b d t"
  by (auto simp: pop_off_apply nested_at_def)

lemma nested_run:
  "nested_at c b d s \<Longrightarrow> depth d ns = Some e \<Longrightarrow>
     \<exists>t. block (map (do_nesting c) ns) s = Ret () t \<and> nested_at c b e t"
proof (induction d ns arbitrary: s rule: depth.induct)
  case (1 d)
  then show ?case by simp
next
  case (2 d ns)
  then obtain t where "push_off c s = Ret () t" "nested_at c b (Suc d) t"
    using nested_at_push by blast
  then show ?case using 2 by (simp add: seqp_apply)
next
  case (3 d ns)
  then obtain d' where d: "d = Suc d'" by (cases d) auto
  then obtain t where "pop_off c s = Ret () t" "nested_at c b d' t"
    using nested_at_pop 3 by blast
  then show ?case using 3 d by (simp add: seqp_apply)
qed

section \<open>The contract of a spinlock\<close>

text \<open>
  What the kernel relies on, over the set \<open>holds s\<close> of locks the executing hart holds:
  acquiring a held lock panics, an \<open>acquire\<close> that returns has added the lock, a \<open>release\<close> of a
  lock that is not held panics, and a \<open>release\<close> of a held lock returns and removes it.
\<close>

locale spin_view =
  fixes acq :: "lockid \<Rightarrow> ('s, unit) prog"
    and rel :: "lockid \<Rightarrow> ('s, unit) prog"
    and holds :: "'s \<Rightarrow> lockid set"
    and ok :: "'s \<Rightarrow> bool"
  assumes acq_held: "ok s \<Longrightarrow> l \<in> holds s \<Longrightarrow> acq l s = Panic ''acquire''"
    and acq_ret: "ok s \<Longrightarrow> acq l s = Ret x t \<Longrightarrow>
                    l \<notin> holds s \<and> holds t = insert l (holds s) \<and> ok t"
    and rel_free: "ok s \<Longrightarrow> l \<notin> holds s \<Longrightarrow> rel l s = Panic ''release''"
    and rel_ret: "ok s \<Longrightarrow> l \<in> holds s \<Longrightarrow>
                    \<exists>t. rel l s = Ret () t \<and> holds t = holds s - {l} \<and> ok t"
begin

definition quiet :: "('s, 'a) prog \<Rightarrow> bool" where
  "quiet m \<longleftrightarrow> (\<forall>s a t. ok s \<longrightarrow> m s = Ret a t \<longrightarrow> holds t = holds s \<and> ok t)"

lemma critical_section:
  assumes "quiet body" and "ok s"
    and "bindp (acq l) (\<lambda>_. bindp body (\<lambda>a. bindp (rel l) (\<lambda>_. ret a))) s = Ret a t"
  shows "holds t = holds s \<and> ok t"
proof -
  obtain x s1 s2 where a: "acq l s = Ret x s1" and b: "body s1 = Ret a s2"
    and r: "bindp (rel l) (\<lambda>_. ret a) s2 = Ret a t"
    using assms(3) by (auto simp: bindp_eq_Ret)
  have s1: "l \<notin> holds s" "holds s1 = insert l (holds s)" "ok s1"
    using acq_ret [OF assms(2) a] by auto
  have s2: "holds s2 = insert l (holds s)" "ok s2"
    using assms(1) b s1 by (auto simp: quiet_def)
  then obtain u where "rel l s2 = Ret () u" "holds u = holds s2 - {l}" "ok u"
    using rel_ret by blast
  then show ?thesis using r s1(1) s2 by (simp add: bindp_apply)
qed

lemma quiet_section:
  assumes "quiet body"
  shows "quiet (bindp (acq l) (\<lambda>_. bindp body (\<lambda>a. bindp (rel l) (\<lambda>_. ret a))))"
  using critical_section [OF assms] unfolding quiet_def by blast

end

text \<open>The view the rest of the kernel takes satisfies the contract.\<close>

interpretation held_view: spin_view lock_acquire lock_release held "\<lambda>_. True"
  by unfold_locales (auto simp: lock_acquire_def lock_release_def split: if_splits)

definition locks_of :: "nat \<Rightarrow> harts \<Rightarrow> lockid set" where
  "locks_of c s = {l. holding c l s}"

text \<open>Between calls: as many \<open>push_off\<close>s pending as the hart holds locks, or more.\<close>

definition lock_ok :: "nat \<Rightarrow> harts \<Rightarrow> bool" where
  "lock_ok c s \<longleftrightarrow> hart_ok c s \<and> finite (locks_of c s) \<and> int (card (locks_of c s)) \<le> noff (cpus s c)"

lemma acquire_held_panics: "holding c l s \<Longrightarrow> acquire c l s = Panic ''acquire''"
  by (simp add: acquire_def prog_simps push_off_apply holding_def)

lemma acquire_Ret:
  "acquire c l s = Ret x t \<longleftrightarrow>
     locked (locks s l) = 0 \<and>
     t = s\<lparr>sie := (sie s)(c := False),
          cpus := (cpus s)(c := (cpus s c)\<lparr>
            intena := (if noff (cpus s c) = 0 then sie s c else intena (cpus s c)),
            noff := noff (cpus s c) + 1\<rparr>),
          locks := (locks s)(l := (locks s l)\<lparr>locked := 1, lkcpu := Some c\<rparr>)\<rparr>"
  by (cases "locked (locks s l) = 0") (auto simp: acquire_def prog_simps push_off_apply holding_def
      spin_def test_and_set_def set_locked_def set_lkcpu_def)

lemma locks_of_acquire:
  "acquire c l s = Ret x t \<Longrightarrow> locks_of c t = insert l (locks_of c s)"
  by (auto simp: acquire_Ret locks_of_def holding_def)

lemma acquire_ok:
  assumes "lock_ok c s" and "acquire c l s = Ret x t"
  shows "lock_ok c t"
proof -
  have "card (insert l (locks_of c s)) \<le> Suc (card (locks_of c s))"
    using assms(1) by (simp add: card_insert_if lock_ok_def)
  then show ?thesis
    using assms locks_of_acquire [OF assms(2)] by (auto simp: lock_ok_def hart_ok_def acquire_Ret)
qed

lemma release_held:
  assumes "lock_ok c s" and "holding c l s"
  shows "\<exists>t. release c l s = Ret () t \<and> locks_of c t = locks_of c s - {l} \<and> lock_ok c t"
proof -
  have fin: "finite (locks_of c s)" and l: "l \<in> locks_of c s"
    using assms by (auto simp: lock_ok_def locks_of_def)
  have card: "int (card (locks_of c s)) \<le> noff (cpus s c)" "0 < card (locks_of c s)"
    using assms(1) fin l by (auto simp: lock_ok_def card_gt_0_iff)
  then have n: "1 \<le> noff (cpus s c)" "\<not> sie s c"
    using assms(1) by (auto simp: lock_ok_def hart_ok_def)
  let ?s = "s\<lparr>locks := (locks s)(l := (locks s l)\<lparr>lkcpu := None, locked := 0\<rparr>)\<rparr>"
  have r: "release c l s = pop_off c ?s"
    using assms(2) by (simp add: release_def prog_simps set_lkcpu_def set_locked_def)
  obtain t where t: "pop_off c ?s = Ret () t" "locks t = locks ?s"
      "noff (cpus t c) = noff (cpus s c) - 1" "sie t c = (noff (cpus s c) = 1 \<and> intena (cpus s c))"
    using n by (simp add: pop_off_apply)
  have lt: "locks_of c t = locks_of c s - {l}"
    using t(2) by (auto simp: locks_of_def holding_def)
  moreover have "int (card (locks_of c s - {l})) \<le> noff (cpus s c) - 1"
    using card l fin by (simp add: card_Diff_singleton)
  ultimately have "lock_ok c t"
    using n t(3,4) fin by (simp add: lock_ok_def hart_ok_def)
  then show ?thesis using r t(1) lt by auto
qed

interpretation hart_view: spin_view "acquire c" "release c" "locks_of c" "lock_ok c" for c
proof unfold_locales
  fix s l x t
  show "lock_ok c s \<Longrightarrow> l \<in> locks_of c s \<Longrightarrow> acquire c l s = Panic ''acquire''"
    by (simp add: acquire_held_panics locks_of_def)
  show "lock_ok c s \<Longrightarrow> acquire c l s = Ret x t \<Longrightarrow>
          l \<notin> locks_of c s \<and> locks_of c t = insert l (locks_of c s) \<and> lock_ok c t"
    using locks_of_acquire acquire_ok by (auto simp: locks_of_def acquire_held_panics)
  show "lock_ok c s \<Longrightarrow> l \<notin> locks_of c s \<Longrightarrow> release c l s = Panic ''release''"
    by (simp add: release_def prog_simps locks_of_def)
  show "lock_ok c s \<Longrightarrow> l \<in> locks_of c s \<Longrightarrow>
          \<exists>t. release c l s = Ret () t \<and> locks_of c t = locks_of c s - {l} \<and> lock_ok c t"
    by (rule release_held) (simp_all add: locks_of_def)
qed

section \<open>Several harts\<close>

text \<open>
  Harts interleave between the memory operations of \<open>acquire\<close> and \<open>release\<close>. A hart runs
  other code (\<open>Run\<close>), spins in the loop of \<open>acquire\<close> (\<open>Spin l\<close>), has won the swap but not yet
  recorded \<open>lk->cpu\<close> (\<open>Took l\<close>), or has cleared \<open>lk->cpu\<close> in \<open>release\<close> but not yet the lock
  word (\<open>Leaving l\<close>). \<open>own c\<close> is the set of locks whose \<open>acquire\<close> has returned to hart \<open>c\<close> and
  whose \<open>release\<close> has not started. The checks by \<open>holding\<close> guard the first step of each call: a
  hart that fails one has panicked and takes no further step.
\<close>

datatype pc = Run | Spin lockid | Took lockid | Leaving lockid

record smp =
  hw :: harts
  pcs :: "nat \<Rightarrow> pc"
  own :: "nat \<Rightarrow> lockid set"

definition put_pc :: "nat \<Rightarrow> pc \<Rightarrow> smp \<Rightarrow> smp" where
  "put_pc c p s = s\<lparr>pcs := (pcs s)(c := p)\<rparr>"

definition put_own :: "nat \<Rightarrow> lockid set \<Rightarrow> smp \<Rightarrow> smp" where
  "put_own c ls s = s\<lparr>own := (own s)(c := ls)\<rparr>"

inductive smp_step :: "smp \<Rightarrow> smp \<Rightarrow> bool" where
  start_acquire:
    "pcs s c = Run \<Longrightarrow> push_off c (hw s) = Ret () h \<Longrightarrow> \<not> holding c l h \<Longrightarrow>
     smp_step s (put_pc c (Spin l) (s\<lparr>hw := h\<rparr>))"
| swap_lost:
    "pcs s c = Spin l \<Longrightarrow> test_and_set l (hw s) = Ret old h \<Longrightarrow> old \<noteq> 0 \<Longrightarrow>
     smp_step s (s\<lparr>hw := h\<rparr>)"
| swap_won:
    "pcs s c = Spin l \<Longrightarrow> test_and_set l (hw s) = Ret old h \<Longrightarrow> old = 0 \<Longrightarrow>
     smp_step s (put_pc c (Took l) (s\<lparr>hw := h\<rparr>))"
| record_cpu:
    "pcs s c = Took l \<Longrightarrow> set_lkcpu l (Some c) (hw s) = Ret () h \<Longrightarrow>
     smp_step s (put_pc c Run (put_own c (insert l (own s c)) (s\<lparr>hw := h\<rparr>)))"
| start_release:
    "pcs s c = Run \<Longrightarrow> holding c l (hw s) \<Longrightarrow> set_lkcpu l None (hw s) = Ret () h \<Longrightarrow>
     smp_step s (put_pc c (Leaving l) (put_own c (own s c - {l}) (s\<lparr>hw := h\<rparr>)))"
| unlock:
    "pcs s c = Leaving l \<Longrightarrow> set_locked l 0 (hw s) = Ret () h \<Longrightarrow> pop_off c h = Ret () h' \<Longrightarrow>
     smp_step s (put_pc c Run (s\<lparr>hw := h'\<rparr>))"

definition smp_boot :: smp where
  "smp_boot = \<lparr>hw = \<lparr>locks = (\<lambda>_. \<lparr>locked = 0, lkcpu = None\<rparr>),
                     cpus = (\<lambda>_. \<lparr>noff = 0, intena = False\<rparr>), sie = (\<lambda>_. False)\<rparr>,
               pcs = (\<lambda>_. Run), own = (\<lambda>_. {})\<rparr>"

inductive smp_reachable :: "smp \<Rightarrow> bool" where
  boot: "smp_reachable smp_boot"
| step: "smp_reachable s \<Longrightarrow> smp_step s t \<Longrightarrow> smp_reachable t"

text \<open>
  The invariant: a lock word is set exactly while some hart occupies the lock, no two harts
  occupy it, and \<open>lk->cpu\<close> names a hart exactly while that hart is between the two calls.
\<close>

definition occupies :: "smp \<Rightarrow> nat \<Rightarrow> lockid \<Rightarrow> bool" where
  "occupies s c l \<longleftrightarrow> l \<in> own s c \<or> pcs s c = Took l \<or> pcs s c = Leaving l"

definition smp_inv :: "smp \<Rightarrow> bool" where
  "smp_inv s \<longleftrightarrow>
     (\<forall>l. locked (locks (hw s) l) \<noteq> 0 \<longleftrightarrow> (\<exists>c. occupies s c l)) \<and>
     (\<forall>l c d. occupies s c l \<longrightarrow> occupies s d l \<longrightarrow> c = d) \<and>
     (\<forall>l c. lkcpu (locks (hw s) l) = Some c \<longleftrightarrow> l \<in> own s c) \<and>
     (\<forall>l c. l \<in> own s c \<longrightarrow> pcs s c \<noteq> Took l \<and> pcs s c \<noteq> Leaving l)"

lemma smp_invD:
  assumes "smp_inv s"
  shows "locked (locks (hw s) l) \<noteq> 0 \<longleftrightarrow> (\<exists>c. occupies s c l)"
    and "occupies s c l \<Longrightarrow> occupies s d l \<Longrightarrow> c = d"
    and "lkcpu (locks (hw s) l) = Some c \<longleftrightarrow> l \<in> own s c"
    and "l \<in> own s c \<Longrightarrow> pcs s c \<noteq> Took l \<and> pcs s c \<noteq> Leaving l"
  using assms unfolding smp_inv_def by blast+

lemma locks_push_off: "push_off c s = Ret () t \<Longrightarrow> locks t = locks s"
  by (auto simp: push_off_apply)

lemma locks_pop_off: "pop_off c s = Ret () t \<Longrightarrow> locks t = locks s"
  by (auto simp: spin_defs prog_simps split: if_splits)

lemma swap_won_inv:
  assumes "pcs s c = Spin l" "test_and_set l (hw s) = Ret old h" "old = 0" "smp_inv s"
  shows "smp_inv (put_pc c (Took l) (s\<lparr>hw := h\<rparr>))"
proof -
  let ?t = "put_pc c (Took l) (s\<lparr>hw := h\<rparr>)"
  have h: "locked (locks h k) \<noteq> 0 \<longleftrightarrow> k = l \<or> locked (locks (hw s) k) \<noteq> 0"
      "lkcpu (locks h k) = lkcpu (locks (hw s) k)" for k
    using assms(2)
    by (auto simp: test_and_set_def set_locked_def prog_simps split: if_splits)
  have free: "\<not> occupies s d l" for d
    using smp_invD(1) [OF assms(4), of l] assms(2,3)
    by (auto simp: test_and_set_def set_locked_def prog_simps)
  have occ: "occupies ?t d k \<longleftrightarrow> (d = c \<and> k = l) \<or> occupies s d k" for d k
    using assms(1) by (auto simp: occupies_def put_pc_def)
  have "l \<notin> own s d" for d using free by (simp add: occupies_def)
  then show ?thesis
    using assms(4) free unfolding smp_inv_def occ by (auto simp: h put_pc_def)
qed

lemma unlock_inv:
  assumes "pcs s c = Leaving l" "set_locked l 0 (hw s) = Ret () h" "pop_off c h = Ret () h'" "smp_inv s"
  shows "smp_inv (put_pc c Run (s\<lparr>hw := h'\<rparr>))"
proof -
  let ?t = "put_pc c Run (s\<lparr>hw := h'\<rparr>)"
  have h: "locked (locks h' k) \<noteq> 0 \<longleftrightarrow> k \<noteq> l \<and> locked (locks (hw s) k) \<noteq> 0"
      "lkcpu (locks h' k) = lkcpu (locks (hw s) k)" for k
    using assms(2) locks_pop_off [OF assms(3)] by (auto simp: set_locked_def split: if_splits)
  have c: "occupies s c l" "l \<notin> own s c"
    using assms(1) smp_invD(4) [OF assms(4)] by (auto simp: occupies_def)
  then have only: "occupies s d l \<Longrightarrow> d = c" for d
    using smp_invD(2) [OF assms(4)] by blast
  have occ: "occupies ?t d k \<longleftrightarrow> k \<noteq> l \<and> occupies s d k" for d k
  proof (cases "d = c")
    case True
    then show ?thesis using assms(1) c(2) by (auto simp: occupies_def put_pc_def)
  next
    case False
    then have "occupies ?t d k = occupies s d k" by (simp add: occupies_def put_pc_def)
    then show ?thesis using False only [of d] by auto
  qed
  have "l \<notin> own s d" for d using only [of d] c(2) by (auto simp: occupies_def)
  then show ?thesis
    using assms(4) unfolding smp_inv_def occ by (simp add: h put_pc_def) blast
qed

lemma smp_step_inv: "smp_step s t \<Longrightarrow> smp_inv s \<Longrightarrow> smp_inv t"
proof (induction rule: smp_step.induct)
  case (start_acquire s c h l)
  let ?t = "put_pc c (Spin l) (s\<lparr>hw := h\<rparr>)"
  have occ: "occupies ?t d k = occupies s d k" for d k
    using start_acquire(1) by (auto simp: occupies_def put_pc_def)
  show ?case
    using start_acquire(4) locks_push_off [OF start_acquire(2)]
    unfolding smp_inv_def occ by (auto simp: put_pc_def)
next
  case (swap_lost s c l old h)
  have h: "locked (locks h k) \<noteq> 0 \<longleftrightarrow> locked (locks (hw s) k) \<noteq> 0"
      "lkcpu (locks h k) = lkcpu (locks (hw s) k)" for k
    using swap_lost(2,3)
    by (auto simp: test_and_set_def set_locked_def prog_simps split: if_splits)
  have occ: "occupies (s\<lparr>hw := h\<rparr>) d k = occupies s d k" for d k
    by (simp add: occupies_def)
  show ?case using swap_lost(4) unfolding smp_inv_def occ by (simp add: h)
next
  case (swap_won s c l old h)
  then show ?case by (rule swap_won_inv)
next
  case (record_cpu s c l h)
  let ?t = "put_pc c Run (put_own c (insert l (own s c)) (s\<lparr>hw := h\<rparr>))"
  have h: "locked (locks h k) = locked (locks (hw s) k)"
      "lkcpu (locks h k) = (if k = l then Some c else lkcpu (locks (hw s) k))" for k
    using record_cpu(2) by (auto simp: set_lkcpu_def)
  have occ: "occupies ?t d k = occupies s d k" for d k
    using record_cpu(1) by (auto simp: occupies_def put_pc_def put_own_def)
  have "occupies s c l" using record_cpu(1) by (simp add: occupies_def)
  then have "l \<in> own s d \<Longrightarrow> d = c" for d
    using smp_invD(2) [OF record_cpu(3)] by (auto simp: occupies_def)
  then show ?case
    using record_cpu(3) unfolding smp_inv_def occ by (auto simp: h put_pc_def put_own_def)
next
  case (start_release s c l h)
  let ?t = "put_pc c (Leaving l) (put_own c (own s c - {l}) (s\<lparr>hw := h\<rparr>))"
  have h: "locked (locks h k) = locked (locks (hw s) k)"
      "lkcpu (locks h k) = (if k = l then None else lkcpu (locks (hw s) k))" for k
    using start_release(3) by (auto simp: set_lkcpu_def)
  have lc: "l \<in> own s c"
    using start_release(2) smp_invD(3) [OF start_release(4), of l c] by (simp add: holding_def)
  have occ: "occupies ?t d k = occupies s d k" for d k
    using start_release(1) lc by (auto simp: occupies_def put_pc_def put_own_def)
  have "l \<in> own s d \<Longrightarrow> d = c" for d
    using smp_invD(2) [OF start_release(4), of d l c] lc by (auto simp: occupies_def)
  then show ?case
    using start_release(4) unfolding smp_inv_def occ by (auto simp: h put_pc_def put_own_def)
next
  case (unlock s c l h h')
  then show ?case by (rule unlock_inv)
qed

lemma smp_boot_inv: "smp_inv smp_boot"
  by (simp add: smp_inv_def smp_boot_def occupies_def)

lemma smp_reachable_inv: "smp_reachable s \<Longrightarrow> smp_inv s"
  by (induction rule: smp_reachable.induct) (auto intro: smp_boot_inv smp_step_inv)

section \<open>Properties\<close>


lemma smp_acquire_run:
  assumes "smp_reachable s" and "pcs s c = Run" and "locked (locks (hw s) l) = 0"
  shows "\<exists>t. smp_reachable t \<and> l \<in> own t c"
proof -
  obtain h where h: "push_off c (hw s) = Ret () h" "locks h = locks (hw s)"
    by (simp add: push_off_apply)
  have "smp_step s (put_pc c (Spin l) (s\<lparr>hw := h\<rparr>))" (is "smp_step s ?s1")
    using assms h by (intro smp_step.start_acquire) (auto simp: holding_def)
  moreover obtain h1 where h1: "test_and_set l h = Ret 0 h1"
    using h(2) assms(3) by (simp add: test_and_set_def prog_simps set_locked_def)
  have "smp_step ?s1 (put_pc c (Took l) (?s1\<lparr>hw := h1\<rparr>))" (is "smp_step _ ?s2")
    by (rule smp_step.swap_won [OF _ _ refl]) (simp_all add: put_pc_def h1)
  moreover obtain h2 where h2: "set_lkcpu l (Some c) h1 = Ret () h2"
    by (simp add: set_lkcpu_def)
  have "smp_step ?s2 (put_pc c Run (put_own c (insert l (own ?s2 c)) (?s2\<lparr>hw := h2\<rparr>)))"
    (is "smp_step _ ?s3")
    by (rule smp_step.record_cpu) (simp_all add: put_pc_def h2)
  ultimately have "smp_reachable ?s3"
    using assms(1) by (blast intro: smp_reachable.step)
  then show ?thesis by (intro exI [of _ ?s3]) (simp add: put_pc_def put_own_def)
qed


text \<open>
  C14: \<open>push_off\<close> and \<open>pop_off\<close> are matched: after any run that does not pop more often than
  it pushed, started outside all sections, interrupts are enabled exactly when the nesting is back to
  zero and they were enabled at the start, and no call of the run panics.
\<close>

theorem push_pop_off_matched:
  assumes "noff (cpus s c) = 0" and "depth 0 ns = Some d"
  shows "\<exists>t. block (map (do_nesting c) ns) s = Ret () t \<and> noff (cpus t c) = int d \<and>
             (sie t c \<longleftrightarrow> d = 0 \<and> sie s c)"
proof -
  have "nested_at c (sie s c) 0 s" using assms(1) by (simp add: nested_at_def)
  from nested_run [OF this assms(2)] show ?thesis by (auto simp: nested_at_def)
qed

theorem push_pop_off_matched_witness:
  "\<exists>t. block (map (do_nesting 0) [PushOff, PushOff, PopOff])
         ((hw smp_boot)\<lparr>sie := \<lambda>_. True\<rparr>) = Ret () t \<and> noff (cpus t 0) = 1 \<and> \<not> sie t 0"
  using push_pop_off_matched [of "(hw smp_boot)\<lparr>sie := \<lambda>_. True\<rparr>" 0 "[PushOff, PushOff, PopOff]" 1]
  by (simp add: smp_boot_def)



end
