(* ===== verification/Kalloc.thy ===== *)
theory Kalloc
  imports Spinlock
begin

text \<open>
  \<open>kernel/kalloc.c\<close>: the page allocator. The free list is threaded through the free pages
  themselves: \<open>kmem.freelist\<close> is the address of the first free page and the first eight bytes of a
  free page hold the address of the next one (\<open>struct run\<close>). \<open>kend\<close> is the linker symbol \<open>end\<close>,
  the first address after the kernel.
\<close>

record kmem_state = machine +
  freelist :: u64
  kend :: u64

section \<open>Operations\<close>

definition kfree :: "u64 \<Rightarrow> ('z kmem_state_scheme, unit) prog" where
  "kfree pa =
     bindp (gets kend) (\<lambda>e.
     if pa mod PGSIZE \<noteq> 0 \<or> pa < e \<or> pa \<ge> PHYSTOP then panic ''kfree'' else
     block
      [modify (\<lambda>s. s\<lparr>mem := memset (mem s) pa 1 4096\<rparr>),
       lock_acquire LKmem,
       modify (\<lambda>s. s\<lparr>mem := store64 (mem s) pa (freelist s)\<rparr>),
       modify (\<lambda>s. s\<lparr>freelist := pa\<rparr>),
       lock_release LKmem])"

definition kalloc :: "('z kmem_state_scheme, u64) prog" where
  "kalloc =
     seqp (lock_acquire LKmem) (
     bindp (gets freelist) (\<lambda>r.
     seqp (whenp (r \<noteq> 0) (modify (\<lambda>s. s\<lparr>freelist := load64 (mem s) r\<rparr>))) (
     seqp (lock_release LKmem) (
     seqp (whenp (r \<noteq> 0) (modify (\<lambda>s. s\<lparr>mem := memset (mem s) r 5 4096\<rparr>))) (
     ret r)))))"

text \<open>
  The loop of \<open>freerange\<close> ends although its guard may wrap: past \<open>PHYSTOP\<close> the call to \<open>kfree\<close>
  panics before the pointer can wrap around.
\<close>

function (sequential) freerange_loop ::
    "u64 \<Rightarrow> u64 \<Rightarrow> ('z kmem_state_scheme, unit) prog" where
  "freerange_loop p pa_end s =
     (if p + PGSIZE \<le> pa_end
      then (case kfree p s of Ret _ t \<Rightarrow> freerange_loop (p + PGSIZE) pa_end t
                            | Panic msg \<Rightarrow> Panic msg | Switch t \<Rightarrow> Switch t | Diverge \<Rightarrow> Diverge)
      else Ret () s)"
  by pat_completeness auto
termination
proof (relation "measure (\<lambda>(p, pa_end, s). 2 ^ 64 - unat p)", goal_cases)
  case 1
  then show ?case by simp
next
  case (2 p pa_end s x t)
  then have "p < PHYSTOP"
    by (auto simp: kfree_def bindp_apply not_le split: if_splits)
  then have "unat p + 4096 < 2 ^ 64"
    by (simp add: PHYSTOP_def KERNBASE_def word_less_nat_alt)
  then have "unat (p + PGSIZE) = unat p + 4096"
    by (simp add: unat_plus_64)
  then show ?case using unat_lt_64 [of p] by simp
qed

declare freerange_loop.simps [simp del]

definition freerange :: "u64 \<Rightarrow> u64 \<Rightarrow> ('z kmem_state_scheme, unit) prog" where
  "freerange pa_start pa_end = freerange_loop (PGROUNDUP pa_start) pa_end"

definition kinit :: "('z kmem_state_scheme, unit) prog" where
  "kinit = seqp (lock_init LKmem) (bindp (gets kend) (\<lambda>e. freerange e PHYSTOP))"

section \<open>The free list\<close>

primrec kchain :: "memory \<Rightarrow> u64 \<Rightarrow> u64 list \<Rightarrow> bool" where
  "kchain m p [] \<longleftrightarrow> p = 0"
| "kchain m p (q # qs) \<longleftrightarrow> p = q \<and> q \<noteq> 0 \<and> kchain m (load64 m q) qs"

definition page_ok :: "u64 \<Rightarrow> u64 \<Rightarrow> bool" where
  "page_ok e p \<longleftrightarrow> page_aligned p \<and> e \<le> p \<and> p < PHYSTOP"

text \<open>\<open>kmem_inv s ps\<close>: the free list of \<open>s\<close> is the list \<open>ps\<close> of distinct legal pages.\<close>

definition kmem_inv :: "'z kmem_state_scheme \<Rightarrow> u64 list \<Rightarrow> bool" where
  "kmem_inv s ps \<longleftrightarrow> kchain (mem s) (freelist s) ps \<and> distinct ps \<and>
                     (\<forall>p \<in> set ps. page_ok (kend s) p) \<and> KERNBASE \<le> kend s \<and> LKmem \<notin> held s"

lemma page_ok_nonzero: "KERNBASE \<le> e \<Longrightarrow> page_ok e p \<Longrightarrow> p \<noteq> 0"
  by (auto simp: page_ok_def KERNBASE_def word_le_nat_alt)

lemma page_ok_aligned: "page_ok e p \<Longrightarrow> page_aligned p"
  by (simp add: page_ok_def)

lemma kchain_same_outside:
  assumes "same_outside p m m'" and "p \<notin> set qs" and "\<forall>q \<in> set qs. page_aligned q"
  shows "kchain m' a qs = kchain m a qs"
  using assms(2,3)
proof (induction qs arbitrary: a)
  case Nil
  then show ?case by simp
next
  case (Cons q qs)
  have "load64 m' q = load64 m q"
    using load64_same_outside [of q p 0 m m'] assms(1) Cons.prems by auto
  with Cons show ?case by simp
qed

text \<open>What the two operations do when they do not panic.\<close>

definition kalloc_result :: "'z kmem_state_scheme \<Rightarrow> 'z kmem_state_scheme" where
  "kalloc_result s = s\<lparr>mem := memset (mem s) (freelist s) 5 4096,
                       freelist := load64 (mem s) (freelist s)\<rparr>"

definition kfree_result :: "u64 \<Rightarrow> 'z kmem_state_scheme \<Rightarrow> 'z kmem_state_scheme" where
  "kfree_result pa s = s\<lparr>mem := store64 (memset (mem s) pa 1 4096) pa (freelist s),
                         freelist := pa\<rparr>"

lemma kalloc_apply:
  assumes "LKmem \<notin> held s"
  shows "kalloc s = (if freelist s = 0 then Ret 0 s else Ret (freelist s) (kalloc_result s))"
  using assms by (simp add: kalloc_def prog_simps kalloc_result_def)

lemma kfree_apply:
  assumes "LKmem \<notin> held s" and "page_ok (kend s) pa"
  shows "kfree pa s = Ret () (kfree_result pa s)"
  using assms
  by (simp add: kfree_def prog_simps kfree_result_def page_ok_def page_aligned_def not_less
      linorder_not_le)

lemma kfree_bad: "\<not> page_ok (kend s) pa \<Longrightarrow> kfree pa s = Panic ''kfree''"
  by (auto simp: kfree_def prog_simps page_ok_def page_aligned_def not_less not_le)

lemma kmem_inv_kalloc:
  assumes "kmem_inv s (p # ps)"
  shows "kmem_inv (kalloc_result s) ps"
proof -
  have p: "freelist s = p" "kchain (mem s) (load64 (mem s) p) ps" "p \<notin> set ps"
      "page_aligned p" "\<forall>q \<in> set ps. page_aligned q"
    using assms by (auto simp: kmem_inv_def page_ok_def)
  then have "kchain (memset (mem s) p 5 4096) (load64 (mem s) p) ps"
    using kchain_same_outside [OF memset_same_outside] by blast
  then show ?thesis using assms p by (simp add: kmem_inv_def kalloc_result_def)
qed

lemma kmem_inv_kfree:
  assumes "kmem_inv s ps" and "page_ok (kend s) p" and "p \<notin> set ps"
  shows "kmem_inv (kfree_result p s) (p # ps)"
proof -
  have al: "page_aligned p" "\<forall>q \<in> set ps. page_aligned q"
    using assms by (auto simp: kmem_inv_def page_ok_def)
  have "same_outside p (mem s) (store64 (memset (mem s) p 1 4096) p (freelist s))"
    using same_outside_trans [OF memset_same_outside store64_same_outside [where off = 0]] al(1)
    by simp
  then have "kchain (store64 (memset (mem s) p 1 4096) p (freelist s)) (freelist s) ps"
    using kchain_same_outside assms(1,3) al(2) unfolding kmem_inv_def by blast
  then show ?thesis
    using assms page_ok_nonzero by (auto simp: kmem_inv_def kfree_result_def)
qed

section \<open>The contract of a page allocator\<close>

text \<open>
  \<open>frees s ps\<close>: in state \<open>s\<close> the free pages are \<open>ps\<close>, most recently freed first. \<open>legal s p\<close>:
  \<open>p\<close> is a page the allocator manages.
\<close>

datatype page_op = AllocPage | FreePage u64

text \<open>A run of a client that frees only pages it was given; \<open>out\<close> is what it holds.\<close>

fun serve :: "('s, u64) prog \<Rightarrow> (u64 \<Rightarrow> ('s, unit) prog) \<Rightarrow> page_op list \<Rightarrow> u64 set \<Rightarrow>
    ('s, u64 set) prog" where
  "serve alloc free [] out = ret out"
| "serve alloc free (AllocPage # ops) out =
     bindp alloc (\<lambda>p. serve alloc free ops (if p = 0 then out else insert p out))"
| "serve alloc free (FreePage p # ops) out =
     (if p \<in> out then bindp (free p) (\<lambda>_. serve alloc free ops (out - {p}))
      else serve alloc free ops out)"

locale page_allocator =
  fixes alloc :: "('s, u64) prog"
    and free :: "u64 \<Rightarrow> ('s, unit) prog"
    and frees :: "'s \<Rightarrow> u64 list \<Rightarrow> bool"
    and legal :: "'s \<Rightarrow> u64 \<Rightarrow> bool"
  assumes alloc_none: "frees s [] \<Longrightarrow> alloc s = Ret 0 s"
    and alloc_some: "frees s (p # ps) \<Longrightarrow>
           \<exists>t. alloc s = Ret p t \<and> frees t ps \<and> (\<forall>q. legal t q = legal s q)"
    and free_page: "frees s ps \<Longrightarrow> legal s p \<Longrightarrow> p \<notin> set ps \<Longrightarrow>
           \<exists>t. free p s = Ret () t \<and> frees t (p # ps) \<and> (\<forall>q. legal t q = legal s q)"
    and frees_legal: "frees s ps \<Longrightarrow> distinct ps \<and> (\<forall>p \<in> set ps. legal s p \<and> p \<noteq> 0)"
begin

lemma serve_correct:
  assumes "frees s ps" and "out \<inter> set ps = {}" and "\<forall>p \<in> out. legal s p \<and> p \<noteq> 0"
  shows "\<exists>out' t qs. serve alloc free ops out s = Ret out' t \<and> frees t qs \<and>
           out' \<inter> set qs = {} \<and> out' \<union> set qs = out \<union> set ps"
  using assms
proof (induction ops arbitrary: s ps out)
  case Nil
  then show ?case by (intro exI [of _ out] exI [of _ s] exI [of _ ps]) simp
next
  case (Cons x ops)
  show ?case
  proof (cases x)
    case AllocPage
    show ?thesis
    proof (cases ps)
      case Nil
      then show ?thesis
        using AllocPage Cons.IH [of s ps out] Cons.prems alloc_none [of s]
        by (simp add: bindp_apply)
    next
      case (Cons p qs)
      then obtain t where t: "alloc s = Ret p t" "frees t qs" "\<forall>q. legal t q = legal s q"
        using Cons.prems(1) alloc_some [of s p qs] by blast
      have p: "p \<noteq> 0" "p \<notin> set qs" "legal s p"
        using Cons.prems(1) Cons frees_legal [of s ps] by auto
      have "\<exists>out' u rs. serve alloc free ops (insert p out) t = Ret out' u \<and> frees u rs \<and>
              out' \<inter> set rs = {} \<and> out' \<union> set rs = insert p out \<union> set qs"
        using Cons.prems t p Cons by (intro Cons.IH) auto
      then show ?thesis using t p Cons AllocPage by (auto simp: bindp_apply)
    qed
  next
    case (FreePage p)
    show ?thesis
    proof (cases "p \<in> out")
      case True
      then obtain t where t: "free p s = Ret () t" "frees t (p # ps)" "\<forall>q. legal t q = legal s q"
        using Cons.prems free_page [of s ps p] by blast
      have "\<exists>out' u rs. serve alloc free ops (out - {p}) t = Ret out' u \<and> frees u rs \<and>
              out' \<inter> set rs = {} \<and> out' \<union> set rs = (out - {p}) \<union> set (p # ps)"
        using True Cons.prems t by (intro Cons.IH) auto
      moreover have "(out - {p}) \<union> set (p # ps) = out \<union> set ps" using True by auto
      ultimately show ?thesis using t True FreePage by (simp add: bindp_apply)
    next
      case False
      then show ?thesis using Cons.IH [of s ps out] Cons.prems FreePage by simp
    qed
  qed
qed

end

interpretation kmem: page_allocator kalloc kfree kmem_inv "\<lambda>s. page_ok (kend s)"
proof unfold_locales
  fix s :: "'z kmem_state_scheme" and p ps
  show "kmem_inv s [] \<Longrightarrow> kalloc s = Ret 0 s"
    by (simp add: kmem_inv_def kalloc_apply)
  show "kmem_inv s (p # ps) \<Longrightarrow>
          \<exists>t. kalloc s = Ret p t \<and> kmem_inv t ps \<and> (\<forall>q. page_ok (kend t) q = page_ok (kend s) q)"
    using kmem_inv_kalloc [of s p ps] by (auto simp: kmem_inv_def kalloc_apply kalloc_result_def)
  show "kmem_inv s ps \<Longrightarrow> page_ok (kend s) p \<Longrightarrow> p \<notin> set ps \<Longrightarrow>
          \<exists>t. kfree p s = Ret () t \<and> kmem_inv t (p # ps) \<and>
              (\<forall>q. page_ok (kend t) q = page_ok (kend s) q)"
    using kmem_inv_kfree [of s ps p] kfree_apply [of s p]
    by (auto simp: kmem_inv_def kfree_result_def)
  show "kmem_inv s ps \<Longrightarrow> distinct ps \<and> (\<forall>p \<in> set ps. page_ok (kend s) p \<and> p \<noteq> 0)"
    using page_ok_nonzero by (auto simp: kmem_inv_def)
qed

section \<open>Boot\<close>

lemma unat_PHYSTOP: "unat PHYSTOP = 2281701376"
  by (simp add: PHYSTOP_def KERNBASE_def)

lemma next_page:
  assumes "page_aligned p" and "p < PHYSTOP"
  shows "p + PGSIZE \<le> PHYSTOP" and "unat (p + PGSIZE) = unat p + 4096"
    and "page_aligned (p + PGSIZE)"
proof -
  obtain k where k: "unat p = 4096 * k"
    using assms(1) by (auto simp: page_aligned_iff dvd_def)
  have lt: "unat p < 2281701376"
    using assms(2) by (simp add: word_less_nat_alt unat_PHYSTOP)
  then show n: "unat (p + PGSIZE) = unat p + 4096" by (simp add: unat_plus_64)
  show "p + PGSIZE \<le> PHYSTOP"
    using lt k by (simp add: word_le_nat_alt n unat_PHYSTOP)
  show "page_aligned (p + PGSIZE)"
    unfolding page_aligned_iff n by (simp add: k)
qed

lemma freerange_loop_frees:
  assumes "kmem_inv s ps" and "page_aligned p" and "kend s \<le> p" and "p \<le> PHYSTOP"
    and "set ps = {q. page_ok (kend s) q \<and> q < p}"
  shows "\<exists>t qs. freerange_loop p PHYSTOP s = Ret () t \<and> kmem_inv t qs \<and>
           kend t = kend s \<and> set qs = {q. page_ok (kend s) q}"
  using assms
proof (induction p PHYSTOP s arbitrary: ps rule: freerange_loop.induct)
  case (1 p s)
  show ?case
  proof (cases "p < PHYSTOP")
    case True
    note nx = next_page [OF 1(3) True]
    have ok: "page_ok (kend s) p" using 1 True by (simp add: page_ok_def)
    have new: "p \<notin> set ps" using 1(6) by simp
    have lk: "LKmem \<notin> held s" using 1(2) by (simp add: kmem_inv_def)
    let ?t = "kfree_result p s"
    have kf: "kfree p s = Ret () ?t" using lk ok by (rule kfree_apply)
    have t: "kmem_inv ?t (p # ps)" "kend ?t = kend s"
      using kmem_inv_kfree [OF 1(2) ok new] by (simp_all add: kfree_result_def)
    have "set (p # ps) = {q. page_ok (kend ?t) q \<and> q < p + PGSIZE}"
    proof -
      have "q < p + PGSIZE \<longleftrightarrow> q < p \<or> q = p" if q: "page_aligned q" for q
      proof -
        obtain j where j: "unat q = 4096 * j"
          using q by (auto simp: page_aligned_iff dvd_def)
        obtain k where "unat p = 4096 * k"
          using 1(3) by (auto simp: page_aligned_iff dvd_def)
        with j show ?thesis by (auto simp: word_less_nat_alt nx(2) word_unat_eq_iff)
      qed
      then show ?thesis using 1(6) ok t(2) by (auto simp: page_ok_def)
    qed
    moreover have "kend s \<le> p + PGSIZE"
      using 1(4) nx(2) by (simp add: word_le_nat_alt)
    ultimately have "\<exists>u qs. freerange_loop (p + PGSIZE) PHYSTOP ?t = Ret () u \<and> kmem_inv u qs \<and>
           kend u = kend s \<and> set qs = {q. page_ok (kend s) q}"
      using 1(1) [OF nx(1) kf t(1)] nx t(2) by auto
    then show ?thesis using nx(1) kf by (simp add: freerange_loop.simps [of p])
  next
    case False
    then have p: "p = PHYSTOP" using 1(5) by simp
    then have "\<not> p + PGSIZE \<le> PHYSTOP" by (simp add: PHYSTOP_def KERNBASE_def)
    moreover have "set ps = {q. page_ok (kend s) q}" using 1(6) p by (auto simp: page_ok_def)
    ultimately show ?thesis using 1(2) by (simp add: freerange_loop.simps [of p]) blast
  qed
qed

section \<open>Properties\<close>

text \<open>
  C16: The allocator never hands out a page twice. Take any sequence of \<open>kalloc\<close> and \<open>kfree\<close>
  calls by clients that free only pages they were given. Every call returns, the pages given
  out are disjoint from the pages on the free list, and the two together are always the pages
  there were at the start: no page is lost and none is duplicated.
\<close>

theorem kalloc_kfree_run:
  assumes "kmem_inv s ps"
  shows "\<exists>out t qs. serve kalloc kfree ops {} s = Ret out t \<and> kmem_inv t qs \<and>
           out \<inter> set qs = {} \<and> out \<union> set qs = set ps"
  using kmem.serve_correct [OF assms, of "{}" ops] by simp

definition kmem_example :: kmem_state where
  "kmem_example = \<lparr>mem = (\<lambda>_. 0), held = {}, freelist = KERNBASE, kend = KERNBASE\<rparr>"

lemma kmem_example_inv: "kmem_inv kmem_example [KERNBASE]"
  by (simp add: kmem_example_def kmem_inv_def page_ok_def page_aligned_def KERNBASE_def PHYSTOP_def)

theorem kalloc_kfree_run_witness:
  "\<exists>out t qs. serve kalloc kfree [AllocPage, AllocPage, FreePage KERNBASE] {} kmem_example
     = Ret out t \<and> kmem_inv t qs \<and> out \<inter> set qs = {} \<and> out \<union> set qs = {KERNBASE}"
  using kalloc_kfree_run [OF kmem_example_inv, of "[AllocPage, AllocPage, FreePage KERNBASE]"]
  by simp

text \<open>
  C17: \<open>kinit\<close> puts every page between the end of the kernel and \<open>PHYSTOP\<close> on the free list, each
  exactly once, and returns.
\<close>

theorem kinit_frees_all:
  assumes "freelist s = 0" and "KERNBASE \<le> kend s" and "kend s \<le> PHYSTOP"
  shows "\<exists>t ps. kinit s = Ret () t \<and> kmem_inv t ps \<and> distinct ps \<and>
           set ps = {p. page_aligned p \<and> kend s \<le> p \<and> p < PHYSTOP}"
proof -
  let ?s = "s\<lparr>held := held s - {LKmem}\<rparr>" and ?p = "PGROUNDUP (kend s)"
  have small: "unat (kend s) + 4095 < 2 ^ 64"
    using assms(3) by (simp add: word_le_nat_alt unat_PHYSTOP)
  have al: "page_aligned PHYSTOP" by (simp add: page_aligned_def PHYSTOP_def KERNBASE_def)
  have "kmem_inv ?s []" using assms(1,2) by (simp add: kmem_inv_def)
  moreover have "kend ?s \<le> ?p" "?p \<le> PHYSTOP"
    using PGROUNDUP_least [OF small] al assms(3) by auto
  moreover have "set [] = {q. page_ok (kend ?s) q \<and> q < ?p}"
    using PGROUNDUP_least(2) [OF small] by (fastforce simp: page_ok_def dest: leD)
  ultimately obtain t ps where "freerange_loop ?p PHYSTOP ?s = Ret () t" "kmem_inv t ps"
      "set ps = {q. page_ok (kend s) q}"
    using freerange_loop_frees [of ?s "[]" ?p] by auto
  then show ?thesis
    by (auto simp: kinit_def lock_init_def prog_simps freerange_def page_ok_def kmem_inv_def)
qed

theorem kinit_frees_all_witness:
  "\<exists>t ps. kinit (kmem_example\<lparr>freelist := 0, kend := PHYSTOP - PGSIZE\<rparr>) = Ret () t \<and>
     kmem_inv t ps \<and> PHYSTOP - PGSIZE \<in> set ps"
proof -
  let ?s = "kmem_example\<lparr>freelist := 0, kend := PHYSTOP - PGSIZE\<rparr>"
  obtain t ps where "kinit ?s = Ret () t" "kmem_inv t ps"
      "set ps = {p. page_aligned p \<and> kend ?s \<le> p \<and> p < PHYSTOP}"
    using kinit_frees_all [of ?s] by (auto simp: PHYSTOP_def KERNBASE_def)
  moreover have "page_aligned (PHYSTOP - PGSIZE)" "PHYSTOP - PGSIZE < PHYSTOP"
    by (simp_all add: page_aligned_def PHYSTOP_def KERNBASE_def)
  ultimately show ?thesis by auto
qed

end
