(* ===== verification/Vm.thy ===== *)
theory Vm
  imports Kalloc
begin

text \<open>
  \<open>kernel/vm.c\<close>: Sv39 page tables in physical memory. A page table is the address of a page
  of 512 eight-byte entries in the byte memory; \<open>walk\<close> follows and allocates them exactly as
  the C code does, a null \<open>pte_t *\<close> is the address 0. Kernel objects that are copied to or from
  user memory (\<open>copyout\<close>, \<open>copyin\<close>, \<open>copyinstr\<close>) are byte lists: the source of \<open>copyout\<close> is
  a list whose length is \<open>len\<close>, and the bytes that \<open>copyin\<close> and \<open>copyinstr\<close> store at \<open>dst\<close> are
  returned next to the C result, also when the call fails half-way.
\<close>

section \<open>Page-table entries (kernel/riscv.h)\<close>

definition PTE_V :: u64 where "PTE_V = 1"
definition PTE_R :: u64 where "PTE_R = 2"
definition PTE_W :: u64 where "PTE_W = 4"
definition PTE_X :: u64 where "PTE_X = 8"
definition PTE_U :: u64 where "PTE_U = 16"

definition PA2PTE :: "u64 \<Rightarrow> u64" where
  "PA2PTE pa = push_bit 10 (drop_bit 12 pa)"

definition PTE2PA :: "u64 \<Rightarrow> u64" where
  "PTE2PA pte = push_bit 12 (drop_bit 10 pte)"

definition PTE_FLAGS :: "u64 \<Rightarrow> u64" where
  "PTE_FLAGS pte = pte AND 0x3FF"

definition PX :: "nat \<Rightarrow> u64 \<Rightarrow> u64" where
  "PX level va = drop_bit (12 + 9 * level) va AND 0x1FF"

definition MAXVA :: u64 where
  "MAXVA = push_bit 38 1"

definition TRAMPOLINE :: u64 where
  "TRAMPOLINE = MAXVA - PGSIZE"

definition TRAPFRAME :: u64 where
  "TRAPFRAME = TRAMPOLINE - PGSIZE"

definition KSTACK :: "nat \<Rightarrow> u64" where
  "KSTACK p = TRAMPOLINE - (of_nat p + 1) * 2 * PGSIZE"

section \<open>Walking a page table\<close>

definition fill_page :: "u64 \<Rightarrow> u32 \<Rightarrow> ('z kmem_state_scheme, unit) prog" where
  "fill_page pa c = modify (\<lambda>s. s\<lparr>mem := memset (mem s) pa c 4096\<rparr>)"

definition load_pte :: "u64 \<Rightarrow> ('z kmem_state_scheme, u64) prog" where
  "load_pte pte = gets (\<lambda>s. load64 (mem s) pte)"

definition store_pte :: "u64 \<Rightarrow> u64 \<Rightarrow> ('z kmem_state_scheme, unit) prog" where
  "store_pte pte v = modify (\<lambda>s. s\<lparr>mem := store64 (mem s) pte v\<rparr>)"

text \<open>\<open>walk_from level pagetable\<close> is the loop of \<open>walk\<close> with that many levels to descend.\<close>

fun walk_from :: "nat \<Rightarrow> u64 \<Rightarrow> u64 \<Rightarrow> bool \<Rightarrow> ('z kmem_state_scheme, u64) prog" where
  "walk_from 0 pagetable va alloc = ret (pagetable + 8 * PX 0 va)"
| "walk_from (Suc l) pagetable va alloc =
     (let pte = pagetable + 8 * PX (Suc l) va in
      bindp (load_pte pte) (\<lambda>e.
      if e AND PTE_V \<noteq> 0 then walk_from l (PTE2PA e) va alloc
      else if \<not> alloc then ret 0
      else bindp kalloc (\<lambda>p.
        if p = 0 then ret 0 else
        seqp (fill_page p 0) (
        seqp (store_pte pte (PA2PTE p OR PTE_V)) (
        walk_from l p va alloc)))))"

definition walk :: "u64 \<Rightarrow> u64 \<Rightarrow> bool \<Rightarrow> ('z kmem_state_scheme, u64) prog" where
  "walk pagetable va alloc = (if va \<ge> MAXVA then panic ''walk'' else walk_from 2 pagetable va alloc)"

definition walkaddr :: "u64 \<Rightarrow> u64 \<Rightarrow> ('z kmem_state_scheme, u64) prog" where
  "walkaddr pagetable va =
     (if va \<ge> MAXVA then ret 0 else
      bindp (walk pagetable va False) (\<lambda>pte.
      if pte = 0 then ret 0 else
      bindp (load_pte pte) (\<lambda>e.
      if e AND PTE_V = 0 then ret 0
      else if e AND PTE_U = 0 then ret 0
      else ret (PTE2PA e))))"

lemma walk_Ret_lt: "walk pagetable va alloc s = Ret x t \<Longrightarrow> va < MAXVA"
  by (auto simp: walk_def not_le split: if_splits)

lemma unat_MAXVA: "unat MAXVA = 274877906944"
  by (simp add: MAXVA_def)

lemma walk_next_lt:
  assumes "walk pagetable va alloc s = Ret x t"
  shows "2 ^ 64 - unat (va + PGSIZE) < 2 ^ 64 - unat va"
proof -
  have "unat va < 274877906944"
    using walk_Ret_lt [OF assms] by (simp add: word_less_nat_alt unat_MAXVA)
  moreover from this have "unat (va + PGSIZE) = unat va + 4096" by (simp add: unat_plus_64)
  ultimately show ?thesis by simp
qed

section \<open>Mapping and unmapping\<close>

text \<open>
  The loops over page addresses end because \<open>walk\<close> panics on an address past \<open>MAXVA\<close>. They
  return 0 or -1 as the C functions do.
\<close>

function (sequential) mappages_loop ::
    "u64 \<Rightarrow> u64 \<Rightarrow> u64 \<Rightarrow> u64 \<Rightarrow> u64 \<Rightarrow> ('z kmem_state_scheme, int) prog" where
  "mappages_loop pagetable a lastva pa perm s =
     (case walk pagetable a True s of
        Ret pte t \<Rightarrow>
          if pte = 0 then Ret (- 1) t
          else if load64 (mem t) pte AND PTE_V \<noteq> 0 then Panic ''mappages: remap''
          else let u = t\<lparr>mem := store64 (mem t) pte (PA2PTE pa OR perm OR PTE_V)\<rparr> in
               if a = lastva then Ret 0 u
               else mappages_loop pagetable (a + PGSIZE) lastva (pa + PGSIZE) perm u
      | Panic msg \<Rightarrow> Panic msg | Switch t \<Rightarrow> Switch t | Diverge \<Rightarrow> Diverge)"
  by pat_completeness auto
termination
  by (relation "measure (\<lambda>(pagetable, a, lastva, pa, perm, s). 2 ^ 64 - unat a)")
    (auto dest: walk_next_lt)

declare mappages_loop.simps [simp del]

definition mappages ::
    "u64 \<Rightarrow> u64 \<Rightarrow> u64 \<Rightarrow> u64 \<Rightarrow> u64 \<Rightarrow> ('z kmem_state_scheme, int) prog" where
  "mappages pagetable va sz pa perm =
     (if sz = 0 then panic ''mappages: size'' else
      mappages_loop pagetable (PGROUNDDOWN va) (PGROUNDDOWN (va + sz - 1)) pa perm)"

definition kvmmap :: "u64 \<Rightarrow> u64 \<Rightarrow> u64 \<Rightarrow> u64 \<Rightarrow> u64 \<Rightarrow> ('z kmem_state_scheme, unit) prog" where
  "kvmmap kpgtbl va pa sz perm =
     bindp (mappages kpgtbl va sz pa perm) (\<lambda>r. if r \<noteq> 0 then panic ''kvmmap'' else ret ())"

text \<open>The body of the loop of \<open>uvmunmap\<close> for one page address.\<close>

definition unmap_page :: "u64 \<Rightarrow> u64 \<Rightarrow> bool \<Rightarrow> ('z kmem_state_scheme, unit) prog" where
  "unmap_page pagetable a do_free =
     bindp (walk pagetable a False) (\<lambda>pte.
     if pte = 0 then panic ''uvmunmap: walk'' else
     bindp (load_pte pte) (\<lambda>e.
     if e AND PTE_V = 0 then panic ''uvmunmap: not mapped''
     else if PTE_FLAGS e = PTE_V then panic ''uvmunmap: not a leaf''
     else seqp (whenp do_free (kfree (PTE2PA e))) (store_pte pte 0)))"

lemma unmap_page_Ret_walk:
  "unmap_page pagetable a do_free s = Ret x t \<Longrightarrow> \<exists>pte u. walk pagetable a False s = Ret pte u"
  by (auto simp: unmap_page_def bindp_eq_Ret)

function (sequential) uvmunmap_loop ::
    "u64 \<Rightarrow> u64 \<Rightarrow> u64 \<Rightarrow> bool \<Rightarrow> ('z kmem_state_scheme, unit) prog" where
  "uvmunmap_loop pagetable a stop do_free s =
     (if a < stop
      then (case unmap_page pagetable a do_free s of
              Ret _ t \<Rightarrow> uvmunmap_loop pagetable (a + PGSIZE) stop do_free t
            | Panic msg \<Rightarrow> Panic msg | Switch t \<Rightarrow> Switch t | Diverge \<Rightarrow> Diverge)
      else Ret () s)"
  by pat_completeness auto
termination
  by (relation "measure (\<lambda>(pagetable, a, stop, do_free, s). 2 ^ 64 - unat a)")
    (auto dest!: unmap_page_Ret_walk walk_next_lt)

declare uvmunmap_loop.simps [simp del]

definition uvmunmap :: "u64 \<Rightarrow> u64 \<Rightarrow> u64 \<Rightarrow> bool \<Rightarrow> ('z kmem_state_scheme, unit) prog" where
  "uvmunmap pagetable va npages do_free =
     (if va mod PGSIZE \<noteq> 0 then panic ''uvmunmap: not aligned''
      else uvmunmap_loop pagetable va (va + npages * PGSIZE) do_free)"

definition uvmcreate :: "('z kmem_state_scheme, u64) prog" where
  "uvmcreate = bindp kalloc (\<lambda>p. if p = 0 then ret 0 else seqp (fill_page p 0) (ret p))"

definition uvmfirst :: "u64 \<Rightarrow> u64 \<Rightarrow> u32 \<Rightarrow> ('z kmem_state_scheme, unit) prog" where
  "uvmfirst pagetable src sz =
     (if ucast sz \<ge> PGSIZE then panic ''uvmfirst: more than a page'' else
      bindp kalloc (\<lambda>p.
      seqp (fill_page p 0) (
      bindp (mappages pagetable 0 PGSIZE p (PTE_W OR PTE_R OR PTE_X OR PTE_U)) (\<lambda>_.
      modify (\<lambda>s. s\<lparr>mem := memmove (mem s) p src sz\<rparr>)))))"

definition uvmdealloc :: "u64 \<Rightarrow> u64 \<Rightarrow> u64 \<Rightarrow> ('z kmem_state_scheme, u64) prog" where
  "uvmdealloc pagetable oldsz newsz =
     (if newsz \<ge> oldsz then ret oldsz else
      seqp (whenp (PGROUNDUP newsz < PGROUNDUP oldsz)
             (let npages = ucast ((PGROUNDUP oldsz - PGROUNDUP newsz) div PGSIZE) :: u32
              in uvmunmap pagetable (PGROUNDUP newsz) (scast npages) True)) (
      ret newsz))"

lemma mappages_page_walk:
  "mappages pagetable a PGSIZE pa perm s = Ret r t \<Longrightarrow>
     \<exists>pte u. walk pagetable (PGROUNDDOWN a) True s = Ret pte u"
  by (subst (asm) mappages_def) (auto simp: mappages_loop.simps [of _ "PGROUNDDOWN a"]
      split: outcome.splits)

lemma page_step_lt:
  assumes "PGROUNDDOWN a < MAXVA"
  shows "2 ^ 64 - unat (a + PGSIZE) < 2 ^ 64 - unat a"
proof -
  have "unat a div 4096 * 4096 < 274877906944"
    using assms by (simp add: word_less_nat_alt unat_PGROUNDDOWN unat_MAXVA)
  then have "unat a < 274877906944" by simp
  moreover from this have "unat (a + PGSIZE) = unat a + 4096" by (simp add: unat_plus_64)
  ultimately show ?thesis by simp
qed

text \<open>One iteration of the loop of \<open>uvmalloc\<close>: \<open>True\<close> to go on, \<open>False\<close> to give up.\<close>

definition uvmalloc_page ::
    "u64 \<Rightarrow> u64 \<Rightarrow> u64 \<Rightarrow> u64 \<Rightarrow> ('z kmem_state_scheme, bool) prog" where
  "uvmalloc_page pagetable a oldsz xperm =
     bindp kalloc (\<lambda>p.
     if p = 0 then bindp (uvmdealloc pagetable a oldsz) (\<lambda>_. ret False) else
     seqp (fill_page p 0) (
     bindp (mappages pagetable a PGSIZE p (PTE_R OR PTE_U OR xperm)) (\<lambda>r.
     if r \<noteq> 0
     then seqp (kfree p) (bindp (uvmdealloc pagetable a oldsz) (\<lambda>_. ret False))
     else ret True)))"

lemma uvmalloc_page_step:
  fixes s t :: "'z kmem_state_scheme"
  assumes "uvmalloc_page pagetable a oldsz xperm s = Ret True t"
  shows "2 ^ 64 - unat (a + PGSIZE) < 2 ^ 64 - unat a"
proof -
  obtain p r and u v :: "'z kmem_state_scheme"
    where "mappages pagetable a PGSIZE p (PTE_R OR PTE_U OR xperm) u = Ret r v"
    using assms by (auto simp: uvmalloc_page_def run_eq_Ret split: if_splits)
  then show ?thesis
    using mappages_page_walk walk_Ret_lt page_step_lt by blast
qed

function (sequential) uvmalloc_loop ::
    "u64 \<Rightarrow> u64 \<Rightarrow> u64 \<Rightarrow> u64 \<Rightarrow> u64 \<Rightarrow> ('z kmem_state_scheme, u64) prog" where
  "uvmalloc_loop pagetable a oldsz newsz xperm s =
     (if a < newsz
      then (case uvmalloc_page pagetable a oldsz xperm s of
              Ret go t \<Rightarrow> if go then uvmalloc_loop pagetable (a + PGSIZE) oldsz newsz xperm t
                         else Ret 0 t
            | Panic msg \<Rightarrow> Panic msg | Switch t \<Rightarrow> Switch t | Diverge \<Rightarrow> Diverge)
      else Ret newsz s)"
  by pat_completeness auto
termination
  by (relation "measure (\<lambda>(pagetable, a, oldsz, newsz, xperm, s). 2 ^ 64 - unat a)")
    (auto dest: uvmalloc_page_step)

declare uvmalloc_loop.simps [simp del]

definition uvmalloc :: "u64 \<Rightarrow> u64 \<Rightarrow> u64 \<Rightarrow> u64 \<Rightarrow> ('z kmem_state_scheme, u64) prog" where
  "uvmalloc pagetable oldsz newsz xperm =
     (if newsz < oldsz then ret oldsz
      else uvmalloc_loop pagetable (PGROUNDUP oldsz) (PGROUNDUP oldsz) newsz xperm)"

section \<open>Freeing and copying an address space\<close>

text \<open>
  \<open>freewalk\<close> recurses into every entry that points to a lower-level table. The recursion is
  bounded by the argument \<open>d\<close>: a page table of a machine with three levels needs \<open>d = 3\<close>, and
  only a table whose entries point back up would need more, where the C code would not return.
\<close>

fun freewalk :: "nat \<Rightarrow> u64 \<Rightarrow> ('z kmem_state_scheme, unit) prog" where
  "freewalk 0 pagetable = (\<lambda>s. Diverge)"
| "freewalk (Suc d) pagetable =
     seqp (block (map (\<lambda>i.
       bindp (load_pte (pagetable + 8 * of_nat i)) (\<lambda>pte.
       if pte AND PTE_V \<noteq> 0 \<and> pte AND (PTE_R OR PTE_W OR PTE_X) = 0
       then seqp (freewalk d (PTE2PA pte)) (store_pte (pagetable + 8 * of_nat i) 0)
       else if pte AND PTE_V \<noteq> 0 then panic ''freewalk: leaf''
       else ret ())) [0..<512])) (
     kfree pagetable)"

definition uvmfree :: "u64 \<Rightarrow> u64 \<Rightarrow> ('z kmem_state_scheme, unit) prog" where
  "uvmfree pagetable sz =
     seqp (whenp (sz > 0) (uvmunmap pagetable 0 (PGROUNDUP sz div PGSIZE) True))
          (freewalk 3 pagetable)"

text \<open>One iteration of the loop of \<open>uvmcopy\<close>: \<open>False\<close> jumps to \<open>err\<close>.\<close>

definition uvmcopy_page :: "u64 \<Rightarrow> u64 \<Rightarrow> u64 \<Rightarrow> ('z kmem_state_scheme, bool) prog" where
  "uvmcopy_page old new i =
     bindp (walk old i False) (\<lambda>pte.
     if pte = 0 then panic ''uvmcopy: pte should exist'' else
     bindp (load_pte pte) (\<lambda>e.
     if e AND PTE_V = 0 then panic ''uvmcopy: page not present'' else
     (let pa = PTE2PA e; flags = PTE_FLAGS e in
      bindp kalloc (\<lambda>p.
      if p = 0 then ret False else
      seqp (modify (\<lambda>s. s\<lparr>mem := memmove (mem s) p pa 4096\<rparr>)) (
      bindp (mappages new i PGSIZE p flags) (\<lambda>r.
      if r \<noteq> 0 then seqp (kfree p) (ret False) else ret True))))))"

lemma uvmcopy_page_walk:
  "uvmcopy_page old new i s = Ret go t \<Longrightarrow> \<exists>pte u. walk old i False s = Ret pte u"
  by (auto simp: uvmcopy_page_def bindp_eq_Ret)

function (sequential) uvmcopy_loop ::
    "u64 \<Rightarrow> u64 \<Rightarrow> u64 \<Rightarrow> u64 \<Rightarrow> ('z kmem_state_scheme, int) prog" where
  "uvmcopy_loop old new i sz s =
     (if i < sz
      then (case uvmcopy_page old new i s of
              Ret go t \<Rightarrow>
                if go then uvmcopy_loop old new (i + PGSIZE) sz t
                else seqp (uvmunmap new 0 (i div PGSIZE) True) (ret (- 1)) t
            | Panic msg \<Rightarrow> Panic msg | Switch t \<Rightarrow> Switch t | Diverge \<Rightarrow> Diverge)
      else Ret 0 s)"
  by pat_completeness auto
termination
  by (relation "measure (\<lambda>(old, new, i, sz, s). 2 ^ 64 - unat i)")
    (auto dest!: uvmcopy_page_walk walk_next_lt)

declare uvmcopy_loop.simps [simp del]

definition uvmcopy :: "u64 \<Rightarrow> u64 \<Rightarrow> u64 \<Rightarrow> ('z kmem_state_scheme, int) prog" where
  "uvmcopy old new sz = uvmcopy_loop old new 0 sz"

definition uvmclear :: "u64 \<Rightarrow> u64 \<Rightarrow> ('z kmem_state_scheme, unit) prog" where
  "uvmclear pagetable va =
     bindp (walk pagetable va False) (\<lambda>pte.
     if pte = 0 then panic ''uvmclear'' else
     bindp (load_pte pte) (\<lambda>e. store_pte pte (e AND NOT PTE_U)))"

section \<open>Copying between kernel and user memory\<close>

text \<open>Bytes from \<open>va\<close> to the end of its page, at most \<open>len\<close>.\<close>

definition chunk :: "u64 \<Rightarrow> nat \<Rightarrow> nat" where
  "chunk va len = min (unat (PGSIZE - (va - PGROUNDDOWN va))) len"

lemma page_off_lt: "unat (va - PGROUNDDOWN va) < 4096"
  by (simp add: in_page_iff)

lemma unat_page_rest: "unat (PGSIZE - (va - PGROUNDDOWN va)) = 4096 - unat (va - PGROUNDDOWN va)"
proof -
  have "va - PGROUNDDOWN va \<le> PGSIZE"
    using page_off_lt [of va] by (simp add: word_le_nat_alt)
  then show ?thesis by (simp add: unat_sub)
qed

lemma chunk_pos: "0 < len \<Longrightarrow> 0 < chunk va len"
  using page_off_lt [of va] by (simp add: chunk_def unat_page_rest)

lemma chunk_le: "chunk va len \<le> len"
  by (simp add: chunk_def)

function (sequential) copyout :: "u64 \<Rightarrow> u64 \<Rightarrow> u8 list \<Rightarrow> ('z kmem_state_scheme, int) prog" where
  "copyout pagetable dstva src s =
     (if src = [] then Ret 0 s else
      let va0 = PGROUNDDOWN dstva; n = chunk dstva (length src) in
      (case walkaddr pagetable va0 s of
         Ret pa0 t \<Rightarrow>
           if pa0 = 0 then Ret (- 1) t
           else copyout pagetable (va0 + PGSIZE) (drop n src)
                  (t\<lparr>mem := write_bytes (mem t) (pa0 + (dstva - va0)) (take n src)\<rparr>)
       | Panic msg \<Rightarrow> Panic msg | Switch t \<Rightarrow> Switch t | Diverge \<Rightarrow> Diverge))"
  by pat_completeness auto
termination
  by (relation "measure (\<lambda>(pagetable, dstva, src, s). length src)")
    (auto simp: chunk_pos)

declare copyout.simps [simp del]

function (sequential) copyin_loop ::
    "u64 \<Rightarrow> u64 \<Rightarrow> nat \<Rightarrow> u8 list \<Rightarrow> ('z kmem_state_scheme, int \<times> u8 list) prog" where
  "copyin_loop pagetable srcva len dst s =
     (if len = 0 then Ret (0, dst) s else
      let va0 = PGROUNDDOWN srcva; n = chunk srcva len in
      (case walkaddr pagetable va0 s of
         Ret pa0 t \<Rightarrow>
           if pa0 = 0 then Ret (- 1, dst) t
           else copyin_loop pagetable (va0 + PGSIZE) (len - n)
                  (dst @ read_bytes (mem t) (pa0 + (srcva - va0)) n) t
       | Panic msg \<Rightarrow> Panic msg | Switch t \<Rightarrow> Switch t | Diverge \<Rightarrow> Diverge))"
  by pat_completeness auto
termination
  by (relation "measure (\<lambda>(pagetable, srcva, len, dst, s). len)")
    (auto simp: chunk_pos)

declare copyin_loop.simps [simp del]

definition copyin :: "u64 \<Rightarrow> u64 \<Rightarrow> nat \<Rightarrow> ('z kmem_state_scheme, int \<times> u8 list) prog" where
  "copyin pagetable srcva len = copyin_loop pagetable srcva len []"

text \<open>The inner loop of \<open>copyinstr\<close>: \<open>n\<close> bytes at \<open>p\<close>, until a NUL, which is copied too.\<close>

fun scan_nul :: "memory \<Rightarrow> u64 \<Rightarrow> nat \<Rightarrow> u8 list \<Rightarrow> bool \<times> u8 list" where
  "scan_nul m p 0 dst = (False, dst)"
| "scan_nul m p (Suc n) dst =
     (if m p = 0 then (True, dst @ [0]) else scan_nul m (p + 1) n (dst @ [m p]))"

function (sequential) copyinstr_loop ::
    "u64 \<Rightarrow> u64 \<Rightarrow> nat \<Rightarrow> u8 list \<Rightarrow> ('z kmem_state_scheme, int \<times> u8 list) prog" where
  "copyinstr_loop pagetable srcva maxlen dst s =
     (if maxlen = 0 then Ret (- 1, dst) s else
      let va0 = PGROUNDDOWN srcva; n = chunk srcva maxlen in
      (case walkaddr pagetable va0 s of
         Ret pa0 t \<Rightarrow>
           if pa0 = 0 then Ret (- 1, dst) t
           else (case scan_nul (mem t) (pa0 + (srcva - va0)) n dst of
                   (True, dst') \<Rightarrow> Ret (0, dst') t
                 | (False, dst') \<Rightarrow>
                     copyinstr_loop pagetable (va0 + PGSIZE) (maxlen - n) dst' t)
       | Panic msg \<Rightarrow> Panic msg | Switch t \<Rightarrow> Switch t | Diverge \<Rightarrow> Diverge))"
  by pat_completeness auto
termination
  by (relation "measure (\<lambda>(pagetable, srcva, maxlen, dst, s). maxlen)")
    (auto simp: chunk_pos)

declare copyinstr_loop.simps [simp del]

definition copyinstr :: "u64 \<Rightarrow> u64 \<Rightarrow> nat \<Rightarrow> ('z kmem_state_scheme, int \<times> u8 list) prog" where
  "copyinstr pagetable srcva maxlen = copyinstr_loop pagetable srcva maxlen []"

section \<open>The kernel page table\<close>

text \<open>\<open>etext\<close> and \<open>trampoline\<close> are linker symbols.\<close>

record vm_state = kmem_state +
  etext :: u64
  trampoline :: u64
  kernel_pagetable :: u64

definition NPROC :: nat where "NPROC = 64"

definition proc_mapstacks :: "u64 \<Rightarrow> ('z kmem_state_scheme, unit) prog" where
  "proc_mapstacks kpgtbl =
     block (map (\<lambda>i.
       bindp kalloc (\<lambda>pa.
       if pa = 0 then panic ''kalloc'' else
       kvmmap kpgtbl (KSTACK i) pa PGSIZE (PTE_R OR PTE_W))) [0..<NPROC])"

definition kvmmake :: "('z vm_state_scheme, u64) prog" where
  "kvmmake =
     bindp kalloc (\<lambda>kpgtbl.
     bindp (gets etext) (\<lambda>etext.
     bindp (gets trampoline) (\<lambda>tramp.
     seqp (block
      [fill_page kpgtbl 0,
       kvmmap kpgtbl 0x10000000 0x10000000 PGSIZE (PTE_R OR PTE_W),
       kvmmap kpgtbl 0x10001000 0x10001000 PGSIZE (PTE_R OR PTE_W),
       kvmmap kpgtbl 0x0c000000 0x0c000000 0x400000 (PTE_R OR PTE_W),
       kvmmap kpgtbl KERNBASE KERNBASE (etext - KERNBASE) (PTE_R OR PTE_X),
       kvmmap kpgtbl etext etext (PHYSTOP - etext) (PTE_R OR PTE_W),
       kvmmap kpgtbl TRAMPOLINE tramp PGSIZE (PTE_R OR PTE_X),
       proc_mapstacks kpgtbl]) (
     ret kpgtbl))))"

definition kvminit :: "('z vm_state_scheme, unit) prog" where
  "kvminit = bindp kvmmake (\<lambda>p. modify (\<lambda>s. s\<lparr>kernel_pagetable := p\<rparr>))"

end
