(* ===== verification/Pagetable.thy ===== *)
theory Pagetable
  imports Vm
begin

text \<open>
  What the page-table code of \<open>vm.c\<close> keeps and computes. A page table is abstracted to the
  function \<open>leaf\<close> from virtual addresses to level-0 entries (0 where an intermediate table is
  missing). \<open>pt_wf\<close> says that the tables form a tree: every table page is reached along
  exactly one path of indices. Under it, storing one entry changes \<open>leaf\<close> at exactly one page,
  and linking a fresh zeroed table changes it nowhere.
\<close>

section \<open>Words of the Sv39 format\<close>

abbreviation valid :: "u64 \<Rightarrow> bool" where
  "valid e \<equiv> e AND PTE_V \<noteq> 0"

lemma valid_iff: "valid e \<longleftrightarrow> bit e 0"
  by (simp add: PTE_V_def and_one_eq odd_iff_mod_2_eq_one bit_0)

lemma small_no_bit:
  assumes "f < 1024" and "10 \<le> n"
  shows "\<not> bit (f :: u64) n"
proof -
  have "unat f < 2 ^ 10" using assms(1) by (simp add: word_less_nat_alt)
  then have "take_bit 10 (unat f) = unat f" by (rule take_bit_nat_eq_self)
  then have "\<not> bit (unat f) n"
    using assms(2) by (metis bit_take_bit_iff not_less)
  then show ?thesis by (simp add: bit_unsigned_iff)
qed

lemma PTE2PA_PA2PTE:
  assumes "f < 1024"
  shows "PTE2PA (PA2PTE p OR f) = PGROUNDDOWN p"
  by (rule bit_word_eqI)
    (auto simp: PTE2PA_def PA2PTE_def PGROUNDDOWN_eq bit_simps small_no_bit [OF assms])

lemma PTE_FLAGS_PA2PTE:
  assumes "f < 1024"
  shows "PTE_FLAGS (PA2PTE p OR f) = f"
proof -
  have "(0x3FF :: u64) = mask 10" by (simp add: mask_eq_exp_minus_1)
  then have F: "PTE_FLAGS e = take_bit 10 e" for e
    by (simp only: PTE_FLAGS_def take_bit_eq_mask)
  have "bit f n \<Longrightarrow> n < 10" for n
    using small_no_bit [OF assms, of n] by (cases "n < 10") auto
  then show ?thesis
    unfolding F by (intro bit_word_eqI) (auto simp: PA2PTE_def bit_simps)
qed

definition px :: "nat \<Rightarrow> u64 \<Rightarrow> nat" where
  "px l va = unat (PX l va)"

lemma px_eq: "px l va = unat va div 2 ^ (12 + 9 * l) mod 512"
proof -
  have m: "(0x1FF :: u64) = mask 9" by (simp add: mask_eq_exp_minus_1)
  have "PX l va = take_bit 9 (drop_bit (12 + 9 * l) va)"
    by (simp only: PX_def m take_bit_eq_mask)
  then have "px l va = take_bit 9 (drop_bit (12 + 9 * l) (unat va))"
    using unat_lt_64 [of va]
    by (simp add: px_def unsigned_take_bit_eq unsigned_drop_bit_eq take_bit_nat_eq_self)
  then show ?thesis by (simp add: take_bit_eq_mod drop_bit_eq_div)
qed

lemma px_lt: "px l va < 512"
  by (simp add: px_eq)

lemma PX_offset: "pt + 8 * PX l va = pt + of_nat (8 * px l va)"
  by (simp add: px_def)

text \<open>Below \<open>MAXVA\<close> the three indices determine the page.\<close>

lemma px_inj:
  assumes "va < MAXVA" and "vb < MAXVA"
    and "px 2 va = px 2 vb" and "px 1 va = px 1 vb" and "px 0 va = px 0 vb"
  shows "PGROUNDDOWN va = PGROUNDDOWN vb"
proof -
  define a b where "a = unat va div 4096" and "b = unat vb div 4096"
  have lt: "a < 2 ^ 26" "b < 2 ^ 26"
    using assms(1,2) by (simp_all add: a_def b_def word_less_nat_alt unat_MAXVA)
  have "a div 262144 mod 512 = b div 262144 mod 512" "a div 512 mod 512 = b div 512 mod 512"
      "a mod 512 = b mod 512"
    using assms(3-5) by (simp_all add: px_eq a_def b_def div_mult2_eq [symmetric])
  moreover have "x = x div 262144 mod 512 * 262144 + x div 512 mod 512 * 512 + x mod 512"
    if "x < 2 ^ 26" for x :: nat
  proof -
    have "x div 262144 mod 512 = x div 512 div 512"
      using that by (simp add: div_mult2_eq [symmetric])
    moreover have "X = Z * 262144 + Q * 512 + R" if "X = Y * 512 + R" "Y = Z * 512 + Q"
      for X Y Z Q R :: nat using that by simp
    ultimately show ?thesis
      using div_mult_mod_eq [of x 512] div_mult_mod_eq [of "x div 512" 512] by metis
  qed
  ultimately have "a = b" using lt by metis
  then show ?thesis by (simp add: word_unat_eq_iff unat_PGROUNDDOWN a_def b_def)
qed

lemma px_page: "px l (PGROUNDDOWN va) = px l va"
proof -
  have "x div 4096 * 4096 div (4096 * 2 ^ (9 * l)) = x div (4096 * 2 ^ (9 * l))" for x :: nat
    by (simp add: div_mult2_eq)
  then show ?thesis by (simp add: px_eq unat_PGROUNDDOWN power_add)
qed

section \<open>The tree of tables\<close>

definition ent :: "memory \<Rightarrow> u64 \<Rightarrow> nat \<Rightarrow> u64" where
  "ent m t i = load64 m (t + of_nat (8 * i))"

text \<open>The table reached from \<open>pt\<close> along a path of indices.\<close>

fun tabp :: "memory \<Rightarrow> u64 \<Rightarrow> nat list \<Rightarrow> u64 option" where
  "tabp m pt [] = Some pt"
| "tabp m pt (i # p) = (if valid (ent m pt i) then tabp m (PTE2PA (ent m pt i)) p else None)"

definition path_ok :: "nat list \<Rightarrow> bool" where
  "path_ok p \<longleftrightarrow> length p \<le> 2 \<and> (\<forall>i \<in> set p. i < 512)"

definition pt_wf :: "u64 \<Rightarrow> memory \<Rightarrow> u64 \<Rightarrow> bool" where
  "pt_wf e m pt \<longleftrightarrow>
     (\<forall>p a. path_ok p \<longrightarrow> tabp m pt p = Some a \<longrightarrow> page_ok e a) \<and>
     (\<forall>p q a. path_ok p \<longrightarrow> path_ok q \<longrightarrow> tabp m pt p = Some a \<longrightarrow> tabp m pt q = Some a \<longrightarrow> p = q)"

definition tables :: "memory \<Rightarrow> u64 \<Rightarrow> u64 set" where
  "tables m pt = {a. \<exists>p. path_ok p \<and> tabp m pt p = Some a}"

definition slot :: "memory \<Rightarrow> u64 \<Rightarrow> u64 \<Rightarrow> u64 option" where
  "slot m pt va = map_option (\<lambda>t. t + of_nat (8 * px 0 va)) (tabp m pt [px 2 va, px 1 va])"

definition leaf :: "memory \<Rightarrow> u64 \<Rightarrow> u64 \<Rightarrow> u64" where
  "leaf m pt va = (case slot m pt va of None \<Rightarrow> 0 | Some a \<Rightarrow> load64 m a)"

lemma pt_wfD:
  assumes "pt_wf e m pt"
  shows "path_ok p \<Longrightarrow> tabp m pt p = Some a \<Longrightarrow> page_ok e a"
    and "path_ok p \<Longrightarrow> path_ok q \<Longrightarrow> tabp m pt p = Some a \<Longrightarrow> tabp m pt q = Some a \<Longrightarrow> p = q"
  using assms unfolding pt_wf_def by blast+

lemma path_ok_px [simp]: "path_ok [px l va, px k va]" "path_ok [px l va]" "path_ok []"
  by (simp_all add: path_ok_def px_lt)

lemma tabp_append:
  "tabp m pt (p @ q) = (case tabp m pt p of None \<Rightarrow> None | Some t \<Rightarrow> tabp m t q)"
  by (induction p arbitrary: pt) auto

lemma tabp_snoc:
  "tabp m pt (p @ [i]) =
     (case tabp m pt p of None \<Rightarrow> None
      | Some t \<Rightarrow> if valid (ent m t i) then Some (PTE2PA (ent m t i)) else None)"
  by (simp add: tabp_append split: option.splits)

lemma ent_same_outside:
  "page_aligned t \<Longrightarrow> t \<noteq> q \<Longrightarrow> i < 512 \<Longrightarrow> same_outside q m m' \<Longrightarrow> ent m' t i = ent m t i"
  by (simp add: ent_def load64_same_outside del: of_nat_mult)

text \<open>
  Writing to a page that no path of length at most \<open>n\<close> reaches leaves the tables that paths of
  length at most \<open>n + 1\<close> reach.
\<close>

lemma tabp_same_outside:
  assumes "same_outside q m m'"
    and "\<And>r t. length r < length p \<Longrightarrow> \<forall>i \<in> set r. i < 512 \<Longrightarrow> tabp m pt r = Some t \<Longrightarrow>
           page_aligned t \<and> t \<noteq> q"
    and "\<forall>i \<in> set p. i < 512"
  shows "tabp m' pt p = tabp m pt p"
  using assms(2,3)
proof (induction p rule: rev_induct)
  case Nil
  then show ?case by simp
next
  case (snoc i p)
  have IH: "tabp m' pt p = tabp m pt p"
    using snoc.prems by (intro snoc.IH) (auto simp: less_Suc_eq)
  have "ent m' t i = ent m t i" if "tabp m pt p = Some t" for t
    using snoc.prems(1) [of p t] snoc.prems(2) that assms(1) by (auto intro: ent_same_outside)
  with IH show ?case by (auto simp: tabp_snoc split: option.splits)
qed

lemma wf_tabp_same_outside:
  assumes "pt_wf e m pt" and "same_outside q m m'" and "path_ok p"
    and "\<And>r. path_ok r \<Longrightarrow> length r < 2 \<Longrightarrow> tabp m pt r \<noteq> Some q"
  shows "tabp m' pt p = tabp m pt p"
proof (rule tabp_same_outside [OF assms(2)])
  fix r t assume r: "length r < length p" "\<forall>i \<in> set r. i < 512" "tabp m pt r = Some t"
  then have "path_ok r" "length r < 2" using assms(3) by (auto simp: path_ok_def)
  then show "page_aligned t \<and> t \<noteq> q"
    using pt_wfD(1) [OF assms(1) _ r(3)] r(3) assms(4) page_ok_aligned by blast
qed (use assms(3) in \<open>auto simp: path_ok_def\<close>)

lemma pt_wf_tabp_cong:
  assumes "\<And>p. path_ok p \<Longrightarrow> tabp m' pt p = tabp m pt p"
  shows "pt_wf e m' pt = pt_wf e m pt" and "tables m' pt = tables m pt"
  using assms by (auto simp: pt_wf_def tables_def)

text \<open>A page that is no table at all can be overwritten freely.\<close>

lemma leaf_same_outside:
  assumes "pt_wf e m pt" and "same_outside q m m'" and "q \<notin> tables m pt"
  shows "tabp m' pt p = tabp m pt p \<or> \<not> path_ok p" and "leaf m' pt va = leaf m pt va"
    and "slot m' pt va = slot m pt va"
proof -
  have eq: "tabp m' pt p = tabp m pt p" if "path_ok p" for p
    using assms that by (intro wf_tabp_same_outside) (auto simp: tables_def)
  then show "tabp m' pt p = tabp m pt p \<or> \<not> path_ok p" by blast
  show s: "slot m' pt va = slot m pt va" by (simp add: slot_def eq del: tabp.simps)
  have "load64 m' (t + of_nat (8 * px 0 va)) = load64 m (t + of_nat (8 * px 0 va))"
    if t: "tabp m pt [px 2 va, px 1 va] = Some t" for t
  proof -
    have "page_aligned t" using pt_wfD(1) [OF assms(1) _ t] page_ok_aligned by simp
    moreover have "t \<noteq> q" using assms(3) t path_ok_px(1) by (auto simp: tables_def simp del: tabp.simps)
    moreover have "8 * px 0 va + 8 \<le> 4096" using px_lt [of 0 va] by simp
    ultimately show ?thesis using assms(2) by (intro load64_same_outside)
  qed
  then show "leaf m' pt va = leaf m pt va"
    unfolding leaf_def s by (auto simp: slot_def simp del: tabp.simps split: option.splits)
qed

section \<open>Storing one leaf entry\<close>

lemma tabp_pair_inj:
  assumes "pt_wf e m pt" and "tabp m pt [i, j] = Some t" and "tabp m pt [i', j'] = Some t"
    and "path_ok [i, j]" and "path_ok [i', j']"
  shows "i = i' \<and> j = j'"
  using pt_wfD(2) [OF assms(1,4,5,2,3)] by simp

lemma store_leaf:
  assumes wf: "pt_wf e m pt" and sl: "slot m pt va = Some a"
    and va: "va < MAXVA" and m': "m' = store64 m a v"
  shows "path_ok p \<Longrightarrow> tabp m' pt p = tabp m pt p"
    and "vb < MAXVA \<Longrightarrow>
           leaf m' pt vb = (if PGROUNDDOWN vb = PGROUNDDOWN va then v else leaf m pt vb)"
proof -
  obtain t where t: "tabp m pt [px 2 va, px 1 va] = Some t" and a: "a = t + of_nat (8 * px 0 va)"
    using sl by (auto simp: slot_def simp del: tabp.simps)
  have al: "page_aligned t" using pt_wfD(1) [OF wf _ t] page_ok_aligned by simp
  have off: "8 * px l vb + 8 \<le> 4096" for l vb using px_lt [of l vb] by simp
  have so: "same_outside t m m'"
    unfolding m' a using al off by (rule store64_same_outside)
  have eq: "tabp m' pt p = tabp m pt p" if "path_ok p" for p
  proof (rule wf_tabp_same_outside [OF wf so that])
    fix r assume "path_ok r" "length r < 2"
    then show "tabp m pt r \<noteq> Some t"
      using pt_wfD(2) [OF wf, of r "[px 2 va, px 1 va]" t] t by auto
  qed
  then show "path_ok p \<Longrightarrow> tabp m' pt p = tabp m pt p" .
  assume vb: "vb < MAXVA"
  have sb: "slot m' pt vb = slot m pt vb" by (simp add: slot_def eq del: tabp.simps)
  show "leaf m' pt vb = (if PGROUNDDOWN vb = PGROUNDDOWN va then v else leaf m pt vb)"
  proof (cases "tabp m pt [px 2 vb, px 1 vb]")
    case None
    then have "slot m pt vb = None" by (simp add: slot_def del: tabp.simps)
    moreover have "PGROUNDDOWN vb \<noteq> PGROUNDDOWN va"
      using None t px_page by (metis option.distinct(1))
    ultimately show ?thesis by (simp add: leaf_def sb)
  next
    case (Some u)
    have ual: "page_aligned u" using pt_wfD(1) [OF wf _ Some] page_ok_aligned by simp
    have lb: "leaf m' pt vb = load64 m' (u + of_nat (8 * px 0 vb))"
        "leaf m pt vb = load64 m (u + of_nat (8 * px 0 vb))"
      unfolding leaf_def sb using Some by (simp_all add: slot_def del: tabp.simps)
    consider "PGROUNDDOWN vb = PGROUNDDOWN va" | "PGROUNDDOWN vb \<noteq> PGROUNDDOWN va" "u \<noteq> t"
      | "PGROUNDDOWN vb \<noteq> PGROUNDDOWN va" "u = t" by blast
    then show ?thesis
    proof cases
      case 1
      then have "px l vb = px l va" for l using px_page by metis
      then have "u = t" "px 0 vb = px 0 va" using t Some by simp_all
      with 1 show ?thesis unfolding lb unfolding m' a by simp
    next
      case 2
      then have "load64 m' (u + of_nat (8 * px 0 vb)) = load64 m (u + of_nat (8 * px 0 vb))"
        using ual off so by (intro load64_same_outside) auto
      with 2 show ?thesis unfolding lb by simp
    next
      case 3
      then have "px 2 vb = px 2 va \<and> px 1 vb = px 1 va"
        using tabp_pair_inj [OF wf Some] t by simp
      then have "px 0 vb \<noteq> px 0 va" using 3(1) px_inj [OF vb va] by auto
      then have "load64 m' (u + of_nat (8 * px 0 vb)) = load64 m (u + of_nat (8 * px 0 vb))"
        unfolding m' a 3(2) using off by (intro load64_store64_offset) auto
      with 3 show ?thesis unfolding lb by simp
    qed
  qed
qed

section \<open>Linking a fresh table\<close>

lemma path_ok_snoc: "path_ok (p @ [i]) \<longleftrightarrow> path_ok p \<and> length p \<le> 1 \<and> i < 512"
  by (auto simp: path_ok_def)

lemma link_table:
  assumes wf: "pt_wf e m pt" and t: "tabp m pt p = Some t" and p: "path_ok (p @ [i])"
    and inv: "\<not> valid (ent m t i)" and q: "q \<notin> tables m pt"
    and new: "valid (ent m' t i)" "PTE2PA (ent m' t i) = q"
    and zero: "\<And>k. k < 512 \<Longrightarrow> ent m' q k = 0"
    and others: "\<And>u k. k < 512 \<Longrightarrow> page_aligned u \<Longrightarrow> u \<noteq> q \<Longrightarrow> u \<noteq> t \<or> k \<noteq> i \<Longrightarrow>
                   ent m' u k = ent m u k"
    and r: "path_ok r"
  shows "tabp m' pt r = (if r = p @ [i] then Some q else tabp m pt r)"
  using r
proof (induction r rule: rev_induct)
  case Nil
  then show ?case by simp
next
  case (snoc k r)
  have r: "path_ok r" "k < 512" "length r \<le> 1" using snoc.prems by (auto simp: path_ok_snoc)
  note IH = snoc.IH [OF r(1)]
  have pi: "tabp m pt (p @ [i]) = None" using t inv by (simp add: tabp_snoc)
  consider "r = p @ [i]" | "r = p" | "r \<noteq> p" "r \<noteq> p @ [i]" by blast
  then show ?case
  proof cases
    case 1
    then have "tabp m' pt r = Some q" "tabp m pt r = None" "r \<noteq> p" using IH pi by simp_all
    then show ?thesis using zero [OF r(2)] by (simp add: tabp_snoc)
  next
    case 2
    have "page_aligned t" using pt_wfD(1) [OF wf _ t] p page_ok_aligned by (auto simp: path_ok_snoc)
    moreover have "t \<noteq> q" using q t p by (auto simp: tables_def path_ok_snoc)
    ultimately have "k \<noteq> i \<Longrightarrow> ent m' t k = ent m t k" using others r(2) by simp
    then show ?thesis using 2 IH t new by (auto simp: tabp_snoc)
  next
    case 3
    have "ent m' u k = ent m u k" if u: "tabp m pt r = Some u" for u
    proof (rule others [OF r(2)])
      show "page_aligned u" using pt_wfD(1) [OF wf r(1) u] page_ok_aligned by blast
      show "u \<noteq> q" using q u r(1) by (auto simp: tables_def)
      show "u \<noteq> t \<or> k \<noteq> i"
        using pt_wfD(2) [OF wf r(1) _ u, of p] t p 3(1) by (auto simp: path_ok_snoc)
    qed
    then show ?thesis using 3 IH by (auto simp: tabp_snoc split: option.splits)
  qed
qed

lemma link_table_wf:
  assumes wf: "pt_wf e m pt" and p: "path_ok (p @ [i])" "tabp m pt (p @ [i]) = None"
    and q: "q \<notin> tables m pt" "page_ok e q"
    and tab: "\<And>r. path_ok r \<Longrightarrow> tabp m' pt r = (if r = p @ [i] then Some q else tabp m pt r)"
  shows "pt_wf e m' pt" and "tables m' pt = insert q (tables m pt)"
proof -
  show "tables m' pt = insert q (tables m pt)"
    using p by (force simp: tables_def tab split: if_splits)
  have "path_ok r \<Longrightarrow> tabp m pt r \<noteq> Some q" for r using q by (auto simp: tables_def)
  then show "pt_wf e m' pt"
    using wf q(2) unfolding pt_wf_def by (simp add: tab split: if_splits) blast
qed

section \<open>A page table beside the free list\<close>

definition vm_inv :: "'z kmem_state_scheme \<Rightarrow> u64 \<Rightarrow> u64 list \<Rightarrow> bool" where
  "vm_inv s pt ps \<longleftrightarrow> kmem_inv s ps \<and> pt_wf (kend s) (mem s) pt \<and> set ps \<inter> tables (mem s) pt = {}"

text \<open>
  \<open>tables_only pt ps s qs u\<close>: from \<open>s\<close> to \<open>u\<close> pages of the free list \<open>ps\<close> became tables, \<open>qs\<close>
  are left, and memory outside the tables is as before. In \<open>grows\<close> no translation changed either.
\<close>

definition tables_only ::
    "u64 \<Rightarrow> u64 list \<Rightarrow> 'z kmem_state_scheme \<Rightarrow> u64 list \<Rightarrow> 'z kmem_state_scheme \<Rightarrow> bool" where
  "tables_only pt ps s qs u \<longleftrightarrow> vm_inv u pt qs \<and>
     (\<exists>new. ps = new @ qs \<and> tables (mem u) pt = tables (mem s) pt \<union> set new) \<and>
     (\<forall>a. PGROUNDDOWN a \<notin> tables (mem u) pt \<longrightarrow> mem u a = mem s a) \<and>
     u = s\<lparr>mem := mem u, freelist := freelist u\<rparr>"

definition grows ::
    "u64 \<Rightarrow> u64 list \<Rightarrow> 'z kmem_state_scheme \<Rightarrow> u64 list \<Rightarrow> 'z kmem_state_scheme \<Rightarrow> bool" where
  "grows pt ps s qs u \<longleftrightarrow> tables_only pt ps s qs u \<and>
     (\<forall>va. leaf (mem u) pt va = leaf (mem s) pt va)"

lemma tables_only_refl: "vm_inv s pt ps \<Longrightarrow> tables_only pt ps s ps s"
  by (simp add: tables_only_def)

lemma tables_only_inv: "tables_only pt ps s qs u \<Longrightarrow> vm_inv u pt qs"
  by (simp add: tables_only_def)

lemma tables_only_trans:
  assumes "tables_only pt ps s qs t" and "tables_only pt qs t rs u"
  shows "tables_only pt ps s rs u"
proof -
  obtain n1 where n1: "ps = n1 @ qs" "tables (mem t) pt = tables (mem s) pt \<union> set n1"
    using assms(1) by (auto simp: tables_only_def)
  obtain n2 where n2: "qs = n2 @ rs" "tables (mem u) pt = tables (mem t) pt \<union> set n2"
    using assms(2) by (auto simp: tables_only_def)
  have "u = s\<lparr>mem := mem u, freelist := freelist u\<rparr>"
  proof -
    have "t = s\<lparr>mem := mem t, freelist := freelist t\<rparr>" "u = t\<lparr>mem := mem u, freelist := freelist u\<rparr>"
      using assms by (auto simp: tables_only_def)
    then have "u = (s\<lparr>mem := mem t, freelist := freelist t\<rparr>)\<lparr>mem := mem u, freelist := freelist u\<rparr>"
      by metis
    then show ?thesis by simp
  qed
  moreover have "\<exists>new. ps = new @ rs \<and> tables (mem u) pt = tables (mem s) pt \<union> set new"
    using n1 n2 by (intro exI [of _ "n1 @ n2"]) auto
  moreover have "\<forall>a. PGROUNDDOWN a \<notin> tables (mem u) pt \<longrightarrow> mem u a = mem s a"
    using assms n2(2) by (auto simp: tables_only_def)
  ultimately show ?thesis using assms by (simp add: tables_only_def)
qed

lemma grows_refl: "vm_inv s pt ps \<Longrightarrow> grows pt ps s ps s"
  by (simp add: grows_def tables_only_refl)

lemma grows_trans: "grows pt ps s qs t \<Longrightarrow> grows pt qs t rs u \<Longrightarrow> grows pt ps s rs u"
  using tables_only_trans by (simp add: grows_def) blast

lemma slot_nonzero:
  assumes "pt_wf e m pt" and "KERNBASE \<le> e" and "slot m pt va = Some a"
  shows "a \<noteq> 0"
proof -
  obtain t where t: "tabp m pt [px 2 va, px 1 va] = Some t" and a: "a = t + of_nat (8 * px 0 va)"
    using assms(3) by (auto simp: slot_def simp del: tabp.simps)
  have "page_ok e t" using pt_wfD(1) [OF assms(1) _ t] by simp
  moreover have "PGROUNDDOWN a = t"
    unfolding a using calculation px_lt [of 0 va] page_ok_aligned by (intro page_offset) auto
  ultimately have "PGROUNDDOWN a \<noteq> 0" using page_ok_nonzero assms(2) by blast
  moreover have "PGROUNDDOWN 0 = 0" by (simp add: PGROUNDDOWN_def)
  ultimately show ?thesis by metis
qed

lemma leaf_ent:
  "leaf m pt va = (case tabp m pt [px 2 va, px 1 va] of None \<Rightarrow> 0 | Some t \<Rightarrow> ent m t (px 0 va))"
  by (simp add: leaf_def slot_def ent_def del: tabp.simps split: option.splits)

lemma link_table_leaf:
  assumes wf: "pt_wf e m pt" and t: "tabp m pt p = Some t" and p: "path_ok (p @ [i])"
    and none: "tabp m pt (p @ [i]) = None" and q: "q \<notin> tables m pt"
    and zero: "\<And>k. k < 512 \<Longrightarrow> ent m' q k = 0"
    and others: "\<And>u k. k < 512 \<Longrightarrow> page_aligned u \<Longrightarrow> u \<noteq> q \<Longrightarrow> u \<noteq> t \<or> k \<noteq> i \<Longrightarrow>
                   ent m' u k = ent m u k"
    and tab: "\<And>r. path_ok r \<Longrightarrow> tabp m' pt r = (if r = p @ [i] then Some q else tabp m pt r)"
  shows "leaf m' pt va = leaf m pt va"
proof (cases "[px 2 va, px 1 va] = p @ [i]")
  case True
  have "tabp m' pt [px 2 va, px 1 va] = Some q" "tabp m pt [px 2 va, px 1 va] = None"
    unfolding True using tab [OF p] none by simp_all
  then show ?thesis
    unfolding leaf_ent using zero [OF px_lt, of 0 va] by (simp del: tabp.simps)
next
  case False
  have eq: "tabp m' pt [px 2 va, px 1 va] = tabp m pt [px 2 va, px 1 va]"
    using tab [OF path_ok_px(1), of 2 va 1] False by (simp only: if_False)
  have "ent m' u (px 0 va) = ent m u (px 0 va)" if u: "tabp m pt [px 2 va, px 1 va] = Some u" for u
  proof (rule others [OF px_lt])
    show "page_aligned u" using pt_wfD(1) [OF wf _ u] page_ok_aligned by simp
    show "u \<noteq> q" using q u path_ok_px(1) by (auto simp: tables_def simp del: tabp.simps)
    have "length p \<noteq> 2" "path_ok p" using p by (auto simp: path_ok_snoc)
    then show "u \<noteq> t \<or> px 0 va \<noteq> i"
      using pt_wfD(2) [OF wf _ _ u, of p] t by auto
  qed
  then show ?thesis unfolding leaf_ent eq by (auto simp del: tabp.simps split: option.splits)
qed

lemma ent_store:
  assumes "k < 512" and "i < 512" and "page_aligned t" and "page_aligned u"
  shows "ent (store64 m (t + of_nat (8 * i)) v) u k = (if u = t \<and> k = i then v else ent m u k)"
proof -
  have off: "8 * k + 8 \<le> 4096" "8 * i + 8 \<le> 4096" using assms by auto
  consider "u = t" "k = i" | "u = t" "k \<noteq> i" | "u \<noteq> t" by blast
  then show ?thesis
  proof cases
    case 2
    then show ?thesis
      unfolding ent_def using load64_store64_offset [of "8 * i" "8 * k" m t v] off
      by (simp add: nat_neq_iff) linarith
  next
    case 3
    then show ?thesis
      unfolding ent_def
      using load64_same_outside [OF assms(4) 3 off(1) store64_same_outside [OF assms(3) off(2)]]
      by simp
  qed (simp add: ent_def)
qed

lemma ent_zero_page:
  assumes "page_aligned q" and "k < 512"
  shows "ent (memset m q 0 4096) q k = 0"
proof -
  have "unat (of_nat (8 * k) + of_nat j :: u64) < 4096" if "j < 8" for j
    using assms(2) that unat_of_nat_64 [of "8 * k + j"] by simp
  then have "read_bytes (memset m q 0 4096) (q + of_nat (8 * k)) 8 = replicate 8 0"
    by (intro nth_equalityI) (simp_all add: memset_apply add.assoc)
  then show ?thesis unfolding ent_def load64_def by (simp only: le_word_zeros)
qed

lemma kmem_inv_mem:
  assumes "kmem_inv s ps" and "same_outside p (mem s) m" and "p \<notin> set ps"
  shows "kmem_inv (s\<lparr>mem := m\<rparr>) ps"
proof -
  have "\<forall>q \<in> set ps. page_aligned q" using assms(1) by (auto simp: kmem_inv_def page_ok_def)
  then show ?thesis
    using kchain_same_outside [OF assms(2,3)] assms(1) by (simp add: kmem_inv_def)
qed

section \<open>walk\<close>

lemma kalloc_result_same:
  assumes "kmem_inv s (q # qs)"
  shows "freelist s = q" "same_outside q (mem s) (mem (kalloc_result s))"
    "kend (kalloc_result s) = kend s"
    "kalloc_result s = s\<lparr>mem := mem (kalloc_result s), freelist := freelist (kalloc_result s)\<rparr>"
  using assms
  by (auto simp: kmem_inv_def kalloc_result_def page_ok_def intro: memset_same_outside)

lemma link_page:
  assumes wf: "pt_wf e m pt" and t: "tabp m pt p = Some t"
    and p: "path_ok (p @ [i])" and e: "\<not> valid (ent m t i)"
    and q: "q \<notin> tables m pt" "page_ok e q"
    and z: "same_outside q m z" "\<And>k. k < 512 \<Longrightarrow> ent z q k = 0"
    and m': "m' = store64 z (t + of_nat (8 * i)) (PA2PTE q OR PTE_V)"
  shows "pt_wf e m' pt" and "tables m' pt = insert q (tables m pt)"
    and "tabp m' pt (p @ [i]) = Some q" and "leaf m' pt va = leaf m pt va"
    and "same_outside t z m'" and "t \<in> tables m pt"
proof -
  have i: "i < 512" "path_ok p" using p by (auto simp: path_ok_snoc)
  have tal: "page_aligned t" "page_aligned q"
    using pt_wfD(1) [OF wf i(2) t] q(2) page_ok_aligned by blast+
  show tt: "t \<in> tables m pt" using t i by (auto simp: tables_def)
  then have tq: "t \<noteq> q" using q by auto
  show so: "same_outside t z m'"
    unfolding m' using i by (intro store64_same_outside [OF tal(1)]) simp
  have ent': "ent m' v k = (if v = t \<and> k = i then PA2PTE q OR PTE_V else ent z v k)"
    if "k < 512" "page_aligned v" for v k
    unfolding m' by (rule ent_store [OF that(1) i(1) tal(1) that(2)])
  have new: "valid (ent m' t i)" "PTE2PA (ent m' t i) = q"
    using ent' [OF i(1) tal(1)] PTE2PA_PA2PTE [of PTE_V q] PGROUNDDOWN_aligned [OF tal(2)]
    by (auto simp: valid_iff PTE_V_def bit_simps)
  have zero: "ent m' q k = 0" if "k < 512" for k
    using ent' [OF that tal(2)] tq z(2) [OF that] by simp
  have oth: "ent m' v k = ent m v k"
    if "k < 512" "page_aligned v" "v \<noteq> q" "v \<noteq> t \<or> k \<noteq> i" for v k
    using ent' [OF that(1,2)] that ent_same_outside [OF that(2,3,1) z(1)] by auto
  have none: "tabp m pt (p @ [i]) = None" using t e by (simp add: tabp_snoc)
  have tab: "tabp m' pt r = (if r = p @ [i] then Some q else tabp m pt r)" if "path_ok r" for r
    using link_table [OF wf t p e q(1) new] zero oth that by blast
  then show "tabp m' pt (p @ [i]) = Some q" using p by simp
  show "pt_wf e m' pt" "tables m' pt = insert q (tables m pt)"
    using link_table_wf [OF wf p none q tab] by blast+
  show "leaf m' pt va = leaf m pt va"
    using link_table_leaf [OF wf t p none q(1)] zero oth tab by blast
qed

lemma walk_link:
  assumes inv: "vm_inv s pt (q # qs)" and t: "tabp (mem s) pt p = Some t"
    and p: "path_ok (p @ [i])" and e: "\<not> valid (ent (mem s) t i)"
    and u: "u = (kalloc_result s)\<lparr>mem := store64 (memset (mem (kalloc_result s)) q 0 4096)
                                   (t + of_nat (8 * i)) (PA2PTE q OR PTE_V)\<rparr>"
  shows "grows pt (q # qs) s qs u" and "tabp (mem u) pt (p @ [i]) = Some q"
proof -
  let ?z = "memset (mem (kalloc_result s)) q 0 4096"
  have km: "kmem_inv s (q # qs)" and wf: "pt_wf (kend s) (mem s) pt" and q: "q \<notin> tables (mem s) pt"
    and qs: "set qs \<inter> tables (mem s) pt = {}" using inv by (auto simp: vm_inv_def)
  note kr = kalloc_result_same [OF km]
  have qok: "page_ok (kend s) q" "page_aligned q" and qqs: "q \<notin> set qs"
    using km by (auto simp: kmem_inv_def page_ok_def)
  have z: "same_outside q (mem s) ?z"
    using same_outside_trans [OF kr(2) memset_same_outside] qok by blast
  have mem: "mem u = store64 ?z (t + of_nat (8 * i)) (PA2PTE q OR PTE_V)" by (simp add: u)
  note L = link_page [OF wf t p e q qok(1) z ent_zero_page [OF qok(2)] mem]
  show "tabp (mem u) pt (p @ [i]) = Some q" by (rule L(3))
  have "kmem_inv ((kalloc_result s)\<lparr>mem := ?z\<rparr>) qs"
    using kmem_inv_mem [OF kmem_inv_kalloc [OF km] memset_same_outside [OF qok(2)] qqs] .
  from kmem_inv_mem [OF this, of t "mem u"]
  have "kmem_inv (((kalloc_result s)\<lparr>mem := ?z\<rparr>)\<lparr>mem := mem u\<rparr>) qs"
    using L(5,6) qs by auto
  then have "kmem_inv u qs" by (simp add: u)
  moreover have "set qs \<inter> tables (mem u) pt = {}" using L(2) qs qqs by auto
  moreover have "kend u = kend s" by (simp add: u kr(3))
  ultimately have "vm_inv u pt qs" using L(1) by (simp add: vm_inv_def)
  moreover have "mem u a = mem s a" if "PGROUNDDOWN a \<notin> tables (mem u) pt" for a
  proof -
    have "PGROUNDDOWN a \<noteq> q" "PGROUNDDOWN a \<noteq> t" using that L(2,6) by auto
    then show ?thesis using z L(5) by (simp add: same_outside_def)
  qed
  moreover have "u = s\<lparr>mem := mem u, freelist := freelist u\<rparr>"
    by (simp add: u kalloc_result_def)
  ultimately show "grows pt (q # qs) s qs u" using L(2,4) by (auto simp: grows_def tables_only_def)
qed

definition wpath :: "nat \<Rightarrow> u64 \<Rightarrow> nat list" where
  "wpath l va = map (\<lambda>k. px k va) (rev [Suc l..<3])"

lemma wpath_simps: "wpath 0 va = [px 2 va, px 1 va]" "wpath 2 va = []"
    "l \<le> 1 \<Longrightarrow> wpath l va = wpath (Suc l) va @ [px (Suc l) va]"
    "l \<le> 2 \<Longrightarrow> path_ok (wpath l va)"
  by (auto simp: wpath_def numeral_3_eq_3 numeral_2_eq_2 upt_conv_Cons path_ok_def px_lt le_Suc_eq)

lemma walk_from_noalloc:
  assumes "tabp (mem s) pt (wpath l va) = Some t" and "l \<le> 2"
  shows "walk_from l t va False s = Ret (case slot (mem s) pt va of None \<Rightarrow> 0 | Some a \<Rightarrow> a) s"
  using assms
proof (induction l arbitrary: t)
  case 0
  then show ?case
    unfolding wpath_simps by (simp add: slot_def PX_offset del: of_nat_mult)
next
  case (Suc l)
  have w: "tabp (mem s) pt (wpath l va) =
      (if valid (ent (mem s) t (px (Suc l) va)) then Some (PTE2PA (ent (mem s) t (px (Suc l) va))) else None)"
    using Suc.prems by (simp add: wpath_simps(3) tabp_snoc)
  have none: "slot (mem s) pt va = None" if "tabp (mem s) pt (wpath l va) = None"
  proof -
    have "l = 0 \<or> l = 1" using Suc.prems(2) by auto
    then have "tabp (mem s) pt (wpath 0 va) = None"
      using that by (auto simp: wpath_simps(3) [of 0] tabp_snoc)
    then show ?thesis by (simp add: slot_def wpath_simps)
  qed
  show ?case
    using Suc.IH [of "PTE2PA (ent (mem s) t (px (Suc l) va))"] Suc.prems(2) w none
    by (auto simp: prog_simps load_pte_def Let_def PX_offset ent_def [symmetric] simp del: of_nat_mult)
qed

lemma walk_noalloc:
  "va < MAXVA \<Longrightarrow>
     walk pt va False s = Ret (case slot (mem s) pt va of None \<Rightarrow> 0 | Some a \<Rightarrow> a) s"
  using walk_from_noalloc [of s pt 2 va pt] by (simp add: walk_def wpath_simps not_le [symmetric])

lemma walk_from_alloc:
  fixes s :: "'z kmem_state_scheme"
  assumes "vm_inv s pt ps" and "tabp (mem s) pt (wpath l va) = Some t" and "l \<le> 2"
  shows "\<exists>x (u :: 'z kmem_state_scheme) qs. walk_from l t va True s = Ret x u \<and> grows pt ps s qs u \<and>
           (x = 0 \<and> qs = [] \<or> slot (mem u) pt va = Some x)"
  using assms
proof (induction l arbitrary: s t ps)
  case 0
  then show ?case
    unfolding wpath_simps
    by (auto simp: slot_def PX_offset simp del: of_nat_mult tabp.simps intro: grows_refl)
next
  case (Suc l)
  let ?i = "px (Suc l) va" and ?a = "t + of_nat (8 * px (Suc l) va)"
  have wp: "wpath l va = wpath (Suc l) va @ [?i]" using Suc.prems(3) by (simp add: wpath_simps(3))
  have step: "walk_from (Suc l) t va True s =
      (let e = ent (mem s) t ?i in
       if valid e then walk_from l (PTE2PA e) va True s
       else bindp kalloc (\<lambda>p. if p = 0 then ret 0 else
              seqp (fill_page p 0) (seqp (store_pte ?a (PA2PTE p OR PTE_V)) (walk_from l p va True))) s)"
    by (simp add: prog_simps load_pte_def Let_def PX_offset ent_def del: of_nat_mult)
  show ?case
  proof (cases "valid (ent (mem s) t ?i)")
    case True
    have "tabp (mem s) pt (wpath l va) = Some (PTE2PA (ent (mem s) t ?i))"
      using Suc.prems(2) True by (simp add: wp tabp_snoc)
    from Suc.IH [OF Suc.prems(1) this] Suc.prems(3) show ?thesis
      unfolding step using True by simp
  next
    case False
    have km: "kmem_inv s ps" using Suc.prems(1) by (simp add: vm_inv_def)
    show ?thesis
    proof (cases ps)
      case Nil
      then show ?thesis
        unfolding step using kmem.alloc_none [of s] km False Suc.prems(1)
        by (auto simp: prog_simps intro: grows_refl)
    next
      case (Cons q qs)
      let ?u = "(kalloc_result s)\<lparr>mem := store64 (memset (mem (kalloc_result s)) q 0 4096)
                                   ?a (PA2PTE q OR PTE_V)\<rparr>"
      have "path_ok (wpath (Suc l) va @ [?i])" using wpath_simps(4) [of l va] wp Suc.prems(3) by simp
      note L = walk_link [OF Suc.prems(1) [unfolded Cons] Suc.prems(2) this False refl]
      have q: "freelist s = q" "q \<noteq> 0" "LKmem \<notin> held s"
        using km Cons page_ok_nonzero by (auto simp: kmem_inv_def)
      have run: "walk_from (Suc l) t va True s = walk_from l q va True ?u"
        unfolding step using False q by (simp add: kalloc_apply prog_simps fill_page_def store_pte_def)
      have "vm_inv ?u pt qs" using L(1) unfolding grows_def tables_only_def by blast
      from Suc.IH [OF this] L(2) wp Suc.prems(3) obtain x and v :: "'z kmem_state_scheme" and rs
        where v: "walk_from l q va True ?u = Ret x v" "grows pt qs ?u rs v"
          "x = 0 \<and> rs = [] \<or> slot (mem v) pt va = Some x" by auto
      then show ?thesis unfolding run using grows_trans [OF L(1) v(2)] Cons by blast
    qed
  qed
qed

lemma walk_alloc:
  fixes s :: "'z kmem_state_scheme"
  assumes "vm_inv s pt ps" and "va < MAXVA"
  shows "\<exists>x (u :: 'z kmem_state_scheme) qs. walk pt va True s = Ret x u \<and> grows pt ps s qs u \<and>
           (x = 0 \<and> qs = [] \<or> slot (mem u) pt va = Some x)"
  using walk_from_alloc [OF assms(1), of 2 va pt] assms(2)
  by (simp add: walk_def wpath_simps not_le [symmetric])

end
