(* ===== verification/Addrspace.thy ===== *)
theory Addrspace
  imports Pagetable
begin

text \<open>
  Address spaces: what \<open>mappages\<close>, \<open>walkaddr\<close>, \<open>copyout\<close>, \<open>copyin\<close> and \<open>copyinstr\<close> of
  \<open>vm.c\<close> do, stated on the translation \<open>leaf\<close> of a well-formed page table and on the bytes of
  user memory that it maps.
\<close>

section \<open>Storing a leaf entry\<close>

lemma set_leaf:
  assumes inv: "vm_inv u pt qs" and sl: "slot (mem u) pt va = Some a" and va: "va < MAXVA"
    and w: "w = u\<lparr>mem := store64 (mem u) a v\<rparr>"
  shows "tables_only pt qs u qs w"
    and "vb < MAXVA \<Longrightarrow>
           leaf (mem w) pt vb = (if PGROUNDDOWN vb = PGROUNDDOWN va then v else leaf (mem u) pt vb)"
proof -
  have wf: "pt_wf (kend u) (mem u) pt" and km: "kmem_inv u qs"
    and dj: "set qs \<inter> tables (mem u) pt = {}" using inv by (auto simp: vm_inv_def)
  have mw: "mem w = store64 (mem u) a v" by (simp add: w)
  note S = store_leaf [OF wf sl va mw]
  show "vb < MAXVA \<Longrightarrow>
           leaf (mem w) pt vb = (if PGROUNDDOWN vb = PGROUNDDOWN va then v else leaf (mem u) pt vb)"
    by (rule S(2))
  obtain t where t: "tabp (mem u) pt [px 2 va, px 1 va] = Some t" and a: "a = t + of_nat (8 * px 0 va)"
    using sl by (auto simp: slot_def simp del: tabp.simps)
  have al: "page_aligned t" using pt_wfD(1) [OF wf _ t] page_ok_aligned by simp
  have tt: "t \<in> tables (mem u) pt" using t path_ok_px(1) unfolding tables_def by blast
  have so: "same_outside t (mem u) (mem w)"
    unfolding mw a using px_lt [of 0 va] by (intro store64_same_outside [OF al]) simp
  have eq: "tables (mem w) pt = tables (mem u) pt" "pt_wf (kend u) (mem w) pt"
    using pt_wf_tabp_cong [OF S(1)] wf by auto
  have "kmem_inv (u\<lparr>mem := mem w\<rparr>) qs" using kmem_inv_mem [OF km so] dj tt by auto
  then have "vm_inv w pt qs" using eq dj by (simp add: vm_inv_def w)
  moreover have "\<forall>x. PGROUNDDOWN x \<notin> tables (mem w) pt \<longrightarrow> mem w x = mem u x"
    using so tt eq(1) by (auto simp: same_outside_def)
  ultimately show "tables_only pt qs u qs w" using eq(1) by (simp add: tables_only_def w)
qed

lemma leaf_page: "leaf m pt (PGROUNDDOWN va) = leaf m pt va"
  unfolding leaf_ent px_page ..

lemma slot_load: "slot m pt va = Some a \<Longrightarrow> load64 m a = leaf m pt va"
  by (simp add: leaf_def)

lemma vm_inv_slot_nonzero: "vm_inv s pt ps \<Longrightarrow> slot (mem s) pt va = Some a \<Longrightarrow> a \<noteq> 0"
  using slot_nonzero [of "kend s" "mem s" pt va a] by (auto simp: vm_inv_def kmem_inv_def)

section \<open>mappages\<close>

lemma page_succ:
  assumes "page_aligned a" and "a < MAXVA"
  shows "unat (a + PGSIZE) = unat a + 4096" and "page_aligned (a + PGSIZE)"
proof -
  have "unat a < 274877906944" using assms(2) by (simp add: word_less_nat_alt unat_MAXVA)
  then show n: "unat (a + PGSIZE) = unat a + 4096" by (simp add: unat_plus_64)
  show "page_aligned (a + PGSIZE)"
    using assms(1) by (simp add: page_aligned_iff n)
qed

text \<open>One round of the loop: the page at \<open>a\<close> is mapped, or memory ran out.\<close>

lemma mappages_step:
  fixes s :: "'z kmem_state_scheme"
  assumes inv: "vm_inv s pt ps" and a: "a < MAXVA" and free: "\<not> valid (leaf (mem s) pt a)"
  shows "(\<exists>u :: 'z kmem_state_scheme. mappages_loop pt a l pa perm s = Ret (- 1) u \<and> grows pt ps s [] u) \<or>
    (\<exists>(w :: 'z kmem_state_scheme) qs. tables_only pt ps s qs w \<and>
       (\<forall>vb < MAXVA. leaf (mem w) pt vb = (if PGROUNDDOWN vb = PGROUNDDOWN a
                       then PA2PTE pa OR perm OR PTE_V else leaf (mem s) pt vb)) \<and>
       mappages_loop pt a l pa perm s =
         (if a = l then Ret 0 w else mappages_loop pt (a + PGSIZE) l (pa + PGSIZE) perm w))"
proof -
  obtain x and u :: "'z kmem_state_scheme" and qs where w: "walk pt a True s = Ret x u"
      "grows pt ps s qs u" "x = 0 \<and> qs = [] \<or> slot (mem u) pt a = Some x"
    using walk_alloc [OF inv a] by blast
  have iu: "vm_inv u pt qs" using w(2) tables_only_inv by (auto simp: grows_def)
  show ?thesis
  proof (cases "x = 0")
    case True
    moreover have "slot (mem u) pt a \<noteq> Some x" using vm_inv_slot_nonzero [OF iu] True by blast
    ultimately show ?thesis using w by (auto simp: mappages_loop.simps [of pt a])
  next
    case False
    then have sl: "slot (mem u) pt a = Some x" using w(3) by blast
    let ?w = "u\<lparr>mem := store64 (mem u) x (PA2PTE pa OR perm OR PTE_V)\<rparr>"
    note S = set_leaf [OF iu sl a refl, where v = "PA2PTE pa OR perm OR PTE_V"]
    have "tables_only pt ps s qs ?w" using tables_only_trans S(1) w(2) by (auto simp: grows_def)
    moreover have "\<forall>vb < MAXVA. leaf (mem ?w) pt vb = (if PGROUNDDOWN vb = PGROUNDDOWN a
                       then PA2PTE pa OR perm OR PTE_V else leaf (mem s) pt vb)"
      using S(2) w(2) by (simp add: grows_def)
    moreover have "mappages_loop pt a l pa perm s =
         (if a = l then Ret 0 ?w else mappages_loop pt (a + PGSIZE) l (pa + PGSIZE) perm ?w)"
      using w(1,2) False free slot_load [OF sl]
      by (simp add: mappages_loop.simps [of pt a] grows_def Let_def)
    ultimately show ?thesis by blast
  qed
qed

text \<open>\<open>maps pt m m' a b pa perm\<close>: the pages from \<open>a\<close> up to \<open>b\<close> got mapped to \<open>pa\<close> and on.\<close>

definition maps :: "u64 \<Rightarrow> memory \<Rightarrow> memory \<Rightarrow> u64 \<Rightarrow> u64 \<Rightarrow> u64 \<Rightarrow> u64 \<Rightarrow> bool" where
  "maps pt m m' a b pa perm \<longleftrightarrow>
     (\<forall>v < MAXVA. leaf m' pt v =
        (if a \<le> PGROUNDDOWN v \<and> PGROUNDDOWN v < b
         then PA2PTE (pa + (PGROUNDDOWN v - a)) OR perm OR PTE_V else leaf m pt v))"

lemma maps_refl: "maps pt m m a a pa perm"
  by (auto simp: maps_def)

lemma maps_step:
  assumes "\<forall>v < MAXVA. leaf m1 pt v =
             (if PGROUNDDOWN v = a then PA2PTE pa OR perm OR PTE_V else leaf m pt v)"
    and "maps pt m1 m2 (a + PGSIZE) b (pa + PGSIZE) perm"
    and "page_aligned a" and "a < MAXVA" and "a + PGSIZE \<le> b"
  shows "maps pt m m2 a b pa perm"
  unfolding maps_def
proof (intro allI impI)
  fix v assume v: "v < MAXVA"
  let ?p = "PGROUNDDOWN v"
  note n = page_succ [OF assms(3,4)]
  have ab: "a < b" using assms(5) n(1) by (simp add: word_le_nat_alt word_less_nat_alt)
  have k: "?p = a \<or> (a \<le> ?p \<longleftrightarrow> a + PGSIZE \<le> ?p)"
  proof -
    obtain i where i: "unat a = 4096 * i" using assms(3) by (auto simp: page_aligned_iff dvd_def)
    obtain j where j: "unat ?p = 4096 * j"
      using page_aligned_PGROUNDDOWN [of v] by (auto simp: page_aligned_iff dvd_def)
    show ?thesis by (auto simp: word_le_nat_alt n(1) i j word_unat_eq_iff)
  qed
  have off: "pa + PGSIZE + (?p - (a + PGSIZE)) = pa + (?p - a)" by simp
  have L: "leaf m2 pt v = (if a + PGSIZE \<le> ?p \<and> ?p < b
      then PA2PTE (pa + (?p - a)) OR perm OR PTE_V
      else if ?p = a then PA2PTE pa OR perm OR PTE_V else leaf m pt v)"
    using assms(1,2) v unfolding maps_def off by simp
  show "leaf m2 pt v = (if a \<le> ?p \<and> ?p < b
      then PA2PTE (pa + (?p - a)) OR perm OR PTE_V else leaf m pt v)"
  proof (cases "?p = a")
    case True
    then show ?thesis
      using L ab n(1) by (simp add: word_le_nat_alt)
  next
    case False
    then show ?thesis using L k by simp
  qed
qed

lemma unat_pages:
  assumes "unat a + k * 4096 < unat MAXVA"
  shows "unat (a + of_nat k * PGSIZE) = unat a + 4096 * k"
proof -
  have "unat (of_nat (k * 4096) :: u64) = k * 4096"
    using assms by (intro unat_of_nat_64) (simp add: unat_MAXVA)
  then have "unat (a + of_nat (k * 4096)) = unat a + k * 4096"
    using assms by (subst unat_plus_nat_64) (simp_all add: unat_MAXVA)
  then show ?thesis by simp
qed

text \<open>After a page has been mapped, the pages behind it are still free.\<close>

lemma step_free:
  assumes "\<forall>v < MAXVA. a \<le> PGROUNDDOWN v \<and> PGROUNDDOWN v \<le> l \<longrightarrow> \<not> valid (leaf m pt v)"
    and "\<forall>vb < MAXVA. leaf m' pt vb = (if PGROUNDDOWN vb = PGROUNDDOWN a then e else leaf m pt vb)"
    and "PGROUNDDOWN a = a" "unat (a + PGSIZE) = unat a + 4096"
  shows "\<forall>v < MAXVA. a + PGSIZE \<le> PGROUNDDOWN v \<and> PGROUNDDOWN v \<le> l \<longrightarrow> \<not> valid (leaf m' pt v)"
proof (intro allI impI)
  fix v assume v: "v < MAXVA" "a + PGSIZE \<le> PGROUNDDOWN v \<and> PGROUNDDOWN v \<le> l"
  then have "PGROUNDDOWN v \<noteq> PGROUNDDOWN a" "a \<le> PGROUNDDOWN v"
    using assms(4) unfolding assms(3) by (auto simp: word_le_nat_alt)
  then show "\<not> valid (leaf m' pt v)" using v assms(1,2) by simp
qed

lemma mappages_loop_correct:
  fixes s :: "'z kmem_state_scheme"
  assumes "vm_inv s pt ps" and "page_aligned a" and "l = a + of_nat k * PGSIZE"
    and "unat a + k * 4096 < unat MAXVA"
    and "\<forall>v < MAXVA. a \<le> PGROUNDDOWN v \<and> PGROUNDDOWN v \<le> l \<longrightarrow> \<not> valid (leaf (mem s) pt v)"
  shows "\<exists>r b (u :: 'z kmem_state_scheme) qs. mappages_loop pt a l pa perm s = Ret r u \<and>
           tables_only pt ps s qs u \<and> maps pt (mem s) (mem u) a b pa perm \<and>
           (r = 0 \<and> b = l + PGSIZE \<or> r = - 1 \<and> qs = [] \<and> a \<le> b \<and> b \<le> l)"
  using assms
proof (induction k arbitrary: s ps a pa)
  case 0
  have a: "a < MAXVA" "a = l" using 0 by (simp_all add: word_less_nat_alt)
  have pa: "PGROUNDDOWN a = a" using 0(2) by (rule PGROUNDDOWN_aligned)
  have free: "\<not> valid (leaf (mem s) pt a)" using 0(5) a pa by auto
  from mappages_step [OF 0(1) a(1) free, of l pa perm] show ?case
  proof (elim disjE exE conjE)
    fix u :: "'z kmem_state_scheme"
    assume "mappages_loop pt a l pa perm s = Ret (- 1) u" "grows pt ps s [] u"
    then show ?thesis using a by (auto simp: grows_def maps_def intro!: exI [of _ a])
  next
    fix w :: "'z kmem_state_scheme" and qs
    assume w: "tables_only pt ps s qs w"
      "\<forall>vb < MAXVA. leaf (mem w) pt vb = (if PGROUNDDOWN vb = PGROUNDDOWN a
          then PA2PTE pa OR perm OR PTE_V else leaf (mem s) pt vb)"
      "mappages_loop pt a l pa perm s =
         (if a = l then Ret 0 w else mappages_loop pt (a + PGSIZE) l (pa + PGSIZE) perm w)"
    have "maps pt (mem s) (mem w) a (a + PGSIZE) pa perm"
      using maps_step [OF w(2) [unfolded pa] maps_refl 0(2) a(1)] by simp
    then show ?thesis using w a by auto
  qed
next
  case (Suc k)
  have a: "a < MAXVA" using Suc.prems(4) by (simp add: word_less_nat_alt)
  have pa: "PGROUNDDOWN a = a" using Suc.prems(2) by (rule PGROUNDDOWN_aligned)
  note n = page_succ [OF Suc.prems(2) a]
  have l: "unat l = unat a + 4096 * Suc k" using unat_pages [of a "Suc k"] Suc.prems(3,4) by simp
  have al: "a \<noteq> l" "a \<le> l" using l by (auto simp: word_le_nat_alt)
  have free: "\<not> valid (leaf (mem s) pt a)" using Suc.prems(5) a al pa by auto
  from mappages_step [OF Suc.prems(1) a free, of l pa perm] show ?case
  proof (elim disjE exE conjE)
    fix u :: "'z kmem_state_scheme"
    assume "mappages_loop pt a l pa perm s = Ret (- 1) u" "grows pt ps s [] u"
    then show ?thesis using al(2) by (auto simp: grows_def maps_def intro!: exI [of _ a])
  next
    fix w :: "'z kmem_state_scheme" and qs
    assume w: "tables_only pt ps s qs w"
      "\<forall>vb < MAXVA. leaf (mem w) pt vb = (if PGROUNDDOWN vb = PGROUNDDOWN a
          then PA2PTE pa OR perm OR PTE_V else leaf (mem s) pt vb)"
      "mappages_loop pt a l pa perm s =
         (if a = l then Ret 0 w else mappages_loop pt (a + PGSIZE) l (pa + PGSIZE) perm w)"
    note step_free [OF Suc.prems(5) w(2) pa n(1)]
    with Suc.IH [of w qs "a + PGSIZE" "pa + PGSIZE"] n Suc.prems(3,4) tables_only_inv [OF w(1)]
    obtain r b and u :: "'z kmem_state_scheme" and rs
      where u: "mappages_loop pt (a + PGSIZE) l (pa + PGSIZE) perm w = Ret r u"
        "tables_only pt qs w rs u" "maps pt (mem w) (mem u) (a + PGSIZE) b (pa + PGSIZE) perm"
        "r = 0 \<and> b = l + PGSIZE \<or> r = - 1 \<and> rs = [] \<and> a + PGSIZE \<le> b \<and> b \<le> l"
      by (auto simp: algebra_simps)
    have "l < MAXVA" using l Suc.prems(4) by (simp add: word_less_nat_alt)
    then have "unat (l + PGSIZE) = unat l + 4096"
      by (intro unat_plus_64 [of l PGSIZE, simplified]) (simp add: word_less_nat_alt unat_MAXVA)
    then have ab: "a + PGSIZE \<le> b" "a \<le> b" using u(4) l n(1) by (auto simp: word_le_nat_alt)
    have "maps pt (mem s) (mem u) a b pa perm"
      by (rule maps_step [OF w(2) [unfolded pa] u(3) Suc.prems(2) a ab(1)])
    then show ?thesis
      using w(3) al(1) u tables_only_trans [OF w(1) u(2)] ab(2) by auto
  qed
qed

section \<open>User memory\<close>

text \<open>What \<open>walkaddr\<close> computes, and the byte of user memory at a virtual address.\<close>

definition uwalk :: "memory \<Rightarrow> u64 \<Rightarrow> u64 \<Rightarrow> u64" where
  "uwalk m pt va =
     (let e = leaf m pt va in
      if va < MAXVA \<and> valid e \<and> e AND PTE_U \<noteq> 0 then PTE2PA e else 0)"

definition ubyte :: "memory \<Rightarrow> u64 \<Rightarrow> u64 \<Rightarrow> u8 option" where
  "ubyte m pt va =
     (let p = uwalk m pt (PGROUNDDOWN va) in
      if p = 0 then None else Some (m (p + (va - PGROUNDDOWN va))))"

text \<open>User pages are no tables, and two pages of user memory are never one physical page.\<close>

definition user_ok :: "memory \<Rightarrow> u64 \<Rightarrow> bool" where
  "user_ok m pt \<longleftrightarrow>
     (\<forall>v. uwalk m pt v \<noteq> 0 \<longrightarrow> uwalk m pt v \<notin> tables m pt) \<and>
     (\<forall>v w. uwalk m pt v \<noteq> 0 \<longrightarrow> uwalk m pt v = uwalk m pt w \<longrightarrow> PGROUNDDOWN v = PGROUNDDOWN w)"

lemma pt_wf_KERNBASE: "pt_wf e m pt \<Longrightarrow> KERNBASE \<le> e \<Longrightarrow> pt_wf KERNBASE m pt"
  unfolding pt_wf_def page_ok_def by (meson order_trans)

lemma walkaddr_apply:
  assumes "pt_wf KERNBASE (mem s) pt"
  shows "walkaddr pt va s = Ret (uwalk (mem s) pt va) s"
proof (cases "va < MAXVA")
  case True
  then show ?thesis
    using slot_nonzero [OF assms order_refl, of va]
    by (auto simp: walkaddr_def prog_simps walk_noalloc uwalk_def leaf_def load_pte_def Let_def
        not_le [symmetric] split: option.splits)
next
  case False
  then show ?thesis by (auto simp: walkaddr_def uwalk_def Let_def)
qed

lemma page_aligned_uwalk: "page_aligned (uwalk m pt va)"
proof -
  have "page_aligned (PTE2PA e)" for e
  proof -
    have "PTE2PA e = PGROUNDDOWN (PTE2PA e)"
      by (rule bit_word_eqI) (auto simp: PTE2PA_def PGROUNDDOWN_eq bit_simps)
    then show ?thesis by (metis page_aligned_PGROUNDDOWN)
  qed
  then show ?thesis by (simp add: uwalk_def Let_def page_aligned_def)
qed

lemma PGROUNDDOWN_idem [simp]: "PGROUNDDOWN (PGROUNDDOWN a) = PGROUNDDOWN a"
  by (simp add: PGROUNDDOWN_aligned)

lemma page_split: "\<exists>i < 4096. va = PGROUNDDOWN va + of_nat i \<and> unat (va - PGROUNDDOWN va) = i"
  using page_off_lt [of va] by (intro exI [of _ "unat (va - PGROUNDDOWN va)"]) simp

lemma chunk_page:
  assumes "i < chunk va len"
  shows "PGROUNDDOWN (va + of_nat i) = PGROUNDDOWN va"
proof -
  define p where "p = PGROUNDDOWN va"
  obtain o1 where o1: "va = p + of_nat o1" "unat (va - PGROUNDDOWN va) = o1"
    using page_split unfolding p_def by blast
  have "o1 + i < 4096" using assms o1(2) by (simp add: chunk_def unat_page_rest) linarith
  then have "PGROUNDDOWN (p + of_nat (o1 + i)) = p"
    by (intro page_offset) (simp_all add: p_def)
  moreover have "p + of_nat (o1 + i) = va + of_nat i"
    unfolding o1(1) by (simp add: add.assoc)
  ultimately show ?thesis by (simp only: p_def)
qed

lemma chunk_next:
  assumes "chunk va len < len"
  shows "PGROUNDDOWN va + PGSIZE = va + of_nat (chunk va len)"
proof -
  have "chunk va len = unat (PGSIZE - (va - PGROUNDDOWN va))"
    using assms by (simp add: chunk_def min_def split: if_splits)
  then have "of_nat (chunk va len) = PGSIZE - (va - PGROUNDDOWN va)"
    by simp
  then show ?thesis by simp
qed

text \<open>The first \<open>n\<close> bytes of user memory at \<open>va\<close>, when all are mapped.\<close>

definition umapped :: "memory \<Rightarrow> u64 \<Rightarrow> u64 \<Rightarrow> nat \<Rightarrow> bool" where
  "umapped m pt va n \<longleftrightarrow> (\<forall>i < n. ubyte m pt (va + of_nat i) \<noteq> None)"

definition ubytes :: "memory \<Rightarrow> u64 \<Rightarrow> u64 \<Rightarrow> nat \<Rightarrow> u8 list" where
  "ubytes m pt va n = map (\<lambda>i. the (ubyte m pt (va + of_nat i))) [0..<n]"

lemma length_ubytes [simp]: "length (ubytes m pt va n) = n"
  by (simp add: ubytes_def)

lemma umapped_add:
  "umapped m pt va (n + k) \<longleftrightarrow> umapped m pt va n \<and> umapped m pt (va + of_nat n) k"
proof -
  have "(\<forall>i < n + k. P i) \<longleftrightarrow> (\<forall>i < n. P i) \<and> (\<forall>i < k. P (n + i))" for P
  proof safe
    fix i assume "\<forall>i < n. P i" "\<forall>i < k. P (n + i)" "i < n + k"
    then show "P i" by (cases "i < n") (auto simp: not_less dest!: le_Suc_ex)
  qed auto
  from this [of "\<lambda>i. ubyte m pt (va + of_nat i) \<noteq> None"] show ?thesis
    by (simp add: umapped_def add.assoc)
qed

lemma ubytes_add: "ubytes m pt va (n + k) = ubytes m pt va n @ ubytes m pt (va + of_nat n) k"
  by (rule nth_equalityI) (auto simp: ubytes_def nth_append add.assoc of_nat_diff)

lemma chunk_ubyte:
  assumes "i < chunk va len"
  shows "ubyte m pt (va + of_nat i) =
    (if uwalk m pt (PGROUNDDOWN va) = 0 then None
     else Some (m (uwalk m pt (PGROUNDDOWN va) + (va - PGROUNDDOWN va) + of_nat i)))"
  by (simp add: ubyte_def Let_def chunk_page [OF assms] algebra_simps)

lemma chunk_umapped:
  assumes "0 < len"
  shows "umapped m pt va (chunk va len) \<longleftrightarrow> uwalk m pt (PGROUNDDOWN va) \<noteq> 0"
  using chunk_pos [OF assms, of va] by (auto simp: umapped_def chunk_ubyte)

lemma chunk_ubytes:
  assumes "uwalk m pt (PGROUNDDOWN va) \<noteq> 0"
  shows "read_bytes m (uwalk m pt (PGROUNDDOWN va) + (va - PGROUNDDOWN va)) (chunk va len)
           = ubytes m pt va (chunk va len)"
  using assms by (auto simp: read_bytes_def ubytes_def chunk_ubyte)

lemma chunk_rest:
  assumes "0 < len"
  shows "umapped m pt va len \<longleftrightarrow> uwalk m pt (PGROUNDDOWN va) \<noteq> 0 \<and>
           umapped m pt (PGROUNDDOWN va + PGSIZE) (len - chunk va len)"
    and "ubytes m pt va len = ubytes m pt va (chunk va len) @
           ubytes m pt (PGROUNDDOWN va + PGSIZE) (len - chunk va len)"
proof -
  let ?n = "chunk va len"
  have le: "?n + (len - ?n) = len" using chunk_le [of va len] by simp
  have nx: "len - ?n = 0 \<or> PGROUNDDOWN va + PGSIZE = va + of_nat ?n"
    using chunk_next [of va len] by fastforce
  show "umapped m pt va len \<longleftrightarrow> uwalk m pt (PGROUNDDOWN va) \<noteq> 0 \<and>
           umapped m pt (PGROUNDDOWN va + PGSIZE) (len - ?n)"
    using umapped_add [of m pt va ?n "len - ?n"] nx chunk_umapped [OF assms, of m pt va]
    by (auto simp: le) (auto simp: umapped_def)
  show "ubytes m pt va len = ubytes m pt va ?n @ ubytes m pt (PGROUNDDOWN va + PGSIZE) (len - ?n)"
    using ubytes_add [of m pt va ?n "len - ?n"] nx by (auto simp: le ubytes_def)
qed

section \<open>copyin\<close>

lemma copyin_loop_correct:
  assumes "pt_wf KERNBASE (mem s) pt"
  shows "if umapped (mem s) pt va len
         then copyin_loop pt va len dst s = Ret (0, dst @ ubytes (mem s) pt va len) s
         else \<exists>got. copyin_loop pt va len dst s = Ret (- 1, got) s"
  using assms
proof (induction pt va len dst s rule: copyin_loop.induct)
  case (1 pt va len dst s)
  show ?case
  proof (cases "len = 0 \<or> uwalk (mem s) pt (PGROUNDDOWN va) = 0")
    case True
    then show ?thesis
      using 1(2) chunk_rest(1) [of len "mem s" pt va]
      by (auto simp: copyin_loop.simps [of pt va] walkaddr_apply umapped_def ubytes_def)
  next
    case False
    then have run: "copyin_loop pt va len dst s =
        copyin_loop pt (PGROUNDDOWN va + PGSIZE) (len - chunk va len)
          (dst @ ubytes (mem s) pt va (chunk va len)) s"
      using 1(2) by (simp add: copyin_loop.simps [of pt va] walkaddr_apply Let_def chunk_ubytes)
    have len: "0 < len" using False by simp
    note IH = 1(1) [OF _ refl refl walkaddr_apply [OF 1(2)] _ 1(2)]
    show ?thesis
      unfolding run using IH chunk_rest [OF len, of "mem s" pt va] False
      by (auto simp: chunk_ubytes split: if_splits)
  qed
qed

section \<open>copyinstr\<close>

lemma read_bytes_Suc: "read_bytes m p (Suc n) = m p # read_bytes m (p + 1) n"
  by (rule nth_equalityI) (auto simp: nth_Cons add.assoc split: nat.splits)

lemma scan_nul_eq:
  "scan_nul m p n dst =
     (let bs = read_bytes m p n in
      if 0 \<in> set bs then (True, dst @ takeWhile (\<lambda>b. b \<noteq> 0) bs @ [0]) else (False, dst @ bs))"
  by (induction n arbitrary: p dst) (simp_all add: read_bytes_Suc Let_def, simp add: read_bytes_def)

text \<open>The C string \<open>str\<close> stands at \<open>va\<close> in user memory.\<close>

definition ucstr :: "memory \<Rightarrow> u64 \<Rightarrow> u64 \<Rightarrow> u8 list \<Rightarrow> bool" where
  "ucstr m pt va str \<longleftrightarrow> umapped m pt va (length str + 1) \<and>
     ubytes m pt va (length str + 1) = str @ [0] \<and> 0 \<notin> set str"

lemma ubytes_take:
  assumes "umapped m pt va n" and "k \<le> n"
  shows "umapped m pt va k" and "ubytes m pt va k = take k (ubytes m pt va n)"
  using assms umapped_add [of m pt va k "n - k"] ubytes_add [of m pt va k "n - k"] by simp_all

lemma ubytes_prefix: "n \<le> k \<Longrightarrow> take n (ubytes m pt va k) = ubytes m pt va n"
  using ubytes_add [of m pt va n "k - n"] by simp

lemma ucstr_unique_nul:
  assumes s: "ucstr m pt va str" and um: "umapped m pt va n" and z: "0 \<in> set (ubytes m pt va n)"
  shows "str = takeWhile (\<lambda>b. b \<noteq> 0) (ubytes m pt va n)"
proof -
  let ?u = "ubytes m pt va n"
  have nz: "0 \<notin> set str" and ub: "ubytes m pt va (length str + 1) = str @ [0]"
    using s by (auto simp: ucstr_def)
  have "length str < n"
  proof (rule ccontr)
    assume "\<not> length str < n"
    then have "?u = take n str" using ubytes_prefix [of n "length str + 1" m pt va] ub by simp
    then show False using z nz by (metis in_set_takeD)
  qed
  then have "?u = str @ 0 # drop (length str + 1) ?u"
    using ubytes_take(2) [OF um, of "length str + 1"] ub
      append_take_drop_id [of "length str + 1" ?u] by simp
  then have "takeWhile (\<lambda>b. b \<noteq> 0) ?u = takeWhile (\<lambda>b. b \<noteq> 0) (str @ 0 # drop (length str + 1) ?u)"
    by simp
  then show ?thesis using nz by (simp add: takeWhile_append)
qed

lemma ucstr_chunk_nul:
  assumes um: "umapped m pt va n" and z: "0 \<in> set (ubytes m pt va n)"
  shows "ucstr m pt va str \<longleftrightarrow> str = takeWhile (\<lambda>b. b \<noteq> 0) (ubytes m pt va n)"
proof -
  let ?u = "ubytes m pt va n" and ?t = "takeWhile (\<lambda>b. b \<noteq> 0) (ubytes m pt va n)"
  have lt: "length ?t < n"
    using z takeWhile_less [of 0 ?u "\<lambda>b. b \<noteq> 0"] by auto
  have "?u ! length ?t = 0" using lt nth_length_takeWhile [of "\<lambda>b. b \<noteq> 0" ?u] by simp
  then have "take (length ?t + 1) ?u = ?t @ [0]"
    using lt by (simp add: take_Suc_conv_app_nth takeWhile_eq_take [symmetric])
  then have "ucstr m pt va ?t"
    using lt ubytes_take [OF um, of "length ?t + 1"] by (auto simp: ucstr_def dest: set_takeWhileD)
  then show ?thesis using ucstr_unique_nul [OF _ um z] by blast
qed

lemma ucstr_chunk_more:
  assumes um: "umapped m pt va n" and z: "0 \<notin> set (ubytes m pt va n)"
  shows "ucstr m pt va str \<longleftrightarrow>
           (\<exists>r. str = ubytes m pt va n @ r \<and> ucstr m pt (va + of_nat n) r)"
proof -
  let ?u = "ubytes m pt va n"
  have "n \<le> length str" if s: "ucstr m pt va str"
  proof (rule ccontr)
    assume "\<not> n \<le> length str"
    then have "take (length str + 1) ?u = str @ [0]"
      using ubytes_take(2) [OF um, of "length str + 1"] s by (simp add: ucstr_def)
    then show False using z by (metis in_set_conv_decomp in_set_takeD)
  qed
  moreover have "ucstr m pt va (?u @ r) \<longleftrightarrow> ucstr m pt (va + of_nat n) r" for r
    using assms z umapped_add [of m pt va n "length r + 1"] ubytes_add [of m pt va n "length r + 1"]
    by (auto simp: ucstr_def)
  moreover have "str = ?u @ drop n str" if "ucstr m pt va str" "n \<le> length str"
    using that ubytes_prefix [of n "length str + 1" m pt va] append_take_drop_id [of n str]
    by (simp add: ucstr_def)
  ultimately show ?thesis by metis
qed

lemma copyinstr_loop_correct:
  assumes "pt_wf KERNBASE (mem s) pt"
  shows "(\<exists>str. ucstr (mem s) pt va str \<and> length str < maxlen \<and>
            copyinstr_loop pt va maxlen dst s = Ret (0, dst @ str @ [0]) s) \<or>
         (\<nexists>str. ucstr (mem s) pt va str \<and> length str < maxlen) \<and>
            (\<exists>got. copyinstr_loop pt va maxlen dst s = Ret (- 1, got) s)"
  using assms
proof (induction pt va maxlen dst s rule: copyinstr_loop.induct)
  case (1 pt va maxlen dst s)
  let ?n = "chunk va maxlen" and ?m = "mem s"
  let ?u = "ubytes (mem s) pt va (chunk va maxlen)"
  show ?case
  proof (cases "maxlen = 0 \<or> uwalk ?m pt (PGROUNDDOWN va) = 0")
    case True
    have "\<not> ucstr ?m pt va str" if "maxlen \<noteq> 0" for str
    proof -
      have "0 < ?n" using chunk_pos that by simp
      then have "ubyte ?m pt va = None" using chunk_ubyte [of 0 va maxlen] True that by simp
      then show ?thesis by (auto simp: ucstr_def umapped_def)
    qed
    then show ?thesis using True 1(2) by (auto simp: copyinstr_loop.simps [of pt va] walkaddr_apply)
  next
    case False
    then have um: "umapped ?m pt va ?n" and len: "0 < maxlen" using chunk_umapped by auto
    have run: "copyinstr_loop pt va maxlen dst s =
        (if 0 \<in> set ?u then Ret (0, dst @ takeWhile (\<lambda>b. b \<noteq> 0) ?u @ [0]) s
         else copyinstr_loop pt (PGROUNDDOWN va + PGSIZE) (maxlen - ?n) (dst @ ?u) s)"
      using 1(2) False
      by (simp add: copyinstr_loop.simps [of pt va] walkaddr_apply Let_def scan_nul_eq chunk_ubytes)
    show ?thesis
    proof (cases "0 \<in> set ?u")
      case True
      have "length (takeWhile (\<lambda>b. b \<noteq> 0) ?u) < maxlen"
        using takeWhile_less [of 0 ?u "\<lambda>b. b \<noteq> 0"] True chunk_le [of va maxlen] by auto
      then show ?thesis using ucstr_chunk_nul [OF um True] True by (simp add: run)
    next
      case nul: False
      have sc: "scan_nul ?m (uwalk ?m pt (PGROUNDDOWN va) + (va - PGROUNDDOWN va)) ?n dst =
          (False, dst @ ?u)" using False nul by (simp add: scan_nul_eq Let_def chunk_ubytes)
      note IH = 1(1) [OF _ refl refl walkaddr_apply [OF 1(2)] _ sc [symmetric] refl 1(2)]
      have nx: "maxlen - ?n = 0 \<or> PGROUNDDOWN va + PGSIZE = va + of_nat ?n"
        using chunk_next [of va maxlen] by fastforce
      have "ucstr ?m pt va str \<and> length str < maxlen \<longleftrightarrow>
          (\<exists>r. str = ?u @ r \<and> ucstr ?m pt (PGROUNDDOWN va + PGSIZE) r \<and> length r < maxlen - ?n)" for str
        using ucstr_chunk_more [OF um nul, of str] nx by auto
      with IH False nul show ?thesis unfolding run by (simp only:) fastforce
    qed
  qed
qed

section \<open>copyout\<close>

text \<open>
  \<open>uwrote pt m m' va bs\<close>: user memory changed exactly in the bytes from \<open>va\<close> on, which are now
  \<open>bs\<close>; the page table is as before, and so is every byte outside the user pages of the range.
\<close>

definition uwrote :: "u64 \<Rightarrow> memory \<Rightarrow> memory \<Rightarrow> u64 \<Rightarrow> u8 list \<Rightarrow> bool" where
  "uwrote pt m m' va bs \<longleftrightarrow>
     (\<forall>x. ubyte m' pt x = (if unat (x - va) < length bs then Some (bs ! unat (x - va)) else ubyte m pt x)) \<and>
     (\<forall>x. leaf m' pt x = leaf m pt x) \<and> tables m' pt = tables m pt \<and>
     (\<forall>e. pt_wf e m' pt = pt_wf e m pt) \<and>
     (\<forall>a. (\<forall>i < length bs. PGROUNDDOWN a \<noteq> uwalk m pt (PGROUNDDOWN (va + of_nat i))) \<longrightarrow> m' a = m a)"

lemma uwrote_Nil: "uwrote pt m m va []"
  by (simp add: uwrote_def)

lemma uwrote_user_ok: "uwrote pt m m' va bs \<Longrightarrow> user_ok m' pt = user_ok m pt"
  by (simp add: uwrote_def user_ok_def uwalk_def)

lemma uwrote_uwalk: "uwrote pt m m' va bs \<Longrightarrow> uwalk m' pt v = uwalk m pt v"
  by (simp add: uwrote_def uwalk_def)

lemma ubyte_None: "ubyte m pt x = None \<longleftrightarrow> uwalk m pt (PGROUNDDOWN x) = 0"
  by (simp add: ubyte_def Let_def)

lemma uwrote_umapped: "uwrote pt m m' va bs \<Longrightarrow> umapped m' pt v n = umapped m pt v n"
  using uwrote_uwalk by (simp add: umapped_def ubyte_None del: not_None_eq)

lemma uwrote_Nil_any: "uwrote pt m m' va [] \<Longrightarrow> uwrote pt m m' vb []"
  by (simp add: uwrote_def)

lemma unat_diff_range:
  fixes d :: u64
  assumes "n + k < 2 ^ 64"
  shows "unat d < n + k \<longleftrightarrow> unat d < n \<or> unat (d - of_nat n) < k"
    and "n \<le> unat d \<Longrightarrow> unat (d - of_nat n) = unat d - n"
    and "unat d < n \<Longrightarrow> \<not> unat (d - of_nat n) < k"
proof -
  have n: "unat (of_nat n :: u64) = n" using assms by (intro unat_of_nat_64) simp
  show ge: "unat (d - of_nat n) = unat d - n" if "n \<le> unat d"
    using that by (subst unat_sub) (simp_all add: word_le_nat_alt n)
  show lt: "\<not> unat (d - of_nat n) < k" if "unat d < n"
  proof -
    have "unat (d - of_nat n) = unat d + 2 ^ 64 - n"
      using that unat_sub_if' [of d "of_nat n"] by (simp add: n)
    then show ?thesis using assms by simp
  qed
  show "unat d < n + k \<longleftrightarrow> unat d < n \<or> unat (d - of_nat n) < k"
    using ge lt by (cases "n \<le> unat d") auto
qed

lemma uwrote_append:
  assumes "uwrote pt m m1 va xs" and "uwrote pt m1 m2 (va + of_nat (length xs)) ys"
    and "length xs + length ys < 2 ^ 64"
  shows "uwrote pt m m2 va (xs @ ys)"
proof -
  let ?n = "length xs" and ?k = "length ys"
  note R = unat_diff_range [OF assms(3)]
  have d: "x - (va + of_nat ?n) = (x - va) - of_nat ?n" for x :: u64 by simp
  have "ubyte m2 pt x = (if unat (x - va) < length (xs @ ys)
      then Some ((xs @ ys) ! unat (x - va)) else ubyte m pt x)" for x
  proof -
    have "ubyte m2 pt x = (if unat (x - va - of_nat ?n) < ?k then Some (ys ! unat (x - va - of_nat ?n))
        else if unat (x - va) < ?n then Some (xs ! unat (x - va)) else ubyte m pt x)"
      using assms(1,2) unfolding uwrote_def d by simp
    then show ?thesis
      using R [of "x - va"] by (cases "unat (x - va) < ?n") (auto simp: nth_append not_less)
  qed
  moreover have "m2 a = m a"
    if a: "\<forall>i < length (xs @ ys). PGROUNDDOWN a \<noteq> uwalk m pt (PGROUNDDOWN (va + of_nat i))" for a
  proof -
    have "PGROUNDDOWN a \<noteq> uwalk m pt (PGROUNDDOWN (va + of_nat ?n + of_nat i))" if "i < ?k" for i
      using a [rule_format, of "?n + i"] that by (simp add: add.assoc)
    then have "m2 a = m1 a" using assms(2) uwrote_uwalk [OF assms(1)] by (simp add: uwrote_def)
    also have "m1 a = m a" using assms(1) a by (simp add: uwrote_def)
    finally show ?thesis .
  qed
  ultimately show ?thesis using assms(1,2) by (simp add: uwrote_def)
qed

lemma uwrote_chunk:
  assumes wf: "pt_wf e m pt" and ok: "user_ok m pt" and mp: "uwalk m pt (PGROUNDDOWN va) \<noteq> 0"
    and bs: "length bs = chunk va len"
    and m': "m' = write_bytes m (uwalk m pt (PGROUNDDOWN va) + (va - PGROUNDDOWN va)) bs"
  shows "uwrote pt m m' va bs"
proof -
  let ?p = "uwalk m pt (PGROUNDDOWN va)"
  obtain k where k: "unat (va - PGROUNDDOWN va) = k" "va - PGROUNDDOWN va = of_nat k"
    by (metis of_nat_unat ucast_id)
  have kb: "k + length bs \<le> 4096"
    using k(1) bs page_off_lt [of va] by (auto simp: chunk_def unat_page_rest min_def)
  have so: "same_outside ?p m m'"
    unfolding m' k(2) by (rule write_bytes_same_outside [OF page_aligned_uwalk kb])
  have nt: "?p \<notin> tables m pt" using ok mp by (auto simp: user_ok_def)
  note L = leaf_same_outside [OF wf so nt]
  have uw: "uwalk m' pt v = uwalk m pt v" for v by (simp add: uwalk_def L(2))
  have "ubyte m' pt x = (if unat (x - va) < length bs then Some (bs ! unat (x - va)) else ubyte m pt x)"
    for x
  proof (cases "PGROUNDDOWN x = PGROUNDDOWN va")
    case True
    have "?p + (x - PGROUNDDOWN va) - (?p + (va - PGROUNDDOWN va)) = x - va" by simp
    then have "m' (?p + (x - PGROUNDDOWN va)) =
        (if unat (x - va) < length bs then bs ! unat (x - va) else m (?p + (x - PGROUNDDOWN va)))"
      by (simp add: m' write_bytes_def)
    then show ?thesis using True mp by (simp add: ubyte_def Let_def uw)
  next
    case False
    have out: "\<not> unat (x - va) < length bs"
    proof
      assume "unat (x - va) < length bs"
      then have "PGROUNDDOWN (va + of_nat (unat (x - va))) = PGROUNDDOWN va"
        using chunk_page bs by metis
      then show False using False by simp
    qed
    let ?q = "uwalk m pt (PGROUNDDOWN x)"
    have "m' (?q + (x - PGROUNDDOWN x)) = m (?q + (x - PGROUNDDOWN x))" if "?q \<noteq> 0"
    proof -
      have "?q \<noteq> ?p" using ok that False PGROUNDDOWN_idem unfolding user_ok_def by metis
      moreover have "PGROUNDDOWN (?q + (x - PGROUNDDOWN x)) = ?q"
        using page_offset [OF page_aligned_uwalk page_off_lt [of x]] by simp
      ultimately show ?thesis using so by (simp add: same_outside_def)
    qed
    then show ?thesis using out by (simp add: ubyte_def Let_def uw)
  qed
  moreover have "m' a = m a"
    if a: "\<forall>i < length bs. PGROUNDDOWN a \<noteq> uwalk m pt (PGROUNDDOWN (va + of_nat i))" for a
  proof (cases "bs = []")
    case True
    then show ?thesis by (simp add: m' write_bytes_def)
  next
    case False
    then show ?thesis using a [rule_format, of 0] so by (simp add: same_outside_def)
  qed
  moreover have "tables m' pt = tables m pt" "pt_wf e m' pt = pt_wf e m pt" for e
    using pt_wf_tabp_cong [of m' pt m] L(1) by blast+
  ultimately show ?thesis using L(2) by (simp add: uwrote_def)
qed

text \<open>The bytes that \<open>copyout\<close> writes: all of them, or those before the first unmapped page.\<close>

lemma copyout_writes:
  fixes s :: "'z kmem_state_scheme"
  assumes "pt_wf KERNBASE (mem s) pt" and "user_ok (mem s) pt" and "length src < 2 ^ 64"
  shows "\<exists>m' n. copyout pt va src s = Ret (if n = length src then 0 else - 1) (s\<lparr>mem := m'\<rparr>) \<and>
           n \<le> length src \<and> umapped (mem s) pt va n \<and> uwrote pt (mem s) m' va (take n src) \<and>
           (n < length src \<longrightarrow> ubyte (mem s) pt (va + of_nat n) = None)"
  using assms
proof (induction pt va src s rule: copyout.induct)
  case (1 pt va src s)
  let ?m = "mem s" and ?p = "uwalk (mem s) pt (PGROUNDDOWN va)" and ?c = "chunk va (length src)"
  show ?case
  proof (cases "src = [] \<or> ?p = 0")
    case True
    have "ubyte ?m pt va = None" if "src \<noteq> []"
      using True that by (simp add: ubyte_def Let_def)
    then show ?thesis
      using True 1(2)
      by (intro exI [of _ ?m] exI [of _ 0])
        (auto simp: copyout.simps [of pt va] walkaddr_apply uwrote_Nil umapped_def)
  next
    case False
    let ?m1 = "write_bytes ?m (?p + (va - PGROUNDDOWN va)) (take ?c src)"
    let ?s1 = "s\<lparr>mem := ?m1\<rparr>" and ?va1 = "PGROUNDDOWN va + PGSIZE"
    have len: "length (take ?c src) = ?c" using chunk_le [of va "length src"] by simp
    have W: "uwrote pt ?m ?m1 va (take ?c src)"
      by (rule uwrote_chunk [OF 1(2,3) _ len refl]) (use False in simp)
    have run: "copyout pt va src s = copyout pt ?va1 (drop ?c src) ?s1"
      using False 1(2) by (simp add: copyout.simps [of pt va] walkaddr_apply Let_def)
    have "pt_wf KERNBASE (mem ?s1) pt" "user_ok (mem ?s1) pt"
      using W 1(2,3) uwrote_user_ok [OF W] by (simp_all add: uwrote_def)
    moreover have "src \<noteq> []" "?p \<noteq> 0" "length (drop ?c src) < 2 ^ 64" using False 1(4) by simp_all
    ultimately obtain m2 k where K:
        "copyout pt ?va1 (drop ?c src) ?s1 = Ret (if k = length (drop ?c src) then 0 else - 1) (?s1\<lparr>mem := m2\<rparr>)"
        "k \<le> length (drop ?c src)" "umapped (mem ?s1) pt ?va1 k"
        "uwrote pt (mem ?s1) m2 ?va1 (take k (drop ?c src))"
        "k < length (drop ?c src) \<longrightarrow> ubyte (mem ?s1) pt (?va1 + of_nat k) = None"
      using 1(1) [OF _ refl refl walkaddr_apply [OF 1(2)]] by blast
    have nx: "drop ?c src = [] \<or> ?va1 = va + of_nat ?c"
      using chunk_next [of va "length src"] by fastforce
    have W2: "uwrote pt ?m1 m2 (va + of_nat (length (take ?c src))) (take k (drop ?c src))"
      using K(4) nx len uwrote_Nil_any by auto
    have "length (take ?c src) + length (take k (drop ?c src)) < 2 ^ 64" using 1(4) K(2) by simp
    from uwrote_append [OF W W2 this]
    have "uwrote pt ?m m2 va (take (?c + k) src)" by (simp add: take_add)
    moreover have "umapped ?m pt va (?c + k)"
      using chunk_umapped [of "length src" ?m pt va] False K(2,3) nx uwrote_umapped [OF W]
      by (auto simp: umapped_add) (simp add: umapped_def)
    moreover have "ubyte ?m pt (va + of_nat (?c + k)) = None" if "?c + k < length src"
    proof -
      have "?va1 + of_nat k = va + of_nat (?c + k)" using nx that by auto
      moreover have "ubyte ?m pt (?va1 + of_nat k) = None"
        using K(5) that uwrote_uwalk [OF W] by (simp add: ubyte_None)
      ultimately show ?thesis by (simp only:)
    qed
    moreover have "copyout pt va src s = Ret (if ?c + k = length src then 0 else - 1) (s\<lparr>mem := m2\<rparr>)"
      using K(1,2) chunk_le [of va "length src"] by (auto simp: run)
    ultimately show ?thesis using K(2) chunk_le [of va "length src"]
      by (intro exI [of _ m2] exI [of _ "?c + k"]) auto
  qed
qed

section \<open>Properties\<close>

text \<open>A machine with two free pages and one empty page table, for the witnesses.\<close>

definition vm_example :: kmem_state where
  "vm_example = \<lparr>mem = store64 (\<lambda>_. 0) KERNBASE (KERNBASE + 0x1000), held = {},
                 freelist = KERNBASE, kend = KERNBASE\<rparr>"

lemma empty_table:
  assumes "page_ok e pt" and "\<And>k. k < 512 \<Longrightarrow> ent m pt k = 0"
  shows "pt_wf e m pt" and "tables m pt = {pt}" and "leaf m pt va = 0"
proof -
  have t: "tabp m pt p = (if p = [] then Some pt else None)" if "path_ok p" for p
    using that assms(2) by (cases p) (auto simp: path_ok_def)
  then show "pt_wf e m pt"
    using assms(1) by (auto simp: pt_wf_def split: if_splits)
  show "tables m pt = {pt}"
    using t path_ok_px(3) unfolding tables_def by (auto split: if_splits intro!: exI [of _ "[]"])
  show "leaf m pt va = 0"
    using t [OF path_ok_px(1), of 2 va 1] by (simp add: leaf_ent)
qed

lemma vm_example_ok:
  "vm_inv vm_example (KERNBASE + 0x2000) [KERNBASE, KERNBASE + 0x1000]"
  "leaf (mem vm_example) (KERNBASE + 0x2000) va = 0"
proof -
  let ?pt = "KERNBASE + 0x2000 :: u64" and ?m = "store64 (\<lambda>_. 0) KERNBASE (KERNBASE + 0x1000)"
  have al: "page_aligned KERNBASE" "page_aligned (KERNBASE + 0x1000)" "page_aligned ?pt"
    by (simp_all add: page_aligned_def KERNBASE_def)
  have ne: "KERNBASE + 0x1000 \<noteq> (KERNBASE :: u64)" "?pt \<noteq> KERNBASE" by simp_all
  have so: "same_outside KERNBASE (\<lambda>_. 0) ?m"
    using store64_same_outside [OF al(1), of 0] by simp
  have z: "load64 ?m (p + of_nat off) = 0" if "page_aligned p" "p \<noteq> KERNBASE" "off + 8 \<le> 4096" for p off
    using load64_same_outside [OF that so] by simp
  have ok: "page_ok KERNBASE ?pt"
    using al(3) by (simp add: page_ok_def) (simp add: PHYSTOP_def KERNBASE_def)
  have e: "ent ?m ?pt k = 0" if "k < 512" for k
    unfolding ent_def using that z [OF al(3) ne(2), of "8 * k"] by simp
  note E = empty_table [OF ok e]
  have "kmem_inv vm_example [KERNBASE, KERNBASE + 0x1000]"
    using z [OF al(2) ne(1), of 0] al
    by (auto simp: kmem_inv_def vm_example_def page_ok_def PHYSTOP_def KERNBASE_def)
  then show "vm_inv vm_example ?pt [KERNBASE, KERNBASE + 0x1000]"
    using E(1,2) by (simp add: vm_inv_def vm_example_def KERNBASE_def)
  show "leaf (mem vm_example) ?pt va = 0" using E(3) by (simp add: vm_example_def)
qed

text \<open>An address space with one user page at address 0: three tables and the page.\<close>

lemma px_0 [simp]: "px l 0 = 0"
  by (simp add: px_eq)

lemma PGROUNDDOWN_0 [simp]: "PGROUNDDOWN 0 = 0"
  by (simp add: PGROUNDDOWN_def)

lemma one_user_page:
  assumes ok: "\<forall>p \<in> {b0, b1, b2, b3}. page_ok e p" and d: "distinct [b0, b1, b2, b3]"
    and m1: "m1 = store64 (\<lambda>_. 0) b0 (PA2PTE b1 OR PTE_V)"
    and m2: "m2 = store64 m1 b1 (PA2PTE b2 OR PTE_V)" and m3: "m3 = store64 m2 b2 v"
  shows "pt_wf e m3 b0" and "tables m3 b0 = {b0, b1, b2}"
    and "va < MAXVA \<Longrightarrow> leaf m3 b0 va = (if PGROUNDDOWN va = 0 then v else 0)"
proof -
  have al: "page_aligned b0" "page_aligned b1" "page_aligned b2" using ok page_ok_aligned by blast+
  have e0: "ent (\<lambda>_. 0) p k = 0" for p k by (simp add: ent_def)
  note E = empty_table [OF _ e0, of e b0]
  have so1: "same_outside b0 (\<lambda>_. 0) m1"
    using store64_same_outside [OF al(1), of 0] by (simp add: m1)
  have L1: "pt_wf e m1 b0" "tables m1 b0 = insert b1 (tables (\<lambda>_. 0) b0)"
      "tabp m1 b0 ([] @ [0]) = Some b1" "leaf m1 b0 va = leaf (\<lambda>_. 0) b0 va" for va
    by (rule link_page [where p = "[]" and t = b0 and m = "\<lambda>_. 0" and z = "\<lambda>_. 0" and i = 0 and q = b1
          and e = e];
        use ok d E e0 in \<open>auto simp: m1 path_ok_def\<close>)+
  have z1: "ent m1 p k = 0" if "p \<in> {b1, b2}" "k < 512" for p k
    using ent_same_outside [of p b0 k, OF _ _ that(2) so1] that(1) al d e0 by auto
  have L2: "pt_wf e m2 b0" "tables m2 b0 = insert b2 (tables m1 b0)"
      "tabp m2 b0 ([0] @ [0]) = Some b2" "leaf m2 b0 va = leaf m1 b0 va" for va
    by (rule link_page [where p = "[0]" and t = b1 and m = m1 and z = m1 and i = 0 and q = b2
          and e = e];
        use ok d E L1 z1 in \<open>auto simp: m2 path_ok_def\<close>)+
  have sl: "slot m2 b0 0 = Some b2" using L2(3) by (simp add: slot_def)
  have "0 < MAXVA" by (simp add: MAXVA_def)
  note S = store_leaf [OF L2(1) sl this m3]
  show "pt_wf e m3 b0" "tables m3 b0 = {b0, b1, b2}"
    using pt_wf_tabp_cong [OF S(1)] L2(1,2) L1(2) E(2) ok by auto
  show "va < MAXVA \<Longrightarrow> leaf m3 b0 va = (if PGROUNDDOWN va = 0 then v else 0)"
    using S(2) [of va] L2(4) L1(4) E(3) ok by simp
qed

definition user_mem :: memory where
  "user_mem =
     store64 (store64 (store64 (\<lambda>_. 0) KERNBASE (PA2PTE (KERNBASE + 0x1000) OR PTE_V))
                      (KERNBASE + 0x1000) (PA2PTE (KERNBASE + 0x2000) OR PTE_V))
             (KERNBASE + 0x2000) (PA2PTE (KERNBASE + 0x3000) OR (PTE_V OR PTE_R OR PTE_W OR PTE_U))"

definition user_example :: kmem_state where
  "user_example = \<lparr>mem = user_mem, held = {}, freelist = 0, kend = KERNBASE\<rparr>"

lemma user_mem_ok:
  shows "pt_wf KERNBASE user_mem KERNBASE" and "user_ok user_mem KERNBASE"
    and "uwalk user_mem KERNBASE 0 = KERNBASE + 0x3000"
proof -
  let ?f = "PTE_V OR PTE_R OR PTE_W OR PTE_U"
  have ok: "\<forall>p \<in> {KERNBASE, KERNBASE + 0x1000, KERNBASE + 0x2000, KERNBASE + 0x3000}. page_ok KERNBASE p"
    by (simp add: page_ok_def page_aligned_def KERNBASE_def PHYSTOP_def)
  have d: "distinct [KERNBASE, KERNBASE + 0x1000, KERNBASE + 0x2000, KERNBASE + 0x3000]"
    by (simp add: KERNBASE_def)
  note U = one_user_page [OF ok d refl refl refl, where v = "PA2PTE (KERNBASE + 0x3000) OR ?f", folded user_mem_def]
  show "pt_wf KERNBASE user_mem KERNBASE" by (rule U(1))
  have "?f < 1024" by (simp add: PTE_V_def PTE_R_def PTE_W_def PTE_U_def)
  then have pa: "PTE2PA (PA2PTE (KERNBASE + 0x3000) OR ?f) = KERNBASE + 0x3000"
    using PTE2PA_PA2PTE [of ?f "KERNBASE + 0x3000"] PGROUNDDOWN_aligned ok page_ok_aligned by auto
  have w: "uwalk user_mem KERNBASE v =
      (if v < MAXVA \<and> PGROUNDDOWN v = 0 then KERNBASE + 0x3000 else 0)" for v
    using U(3) [of v] pa
    by (auto simp: uwalk_def Let_def PTE_V_def PTE_R_def PTE_W_def PTE_U_def PA2PTE_def KERNBASE_def)
  show "uwalk user_mem KERNBASE 0 = KERNBASE + 0x3000" by (simp add: w MAXVA_def)
  show "user_ok user_mem KERNBASE"
    unfolding user_ok_def U(2) w by (auto simp: KERNBASE_def split: if_splits)
qed

text \<open>
  C18: \<open>mappages\<close> on a range below \<open>MAXVA\<close> in which nothing is mapped returns, and maps every page
  of the range to the consecutive physical pages from \<open>pa\<close> on with the given permissions,
  leaving all other translations, and all memory but the table pages, as they were. It returns
  -1 only when the free list is exhausted, having then mapped a prefix of the range.
\<close>

theorem mappages_correct:
  fixes s :: "'z kmem_state_scheme"
  assumes "vm_inv s pt ps" and "0 < sz" and "unat va + unat sz \<le> unat MAXVA"
    and "\<forall>v < MAXVA. PGROUNDDOWN va \<le> v \<and> v < va + sz \<longrightarrow> \<not> valid (leaf (mem s) pt v)"
  shows "\<exists>r b (u :: 'z kmem_state_scheme) qs. mappages pt va sz pa perm s = Ret r u \<and>
           tables_only pt ps s qs u \<and> maps pt (mem s) (mem u) (PGROUNDDOWN va) b pa perm \<and>
           (r = 0 \<and> b = PGROUNDDOWN (va + sz - 1) + PGSIZE \<or>
            r = - 1 \<and> qs = [] \<and> PGROUNDDOWN va \<le> b \<and> b \<le> PGROUNDDOWN (va + sz - 1))"
proof -
  let ?a = "PGROUNDDOWN va" and ?e = "va + sz - 1"
  have sz: "0 < unat sz" using assms(2) by (simp add: word_less_nat_alt)
  have vs: "unat (va + sz) = unat va + unat sz"
    using assms(3) by (intro unat_plus_64) (simp add: unat_MAXVA)
  then have e: "unat ?e = unat va + unat sz - 1"
    using sz by (subst unat_sub) (simp_all add: word_le_nat_alt)
  define k where "k = unat ?e div 4096 - unat va div 4096"
  have le: "unat va div 4096 \<le> unat ?e div 4096" using e sz by (intro div_le_mono) simp
  have ak: "unat ?a + k * 4096 = unat (PGROUNDDOWN ?e)"
    using le by (simp add: unat_PGROUNDDOWN k_def algebra_simps)
  also have "\<dots> < unat MAXVA" using PGROUNDDOWN_le [of ?e] e sz assms(3) by linarith
  finally have lt: "unat ?a + k * 4096 < unat MAXVA" .
  have l: "PGROUNDDOWN ?e = ?a + of_nat k * PGSIZE"
  proof -
    have "unat (?a + of_nat (k * 4096)) = unat ?a + k * 4096"
      using lt by (intro unat_plus_nat_64) (simp add: unat_MAXVA)
    then have "PGROUNDDOWN ?e = ?a + of_nat (k * 4096)" using ak by (simp only: word_unat_eq_iff)
    then show ?thesis by simp
  qed
  have free: "\<not> valid (leaf (mem s) pt v)"
    if v: "v < MAXVA" "?a \<le> PGROUNDDOWN v" "PGROUNDDOWN v \<le> PGROUNDDOWN ?e" for v
  proof -
    have "unat (PGROUNDDOWN v) < unat (va + sz)"
      using v(3) PGROUNDDOWN_le [of ?e] e vs sz by (simp add: word_le_nat_alt)
    moreover have "PGROUNDDOWN v < MAXVA"
      using v(1) PGROUNDDOWN_le [of v] by (simp add: word_less_nat_alt)
    ultimately have "\<not> valid (leaf (mem s) pt (PGROUNDDOWN v))"
      using assms(4) v(2) by (simp add: word_less_nat_alt)
    then show ?thesis by (simp add: leaf_page)
  qed
  have "sz \<noteq> 0" using sz by auto
  then show ?thesis
    using mappages_loop_correct [OF assms(1) page_aligned_PGROUNDDOWN l lt] free
    by (simp add: mappages_def)
qed

theorem mappages_correct_witness:
  "\<exists>r b (u :: kmem_state) qs.
     mappages (KERNBASE + 0x2000) 0 PGSIZE KERNBASE PTE_R vm_example = Ret r u \<and>
     tables_only (KERNBASE + 0x2000) [KERNBASE, KERNBASE + 0x1000] vm_example qs u \<and>
     (r = 0 \<or> qs = [])"
proof -
  have "unat (0 :: u64) + unat PGSIZE \<le> unat MAXVA" by (simp add: unat_MAXVA)
  from mappages_correct [OF vm_example_ok(1) _ this, of KERNBASE PTE_R] show ?thesis
    by (auto simp: vm_example_ok(2))
qed

text \<open>
  C19: \<open>copyin\<close> returns 0 exactly when every byte of the range is mapped for the user, and then
  delivers exactly those bytes; otherwise it returns -1. It never changes the state.
\<close>

theorem copyin_correct:
  assumes "pt_wf KERNBASE (mem s) pt"
  shows "if umapped (mem s) pt va len
         then copyin pt va len s = Ret (0, ubytes (mem s) pt va len) s
         else \<exists>got. copyin pt va len s = Ret (- 1, got) s"
  using copyin_loop_correct [OF assms, of va len "[]"] by (simp add: copyin_def)

lemma user_example_ok:
  "pt_wf KERNBASE (mem user_example) KERNBASE" "user_ok (mem user_example) KERNBASE"
  "ubyte (mem user_example) KERNBASE 0 = Some (user_mem (KERNBASE + 0x3000))"
  "uwalk (mem user_example) KERNBASE 0 \<noteq> 0"
  using user_mem_ok
  by (simp_all add: user_example_def ubyte_def) (simp_all add: KERNBASE_def)

lemma user_mem_zero: "user_mem (KERNBASE + 0x3000) = 0"
  by (simp add: user_mem_def store64_def write_bytes_def KERNBASE_def)

theorem copyin_correct_witness: "copyin KERNBASE 0 1 user_example = Ret (0, [0]) user_example"
  using copyin_correct [OF user_example_ok(1), of 0 1] user_example_ok(3)
  by (simp add: umapped_def ubytes_def user_mem_zero)

text \<open>
  C20: \<open>copyinstr\<close> returns 0 exactly when a NUL-terminated string of fewer than \<open>max\<close> bytes
  stands at the address, and then delivers that string with its NUL; otherwise it returns -1.
\<close>

theorem copyinstr_correct:
  assumes "pt_wf KERNBASE (mem s) pt"
  shows "(\<exists>str. ucstr (mem s) pt va str \<and> length str < maxlen \<and>
            copyinstr pt va maxlen s = Ret (0, str @ [0]) s) \<or>
         (\<nexists>str. ucstr (mem s) pt va str \<and> length str < maxlen) \<and>
            (\<exists>got. copyinstr pt va maxlen s = Ret (- 1, got) s)"
  using copyinstr_loop_correct [OF assms, of va maxlen "[]"] by (simp add: copyinstr_def)

theorem copyinstr_correct_witness:
  "copyinstr KERNBASE 0 8 user_example = Ret (0, [0]) user_example"
proof -
  have s: "ucstr (mem user_example) KERNBASE 0 []"
    using user_example_ok(3) by (simp add: ucstr_def umapped_def ubytes_def user_mem_zero)
  then obtain str where "ucstr (mem user_example) KERNBASE 0 str"
      "copyinstr KERNBASE 0 8 user_example = Ret (0, str @ [0]) user_example"
    using copyinstr_correct [OF user_example_ok(1), of 0 8] by auto
  moreover from this have "str = []"
    using ucstr_unique_nul [of _ _ _ str 1] ucstr_unique_nul [OF s, of 1] s
    by (auto simp: ucstr_def)
  ultimately show ?thesis by simp
qed

text \<open>
  C21: \<open>copyout\<close> writes exactly the given bytes at the user address when all of the range is
  mapped and returns 0; otherwise it returns -1 having written the bytes before the first
  unmapped one. Page tables and all other memory stay as they were.
\<close>

theorem copyout_correct:
  fixes s :: "'z kmem_state_scheme"
  assumes "pt_wf KERNBASE (mem s) pt" and "user_ok (mem s) pt" and "length src < 2 ^ 64"
  shows "\<exists>m' n. copyout pt va src s = Ret (if n = length src then 0 else - 1) (s\<lparr>mem := m'\<rparr>) \<and>
           n \<le> length src \<and> umapped (mem s) pt va n \<and> uwrote pt (mem s) m' va (take n src) \<and>
           (n < length src \<longrightarrow> ubyte (mem s) pt (va + of_nat n) = None)"
  using copyout_writes [OF assms] .

theorem copyout_correct_witness:
  "\<exists>m'. copyout KERNBASE 0 [7, 8] user_example = Ret 0 (user_example\<lparr>mem := m'\<rparr>) \<and>
        ubyte m' KERNBASE 0 = Some 7 \<and> ubyte m' KERNBASE 1 = Some 8"
proof -
  let ?bs = "[7, 8] :: u8 list"
  have "length ?bs < 2 ^ 64" by simp
  from copyout_correct [OF user_example_ok(1,2) this, of 0]
  obtain m' n where c: "copyout KERNBASE 0 ?bs user_example =
        Ret (if n = length ?bs then 0 else - 1) (user_example\<lparr>mem := m'\<rparr>)"
      "n \<le> length ?bs" "uwrote KERNBASE (mem user_example) m' 0 (take n ?bs)"
      "n < length ?bs \<longrightarrow> ubyte (mem user_example) KERNBASE (0 + of_nat n) = None"
    by blast
  have "PGROUNDDOWN (of_nat k) = 0" if "k < 2" for k
    using that page_offset [of 0 k] by (simp add: page_aligned_def)
  then have "ubyte (mem user_example) KERNBASE (of_nat k) \<noteq> None" if "k < 2" for k
    using that user_example_ok(4) by (simp add: ubyte_def)
  then have "\<not> n < 2" using c(4) by force
  then have "n = 2" using c(2) by simp
  then show ?thesis using c(1,3) by (auto simp: uwrote_def)
qed

end
