(* ===== verification/Kframe.thy ===== *)
theory Kframe
  imports Vm
begin

text \<open>
  The footprint of the memory layer: every function of \<open>kalloc.c\<close> and \<open>vm.c\<close> changes physical
  memory and the free list only, returns with the locks it was called with, and never enters the
  scheduler. Components above use this to see that their own state is untouched.
\<close>

abbreviation kpart :: "'z kmem_state_scheme \<Rightarrow> 'z kmem_state_scheme \<Rightarrow> bool" where
  "kpart s t \<equiv> t = s\<lparr>mem := mem t, freelist := freelist t\<rparr>"

definition konly :: "('z kmem_state_scheme, 'a) prog \<Rightarrow> bool" where
  "konly m \<longleftrightarrow> (\<forall>s a t. m s = Ret a t \<longrightarrow> kpart s t) \<and> (\<forall>s t. m s \<noteq> Switch t)"

lemma konlyD: "konly m \<Longrightarrow> m s = Ret a t \<Longrightarrow> kpart s t"
  by (simp add: konly_def)

lemma konly_not_Switch: "konly m \<Longrightarrow> m s \<noteq> Switch t"
  by (simp add: konly_def)

lemma konlyI: "(\<And>s a t. m s = Ret a t \<Longrightarrow> kpart s t) \<Longrightarrow> (\<And>s t. m s \<noteq> Switch t) \<Longrightarrow> konly m"
  by (simp add: konly_def)

lemma konly_chain:
  assumes "kpart s t" and "kpart t u"
  shows "kpart s u"
proof -
  have "u = (s\<lparr>mem := mem t, freelist := freelist t\<rparr>)\<lparr>mem := mem u, freelist := freelist u\<rparr>"
    using assms by metis
  then show ?thesis by simp
qed

lemma konly_bindp: "konly m \<Longrightarrow> (\<And>a. konly (f a)) \<Longrightarrow> konly (bindp m f)"
proof (rule konlyI)
  fix s b u
  assume m: "konly m" and f: "\<And>a. konly (f a)" and "bindp m f s = Ret b u"
  then obtain a t where "m s = Ret a t" "f a t = Ret b u" by (auto simp: bindp_eq_Ret)
  then show "kpart s u" using konlyD [OF m] konlyD [OF f] konly_chain by blast
next
  fix s t
  assume "konly m" and "\<And>a. konly (f a)"
  then show "bindp m f s \<noteq> Switch t" by (auto simp: bindp_def konly_def split: outcome.splits)
qed

lemma konly_seqp: "konly m \<Longrightarrow> konly n \<Longrightarrow> konly (seqp m n)"
  by (simp add: seqp_def konly_bindp)

lemma konly_basic:
  "konly (ret a)" "konly (panic msg)" "konly (gets f)"
  "konly (modify (\<lambda>s. s\<lparr>mem := g s\<rparr>))" "konly (\<lambda>s. Diverge)"
  by (rule konlyI; simp)+

lemma konly_whenp: "konly m \<Longrightarrow> konly (whenp b m)"
  by (simp add: whenp_def konly_basic)

lemma konly_block: "(\<And>c. c \<in> set cs \<Longrightarrow> konly c) \<Longrightarrow> konly (block cs)"
  by (induction cs) (simp_all add: konly_basic konly_seqp)

lemma konly_if: "(b \<Longrightarrow> konly m) \<Longrightarrow> (\<not> b \<Longrightarrow> konly n) \<Longrightarrow> konly (if b then m else n)"
  by simp

lemmas konly_intros = konly_bindp konly_seqp konly_whenp konly_if konly_basic

lemma konly_kalloc: "konly kalloc"
  by (rule konlyI)
    (auto simp: kalloc_def prog_simps lock_acquire_def lock_release_def insert_absorb
      split: outcome.splits if_splits)

lemma konly_kfree: "konly (kfree pa)"
  by (rule konlyI)
    (auto simp: kfree_def prog_simps lock_acquire_def lock_release_def
      split: outcome.splits if_splits)

lemma konly_pte: "konly (fill_page p c)" "konly (load_pte a)" "konly (store_pte a v)"
  by (simp_all add: fill_page_def load_pte_def store_pte_def konly_basic)

lemma konly_walk_from: "konly (walk_from l pt va alloc)"
  by (induction l arbitrary: pt) (auto simp: Let_def intro!: konly_intros konly_pte konly_kalloc)

lemma konly_walk: "konly (walk pt va alloc)"
  by (simp add: walk_def konly_basic konly_walk_from)

lemma konly_walkaddr: "konly (walkaddr pt va)"
  by (auto simp: walkaddr_def intro!: konly_intros konly_pte konly_walk)

text \<open>
  Loops are written on the outcome of their body, so they need the footprint of one outcome.
\<close>

definition kok :: "'z kmem_state_scheme \<Rightarrow> ('z kmem_state_scheme, 'a) outcome \<Rightarrow> bool" where
  "kok s r \<longleftrightarrow> (\<forall>a t. r = Ret a t \<longrightarrow> kpart s t) \<and> (\<forall>t. r \<noteq> Switch t)"

lemma konly_iff_kok: "konly m \<longleftrightarrow> (\<forall>s. kok s (m s))"
  by (auto simp: konly_def kok_def)

lemma kok_konly: "konly m \<Longrightarrow> kok s (m s)"
  by (simp add: konly_iff_kok)

lemma kok_basic: "kok s (Ret a s)" "kok s (Panic msg)" "kok s Diverge"
  by (simp_all add: kok_def)

lemma kok_if: "(b \<Longrightarrow> kok s x) \<Longrightarrow> (\<not> b \<Longrightarrow> kok s y) \<Longrightarrow> kok s (if b then x else y)"
  by simp

lemma kok_chain: "kpart s t \<Longrightarrow> kok t r \<Longrightarrow> kok s r"
  unfolding kok_def using konly_chain by blast

lemma kok_mem: "kok (t\<lparr>mem := m\<rparr>) r \<Longrightarrow> kok t r"
  by (rule kok_chain [where t = "t\<lparr>mem := m\<rparr>"]) simp_all

lemma kok_Ret_mem: "kok s (Ret a (s\<lparr>mem := m\<rparr>))"
  by (simp add: kok_def)

lemma kok_case:
  assumes "konly m" and "\<And>a t. m s = Ret a t \<Longrightarrow> kok t (f a t)"
  shows "kok s (case m s of Ret a t \<Rightarrow> f a t | Panic msg \<Rightarrow> Panic msg
                          | Switch t \<Rightarrow> Switch t | Diverge \<Rightarrow> Diverge)"
proof (cases "m s")
  case (Ret a t)
  then show ?thesis using kok_chain [OF konlyD [OF assms(1) Ret] assms(2) [OF Ret]] by simp
qed (simp_all add: kok_basic konly_not_Switch [OF assms(1)])

lemmas kok_intros = kok_case kok_if kok_basic

lemma konly_mappages_loop: "konly (mappages_loop pt a l pa perm)"
  unfolding konly_iff_kok
proof
  fix s show "kok s (mappages_loop pt a l pa perm s)"
    by (induction pt a l pa perm s rule: mappages_loop.induct, subst mappages_loop.simps)
      (auto simp: Let_def intro!: kok_intros konly_walk kok_Ret_mem, rule kok_mem, blast)
qed

lemma konly_mappages: "konly (mappages pt va n pa perm)"
  by (simp add: mappages_def konly_basic konly_mappages_loop)

lemma konly_kvmmap: "konly (kvmmap pt va pa n perm)"
  by (auto simp: kvmmap_def intro!: konly_intros konly_mappages)

lemma konly_unmap_page: "konly (unmap_page pt a do_free)"
  by (auto simp: unmap_page_def intro!: konly_intros konly_walk konly_pte konly_kfree)

lemma konly_uvmunmap_loop: "konly (uvmunmap_loop pt a stop do_free)"
  unfolding konly_iff_kok
proof
  fix s show "kok s (uvmunmap_loop pt a stop do_free s)"
    by (induction pt a stop do_free s rule: uvmunmap_loop.induct, subst uvmunmap_loop.simps)
      (auto intro!: kok_intros konly_unmap_page)
qed

lemma konly_uvmunmap: "konly (uvmunmap pt va n do_free)"
  by (simp add: uvmunmap_def konly_basic konly_uvmunmap_loop)

lemma konly_uvmdealloc: "konly (uvmdealloc pt a b)"
  by (auto simp: uvmdealloc_def Let_def intro!: konly_intros konly_uvmunmap)

lemma konly_uvmcreate: "konly uvmcreate"
  by (auto simp: uvmcreate_def intro!: konly_intros konly_kalloc konly_pte)

lemma konly_uvmalloc_page: "konly (uvmalloc_page pt a oldsz xperm)"
  by (auto simp: uvmalloc_page_def
      intro!: konly_intros konly_kalloc konly_kfree konly_pte konly_mappages konly_uvmdealloc)

lemma konly_uvmalloc_loop: "konly (uvmalloc_loop pt a oldsz newsz xperm)"
  unfolding konly_iff_kok
proof
  fix s show "kok s (uvmalloc_loop pt a oldsz newsz xperm s)"
    by (induction pt a oldsz newsz xperm s rule: uvmalloc_loop.induct, subst uvmalloc_loop.simps)
      (auto intro!: kok_intros konly_uvmalloc_page)
qed

lemma konly_uvmalloc: "konly (uvmalloc pt a b xperm)"
  by (simp add: uvmalloc_def konly_basic konly_uvmalloc_loop)

lemma konly_freewalk: "konly (freewalk d pt)"
  by (induction d arbitrary: pt)
    (auto intro!: konly_intros konly_block konly_pte konly_kfree)

lemma konly_uvmfree: "konly (uvmfree pt n)"
  by (auto simp: uvmfree_def intro!: konly_intros konly_uvmunmap konly_freewalk)

lemma konly_uvmcopy_page: "konly (uvmcopy_page old new i)"
  by (auto simp: uvmcopy_page_def Let_def
      intro!: konly_intros konly_walk konly_kalloc konly_kfree konly_pte konly_mappages)

lemma konly_uvmcopy_loop: "konly (uvmcopy_loop old new i n)"
  unfolding konly_iff_kok
proof
  fix s show "kok s (uvmcopy_loop old new i n s)"
    by (induction old new i n s rule: uvmcopy_loop.induct, subst uvmcopy_loop.simps)
      (auto intro!: kok_intros konly_uvmcopy_page kok_konly [OF konly_seqp [OF konly_uvmunmap]]
        konly_basic)
qed

lemma konly_copyout: "konly (copyout pt va src)"
  unfolding konly_iff_kok
proof
  fix s show "kok s (copyout pt va src s)"
    by (induction pt va src s rule: copyout.induct, subst copyout.simps)
      (auto simp: Let_def intro!: kok_intros konly_walkaddr, rule kok_mem, blast)
qed

lemma konly_copyin_loop: "konly (copyin_loop pt va len dst)"
  unfolding konly_iff_kok
proof
  fix s show "kok s (copyin_loop pt va len dst s)"
    by (induction pt va len dst s rule: copyin_loop.induct, subst copyin_loop.simps)
      (auto simp: Let_def intro!: kok_intros konly_walkaddr)
qed

lemma konly_copyinstr_loop: "konly (copyinstr_loop pt va n dst)"
  unfolding konly_iff_kok
proof
  fix s show "kok s (copyinstr_loop pt va n dst s)"
    by (induction pt va n dst s rule: copyinstr_loop.induct, subst copyinstr_loop.simps)
      (auto simp: Let_def intro!: kok_intros konly_walkaddr split: prod.split bool.split)
qed

lemmas konly_vm = konly_kalloc konly_kfree konly_pte konly_walk konly_walkaddr konly_mappages
  konly_kvmmap konly_uvmunmap konly_uvmdealloc konly_uvmcreate konly_uvmalloc konly_uvmfree
  konly_uvmcopy_loop [of _ _ 0, folded uvmcopy_def] konly_copyout
  konly_copyin_loop [of _ _ _ "[]", folded copyin_def]
  konly_copyinstr_loop [of _ _ _ "[]", folded copyinstr_def]

end
