(* ===== verification/Proc.thy ===== *)
theory Proc
  imports Addrspace Kframe
begin

text \<open>
  \<open>kernel/proc.c\<close>: the process table, allocation and release of processes, sleep and wakeup,
  kill and wait, and the steps of the scheduler. A \<open>struct proc *\<close> is an index into the
  table, a null pointer is \<open>None\<close>; dereferencing a null pointer traps in the kernel, which
  \<open>kerneltrap\<close> turns into a panic. The view is that of one hart: \<open>curproc\<close> is
  \<open>mycpu()->proc\<close>, and \<open>mycpu()->noff\<close> is the number of spinlocks it holds.

  \<open>swtch\<close> to the scheduler ends a run with the outcome \<open>Switch\<close>. What a thread does when the
  scheduler switches back to it is a separate definition, whose name ends in \<open>_resume\<close>.
  \<open>fork\<close>, \<open>exit\<close>, \<open>userinit\<close> and \<open>forkret\<close> use the file system and come after it.
\<close>

section \<open>The process table\<close>

datatype procstate = UNUSED | USED | SLEEPING | RUNNABLE | RUNNING | ZOMBIE

record ctx =
  ra :: u64
  sp :: u64
  saved :: "u64 list"

record proc =
  pstate :: procstate
  pchan :: chan
  pkilled :: u32
  xstate :: u32
  pid :: u32
  parent :: "nat option"
  kstack :: u64
  psz :: u64
  pagetable :: u64
  trapframe :: u64
  pctx :: ctx
  ofile :: "nat option list"
  cwd :: "nat option"
  pname :: cobj

record proc_state = vm_state +
  procs :: "nat \<Rightarrow> proc"
  initproc :: "nat option"
  nextpid :: u32
  curproc :: "nat option"
  forkret_addr :: u64

definition getp :: "nat \<Rightarrow> (proc \<Rightarrow> 'a) \<Rightarrow> ('z proc_state_scheme, 'a) prog" where
  "getp i f = gets (\<lambda>s. f (procs s i))"

definition setp :: "nat \<Rightarrow> (proc \<Rightarrow> proc) \<Rightarrow> ('z proc_state_scheme, unit) prog" where
  "setp i f = modify (\<lambda>s. s\<lparr>procs := (procs s)(i := f (procs s i))\<rparr>)"

definition myproc :: "('z proc_state_scheme, nat option) prog" where
  "myproc = gets curproc"

text \<open>\<open>p = myproc()\<close> followed by code that dereferences \<open>p\<close>.\<close>

definition with_proc :: "(nat \<Rightarrow> ('z proc_state_scheme, 'a) prog) \<Rightarrow> ('z proc_state_scheme, 'a) prog"
  where
  "with_proc f = bindp myproc (\<lambda>p. case p of None \<Rightarrow> panic ''kerneltrap'' | Some i \<Rightarrow> f i)"

definition procinit :: "('z proc_state_scheme, unit) prog" where
  "procinit =
     block ([lock_init LPid, lock_init LWait] @
       map (\<lambda>i. block
         [lock_init (LProc i),
          setp i (\<lambda>p. p\<lparr>pstate := UNUSED\<rparr>),
          setp i (\<lambda>p. p\<lparr>kstack := KSTACK i\<rparr>)]) [0..<NPROC])"

definition allocpid :: "('z proc_state_scheme, u32) prog" where
  "allocpid =
     seqp (lock_acquire LPid) (
     bindp (gets nextpid) (\<lambda>pid.
     seqp (modify (\<lambda>s. s\<lparr>nextpid := nextpid s + 1\<rparr>)) (
     seqp (lock_release LPid) (
     ret pid))))"

section \<open>Page tables of processes\<close>

definition proc_pagetable :: "nat \<Rightarrow> ('z proc_state_scheme, u64) prog" where
  "proc_pagetable i =
     bindp uvmcreate (\<lambda>pt.
     if pt = 0 then ret 0 else
     bindp (gets trampoline) (\<lambda>tramp.
     bindp (mappages pt TRAMPOLINE PGSIZE tramp (PTE_R OR PTE_X)) (\<lambda>r.
     if r < 0 then seqp (uvmfree pt 0) (ret 0) else
     bindp (getp i trapframe) (\<lambda>tf.
     bindp (mappages pt TRAPFRAME PGSIZE tf (PTE_R OR PTE_W)) (\<lambda>r.
     if r < 0
     then seqp (uvmunmap pt TRAMPOLINE 1 False) (seqp (uvmfree pt 0) (ret 0))
     else ret pt)))))"

definition proc_freepagetable :: "u64 \<Rightarrow> u64 \<Rightarrow> ('z proc_state_scheme, unit) prog" where
  "proc_freepagetable pt sz =
     block
      [uvmunmap pt TRAMPOLINE 1 False,
       uvmunmap pt TRAPFRAME 1 False,
       uvmfree pt sz]"

section \<open>Allocating and freeing processes\<close>

definition freeproc :: "nat \<Rightarrow> ('z proc_state_scheme, unit) prog" where
  "freeproc i =
     bindp (getp i trapframe) (\<lambda>tf.
     seqp (whenp (tf \<noteq> 0) (kfree tf)) (
     seqp (setp i (\<lambda>p. p\<lparr>trapframe := 0\<rparr>)) (
     bindp (getp i pagetable) (\<lambda>pt.
     bindp (getp i psz) (\<lambda>sz.
     seqp (whenp (pt \<noteq> 0) (proc_freepagetable pt sz)) (
     setp i (\<lambda>p. p\<lparr>pagetable := 0, psz := 0, pid := 0, parent := None,
                   pname := (pname p)(0 := 0), pchan := NoChan, pkilled := 0, xstate := 0,
                   pstate := UNUSED\<rparr>)))))))"

text \<open>The loop of \<open>allocproc\<close> over the table; it leaves with the lock of the slot it found.\<close>

fun find_unused :: "nat list \<Rightarrow> ('z proc_state_scheme, nat option) prog" where
  "find_unused [] = ret None"
| "find_unused (i # is) =
     seqp (lock_acquire (LProc i)) (
     bindp (getp i pstate) (\<lambda>st.
     if st = UNUSED then ret (Some i)
     else seqp (lock_release (LProc i)) (find_unused is)))"

text \<open>The code after the label \<open>found\<close>, in two parts: before and after the trapframe page is there.\<close>

definition alloc_pagetable :: "nat \<Rightarrow> ('z proc_state_scheme, nat option) prog" where
  "alloc_pagetable i =
     bindp (proc_pagetable i) (\<lambda>pt.
     seqp (setp i (\<lambda>p. p\<lparr>pagetable := pt\<rparr>)) (
     if pt = 0
     then seqp (freeproc i) (seqp (lock_release (LProc i)) (ret None))
     else
     bindp (gets forkret_addr) (\<lambda>fr.
     seqp (setp i (\<lambda>p. p\<lparr>pctx := \<lparr>ra = fr, sp = kstack p + PGSIZE, saved = replicate 12 0\<rparr>\<rparr>)) (
     ret (Some i)))))"

definition alloc_found :: "nat \<Rightarrow> ('z proc_state_scheme, nat option) prog" where
  "alloc_found i =
     bindp allocpid (\<lambda>n.
     seqp (setp i (\<lambda>p. p\<lparr>pid := n\<rparr>)) (
     seqp (setp i (\<lambda>p. p\<lparr>pstate := USED\<rparr>)) (
     bindp kalloc (\<lambda>tf.
     seqp (setp i (\<lambda>p. p\<lparr>trapframe := tf\<rparr>)) (
     if tf = 0
     then seqp (freeproc i) (seqp (lock_release (LProc i)) (ret None))
     else alloc_pagetable i)))))"

definition allocproc :: "('z proc_state_scheme, nat option) prog" where
  "allocproc =
     bindp (find_unused [0..<NPROC]) (\<lambda>found.
     case found of None \<Rightarrow> ret None | Some i \<Rightarrow> alloc_found i)"

definition growproc :: "u32 \<Rightarrow> ('z proc_state_scheme, int) prog" where
  "growproc n =
     with_proc (\<lambda>i.
     bindp (getp i psz) (\<lambda>sz.
     bindp (getp i pagetable) (\<lambda>pt.
     if sint n > 0 then
       bindp (uvmalloc pt sz (sz + scast n) PTE_W) (\<lambda>sz'.
       if sz' = 0 then ret (- 1)
       else seqp (setp i (\<lambda>p. p\<lparr>psz := sz'\<rparr>)) (ret 0))
     else if sint n < 0 then
       bindp (uvmdealloc pt sz (sz + scast n)) (\<lambda>sz'.
       seqp (setp i (\<lambda>p. p\<lparr>psz := sz'\<rparr>)) (ret 0))
     else seqp (setp i (\<lambda>p. p\<lparr>psz := sz\<rparr>)) (ret 0))))"

section \<open>Giving up the CPU\<close>

definition sched :: "('z proc_state_scheme, 'a) prog" where
  "sched =
     with_proc (\<lambda>i.
     bindp (gets held) (\<lambda>h.
     if LProc i \<notin> h then panic ''sched p->lock''
     else if card h \<noteq> 1 then panic ''sched locks''
     else bindp (getp i pstate) (\<lambda>st.
     if st = RUNNING then panic ''sched running''
     else (\<lambda>s. Switch s))))"

definition yield :: "('z proc_state_scheme, unit) prog" where
  "yield =
     with_proc (\<lambda>i.
     block
      [lock_acquire (LProc i),
       setp i (\<lambda>p. p\<lparr>pstate := RUNNABLE\<rparr>),
       sched])"

definition yield_resume :: "('z proc_state_scheme, unit) prog" where
  "yield_resume = with_proc (\<lambda>i. lock_release (LProc i))"

definition sleep :: "chan \<Rightarrow> lockid \<Rightarrow> ('z proc_state_scheme, 'a) prog" where
  "sleep ch lk =
     with_proc (\<lambda>i.
     seqp (block
      [lock_acquire (LProc i),
       lock_release lk,
       setp i (\<lambda>p. p\<lparr>pchan := ch\<rparr>),
       setp i (\<lambda>p. p\<lparr>pstate := SLEEPING\<rparr>)]) sched)"

definition sleep_resume :: "lockid \<Rightarrow> ('z proc_state_scheme, unit) prog" where
  "sleep_resume lk =
     with_proc (\<lambda>i.
     block
      [setp i (\<lambda>p. p\<lparr>pchan := NoChan\<rparr>),
       lock_release (LProc i),
       lock_acquire lk])"

section \<open>Waking and killing\<close>

definition wakeup_slot :: "chan \<Rightarrow> nat \<Rightarrow> ('z proc_state_scheme, unit) prog" where
  "wakeup_slot ch i =
     bindp myproc (\<lambda>me.
     whenp (Some i \<noteq> me)
      (block
        [lock_acquire (LProc i),
         bindp (getp i (\<lambda>p. pstate p = SLEEPING \<and> pchan p = ch)) (\<lambda>b.
           whenp b (setp i (\<lambda>p. p\<lparr>pstate := RUNNABLE\<rparr>))),
         lock_release (LProc i)]))"

definition wakeup :: "chan \<Rightarrow> ('z proc_state_scheme, unit) prog" where
  "wakeup ch = block (map (wakeup_slot ch) [0..<NPROC])"

fun kill_loop :: "u32 \<Rightarrow> nat list \<Rightarrow> ('z proc_state_scheme, int) prog" where
  "kill_loop n [] = ret (- 1)"
| "kill_loop n (i # is) =
     seqp (lock_acquire (LProc i)) (
     bindp (getp i pid) (\<lambda>q.
     if q = n then
       seqp (setp i (\<lambda>p. p\<lparr>pkilled := 1\<rparr>)) (
       bindp (getp i pstate) (\<lambda>st.
       seqp (whenp (st = SLEEPING) (setp i (\<lambda>p. p\<lparr>pstate := RUNNABLE\<rparr>))) (
       seqp (lock_release (LProc i)) (
       ret 0))))
     else seqp (lock_release (LProc i)) (kill_loop n is)))"

definition kill :: "u32 \<Rightarrow> ('z proc_state_scheme, int) prog" where
  "kill n = kill_loop n [0..<NPROC]"

definition setkilled :: "nat \<Rightarrow> ('z proc_state_scheme, unit) prog" where
  "setkilled i =
     block
      [lock_acquire (LProc i),
       setp i (\<lambda>p. p\<lparr>pkilled := 1\<rparr>),
       lock_release (LProc i)]"

definition killed :: "nat \<Rightarrow> ('z proc_state_scheme, u32) prog" where
  "killed i =
     seqp (lock_acquire (LProc i)) (
     bindp (getp i pkilled) (\<lambda>k.
     seqp (lock_release (LProc i)) (
     ret k)))"

definition reparent :: "nat \<Rightarrow> ('z proc_state_scheme, unit) prog" where
  "reparent i =
     block (map (\<lambda>j.
       bindp (getp j parent) (\<lambda>pp.
       whenp (pp = Some i)
         (bindp (gets initproc) (\<lambda>ip.
          seqp (setp j (\<lambda>p. p\<lparr>parent := ip\<rparr>))
               (wakeup (case ip of None \<Rightarrow> NoChan | Some k \<Rightarrow> ChProc k)))))) [0..<NPROC])"

text \<open>
  The end of \<open>exit\<close>, from \<open>acquire(&wait_lock)\<close> on: what the exiting process does once its files
  are closed.
\<close>

definition exit_tail :: "u32 \<Rightarrow> ('z proc_state_scheme, unit) prog" where
  "exit_tail status =
     with_proc (\<lambda>i.
     block
      [lock_acquire LWait,
       reparent i,
       bindp (getp i parent) (\<lambda>pp. wakeup (case pp of None \<Rightarrow> NoChan | Some k \<Rightarrow> ChProc k)),
       lock_acquire (LProc i),
       setp i (\<lambda>p. p\<lparr>xstate := status\<rparr>),
       setp i (\<lambda>p. p\<lparr>pstate := ZOMBIE\<rparr>),
       lock_release LWait,
       sched,
       panic ''zombie exit''])"

section \<open>wait\<close>

text \<open>Reaping the exited child \<open>j\<close>, whose lock is held.\<close>

definition wait_reap :: "nat \<Rightarrow> u64 \<Rightarrow> nat \<Rightarrow> ('z proc_state_scheme, int) prog" where
  "wait_reap i addr j =
     bindp (getp j pid) (\<lambda>n.
     bindp (getp i pagetable) (\<lambda>pt.
     bindp (getp j xstate) (\<lambda>x.
     bindp (if addr \<noteq> 0 then copyout pt addr (le_bytes 4 x) else ret 0) (\<lambda>r.
     if addr \<noteq> 0 \<and> r < 0 then
       seqp (lock_release (LProc j)) (seqp (lock_release LWait) (ret (- 1)))
     else
       seqp (freeproc j) (
       seqp (lock_release (LProc j)) (
       seqp (lock_release LWait) (
       ret (sint n))))))))"

text \<open>The scan for an exited child: \<open>Inl\<close> is the value \<open>wait\<close> returns, \<open>Inr\<close> is \<open>havekids\<close>.\<close>

fun wait_scan :: "nat \<Rightarrow> u64 \<Rightarrow> nat list \<Rightarrow> bool \<Rightarrow> ('z proc_state_scheme, int + bool) prog" where
  "wait_scan i addr [] havekids = ret (Inr havekids)"
| "wait_scan i addr (j # js) havekids =
     bindp (getp j parent) (\<lambda>pp.
     if pp = Some i then
       seqp (lock_acquire (LProc j)) (
       bindp (getp j pstate) (\<lambda>st.
       if st = ZOMBIE then bindp (wait_reap i addr j) (\<lambda>v. ret (Inl v))
       else seqp (lock_release (LProc j)) (wait_scan i addr js True)))
     else wait_scan i addr js havekids)"

definition wait_loop :: "nat \<Rightarrow> u64 \<Rightarrow> ('z proc_state_scheme, int) prog" where
  "wait_loop i addr =
     bindp (wait_scan i addr [0..<NPROC] False) (\<lambda>r.
     case r of Inl v \<Rightarrow> ret v
     | Inr havekids \<Rightarrow>
         bindp (if havekids then killed i else ret 0) (\<lambda>k.
         if \<not> havekids \<or> k \<noteq> 0 then seqp (lock_release LWait) (ret (- 1))
         else sleep (ChProc i) LWait))"

definition wait :: "u64 \<Rightarrow> ('z proc_state_scheme, int) prog" where
  "wait addr = with_proc (\<lambda>i. seqp (lock_acquire LWait) (wait_loop i addr))"

definition wait_resume :: "u64 \<Rightarrow> ('z proc_state_scheme, int) prog" where
  "wait_resume addr = with_proc (\<lambda>i. seqp (sleep_resume LWait) (wait_loop i addr))"

section \<open>The scheduler\<close>

text \<open>
  The body of the loop of \<open>scheduler\<close> for one slot: up to \<open>swtch\<close>, with the result \<open>True\<close> when
  it switches to the process, and what follows when the process has switched back.
\<close>

definition scheduler_step :: "nat \<Rightarrow> ('z proc_state_scheme, bool) prog" where
  "scheduler_step i =
     seqp (lock_acquire (LProc i)) (
     bindp (getp i pstate) (\<lambda>st.
     if st = RUNNABLE then
       seqp (setp i (\<lambda>p. p\<lparr>pstate := RUNNING\<rparr>)) (
       seqp (modify (\<lambda>s. s\<lparr>curproc := Some i\<rparr>)) (
       ret True))
     else seqp (lock_release (LProc i)) (ret False)))"

definition scheduler_resume :: "nat \<Rightarrow> ('z proc_state_scheme, unit) prog" where
  "scheduler_resume i =
     block
      [modify (\<lambda>s. s\<lparr>curproc := None\<rparr>),
       lock_release (LProc i)]"

section \<open>Copying to a user or kernel address\<close>

definition either_copyout :: "bool \<Rightarrow> u64 \<Rightarrow> u8 list \<Rightarrow> ('z proc_state_scheme, int) prog" where
  "either_copyout user_dst dst src =
     with_proc (\<lambda>i.
     if user_dst then bindp (getp i pagetable) (\<lambda>pt. copyout pt dst src)
     else seqp (modify (\<lambda>s. s\<lparr>mem := write_bytes (mem s) dst src\<rparr>)) (ret 0))"

definition either_copyin ::
    "bool \<Rightarrow> u64 \<Rightarrow> nat \<Rightarrow> ('z proc_state_scheme, int \<times> u8 list) prog" where
  "either_copyin user_src src len =
     with_proc (\<lambda>i.
     if user_src then bindp (getp i pagetable) (\<lambda>pt. copyin pt src len)
     else gets (\<lambda>s. (0, read_bytes (mem s) src len)))"

section \<open>Running the table operations\<close>

lemma getp_apply [simp, prog_simps]: "getp i f s = Ret (f (procs s i)) s"
  by (simp add: getp_def)

lemma setp_apply [simp, prog_simps]:
  "setp i f s = Ret () (s\<lparr>procs := (procs s)(i := f (procs s i))\<rparr>)"
  by (simp add: setp_def)

lemma myproc_apply [simp, prog_simps]: "myproc s = Ret (curproc s) s"
  by (simp add: myproc_def)

lemma with_proc_apply [prog_simps]:
  "with_proc f s = (case curproc s of None \<Rightarrow> Panic ''kerneltrap'' | Some i \<Rightarrow> f i s)"
  by (simp add: with_proc_def prog_simps split: option.splits)

lemma sleep_apply:
  assumes "curproc s = Some i" and "held s = {lk}" and "lk \<noteq> LProc i"
  shows "sleep ch lk s = Switch (s\<lparr>held := {LProc i},
           procs := (procs s)(i := (procs s i)\<lparr>pchan := ch, pstate := SLEEPING\<rparr>)\<rparr>)"
proof -
  have "insert (LProc i) {lk} - {lk} = {LProc i}" using assms(3) by auto
  then show ?thesis using assms by (simp add: sleep_def sched_def prog_simps)
qed

lemma sleep_resume_apply:
  assumes "curproc s = Some i" and "held s = {LProc i}" and "lk \<noteq> LProc i"
  shows "sleep_resume lk s = Ret () (s\<lparr>held := {lk},
           procs := (procs s)(i := (procs s i)\<lparr>pchan := NoChan\<rparr>)\<rparr>)"
  using assms by (simp add: sleep_resume_def prog_simps)

text \<open>What \<open>wakeup\<close> does to the table.\<close>

definition awake :: "nat option \<Rightarrow> chan \<Rightarrow> nat \<Rightarrow> proc \<Rightarrow> proc" where
  "awake me ch i p =
     (if Some i \<noteq> me \<and> pstate p = SLEEPING \<and> pchan p = ch then p\<lparr>pstate := RUNNABLE\<rparr> else p)"

lemma wakeup_slot_apply:
  assumes "Some i \<noteq> curproc s \<Longrightarrow> LProc i \<notin> held s"
  shows "wakeup_slot ch i s = Ret () (s\<lparr>procs := (procs s)(i := awake (curproc s) ch i (procs s i))\<rparr>)"
  using assms by (auto simp: wakeup_slot_def prog_simps awake_def)

lemma wakeup_list_apply:
  assumes "distinct is" and "\<forall>i \<in> set is. Some i \<noteq> curproc s \<longrightarrow> LProc i \<notin> held s"
  shows "block (map (wakeup_slot ch) is) s =
    Ret () (s\<lparr>procs := (\<lambda>i. if i \<in> set is then awake (curproc s) ch i (procs s i) else procs s i)\<rparr>)"
  using assms
proof (induction "is" arbitrary: s)
  case Nil
  then show ?case by simp
next
  case (Cons i js)
  let ?t = "s\<lparr>procs := (procs s)(i := awake (curproc s) ch i (procs s i))\<rparr>"
  have step: "wakeup_slot ch i s = Ret () ?t"
    using Cons.prems by (intro wakeup_slot_apply) auto
  have "block (map (wakeup_slot ch) js) ?t = Ret () (?t\<lparr>procs :=
      (\<lambda>j. if j \<in> set js then awake (curproc ?t) ch j (procs ?t j) else procs ?t j)\<rparr>)"
    using Cons.prems by (intro Cons.IH) auto
  moreover have "(\<lambda>j. if j \<in> set js then awake (curproc ?t) ch j (procs ?t j) else procs ?t j) =
      (\<lambda>j. if j \<in> set (i # js) then awake (curproc s) ch j (procs s j) else procs s j)"
    using Cons.prems(1) by (auto simp: fun_eq_iff)
  ultimately show ?case by (simp add: prog_simps step)
qed

lemma wakeup_apply:
  assumes "\<forall>i < NPROC. Some i \<noteq> curproc s \<longrightarrow> LProc i \<notin> held s"
  shows "wakeup ch s =
    Ret () (s\<lparr>procs := (\<lambda>i. if i < NPROC then awake (curproc s) ch i (procs s i) else procs s i)\<rparr>)"
  unfolding wakeup_def using assms by (subst wakeup_list_apply) auto

text \<open>Only process locks matter to \<open>wakeup\<close>.\<close>

lemma wakeup_no_proc_lock:
  assumes "held s \<inter> range LProc = {}"
  shows "wakeup ch s =
    Ret () (s\<lparr>procs := (\<lambda>i. if i < NPROC then awake (curproc s) ch i (procs s i) else procs s i)\<rparr>)"
  using assms by (intro wakeup_apply) auto

lemma killed_apply: "LProc i \<notin> held s \<Longrightarrow> killed i s = Ret (pkilled (procs s i)) s"
  by (simp add: killed_def prog_simps)

text \<open>The states after \<open>wakeup\<close>, and after a \<open>sleep\<close> that released the last lock.\<close>

definition awaken :: "nat option \<Rightarrow> chan \<Rightarrow> (nat \<Rightarrow> proc) \<Rightarrow> nat \<Rightarrow> proc" where
  "awaken me ch ps = (\<lambda>i. if i < NPROC then awake me ch i (ps i) else ps i)"

definition woken :: "chan \<Rightarrow> 'z proc_state_scheme \<Rightarrow> 'z proc_state_scheme" where
  "woken ch s = s\<lparr>procs := awaken (curproc s) ch (procs s)\<rparr>"

lemma wakeup_woken: "held s \<inter> range LProc = {} \<Longrightarrow> wakeup ch s = Ret () (woken ch s)"
  by (simp add: woken_def awaken_def wakeup_no_proc_lock)

lemma woken_self: "curproc s = Some i \<Longrightarrow> procs (woken ch s) i = procs s i"
  by (simp add: woken_def awaken_def awake_def)

lemma woken_frame [simp]:
  "held (woken ch s) = held s" "curproc (woken ch s) = curproc s" "mem (woken ch s) = mem s"
  by (simp_all add: woken_def)

definition asleep :: "nat \<Rightarrow> chan \<Rightarrow> 'z proc_state_scheme \<Rightarrow> 'z proc_state_scheme" where
  "asleep i ch s = s\<lparr>held := {LProc i},
     procs := (procs s)(i := (procs s i)\<lparr>pchan := ch, pstate := SLEEPING\<rparr>)\<rparr>"

lemma sleep_asleep:
  "curproc s = Some i \<Longrightarrow> held s = {lk} \<Longrightarrow> lk \<noteq> LProc i \<Longrightarrow> sleep ch lk s = Switch (asleep i ch s)"
  by (simp add: sleep_apply asleep_def)

lemma sleep_no_Ret: "sleep ch k s \<noteq> Ret x t"
  by (auto simp: sleep_def sched_def with_proc_def run_eq_Ret bindp_eq_Ret split: option.splits if_splits)

section \<open>What the operations do to the table\<close>

lemma kpart_proc:
  assumes "kpart s t"
  shows "procs t = procs s" "nextpid t = nextpid s" "curproc t = curproc s" "held t = held s"
    "initproc t = initproc s" "forkret_addr t = forkret_addr s" "kend t = kend s"
    "trampoline t = trampoline s"
  using arg_cong [OF assms, of procs] arg_cong [OF assms, of nextpid] arg_cong [OF assms, of curproc]
    arg_cong [OF assms, of held] arg_cong [OF assms, of initproc]
    arg_cong [OF assms, of forkret_addr] arg_cong [OF assms, of kend]
    arg_cong [OF assms, of trampoline]
  by simp_all

text \<open>\<open>table s t f\<close>: from \<open>s\<close> to \<open>t\<close> the table became \<open>f\<close>; the registers of the table did not change.\<close>

definition table :: "'z proc_state_scheme \<Rightarrow> 'z proc_state_scheme \<Rightarrow> (nat \<Rightarrow> proc) \<Rightarrow> bool" where
  "table s t f \<longleftrightarrow> procs t = f \<and> nextpid t = nextpid s \<and> curproc t = curproc s \<and>
                  initproc t = initproc s \<and> held t = held s"

lemma table_kpart:
  assumes "kpart s t"
  shows "table s t (procs s)"
  using kpart_proc [OF assms] by (simp add: table_def)

lemma table_trans: "table s t f \<Longrightarrow> table t u g \<Longrightarrow> table s u g"
  by (simp add: table_def)

lemma table_konly:
  assumes "konly m" and "m s = Ret a t"
  shows "table s t (procs s)"
  using table_kpart [OF konlyD [OF assms]] .

definition freed :: "proc \<Rightarrow> proc" where
  "freed p = p\<lparr>trapframe := 0, pagetable := 0, psz := 0, pid := 0, parent := None,
               pname := (pname p)(0 := 0), pchan := NoChan, pkilled := 0, xstate := 0,
               pstate := UNUSED\<rparr>"

lemma konly_proc_pagetable: "konly (proc_pagetable i)"
  by (auto simp: proc_pagetable_def getp_def intro!: konly_intros konly_vm)

lemma konly_proc_freepagetable: "konly (proc_freepagetable pt n)"
  by (auto simp: proc_freepagetable_def intro!: konly_intros konly_vm)

lemma freeproc_table:
  assumes "freeproc i s = Ret x t"
  shows "table s t ((procs s)(i := freed (procs s i)))"
proof -
  obtain s1 s2 where
      1: "whenp (trapframe (procs s i) \<noteq> 0) (kfree (trapframe (procs s i))) s = Ret () s1"
    and 2: "whenp (pagetable (procs s1 i) \<noteq> 0)
              (proc_freepagetable (pagetable (procs s1 i)) (psz (procs s1 i)))
              (s1\<lparr>procs := (procs s1)(i := (procs s1 i)\<lparr>trapframe := 0\<rparr>)\<rparr>) = Ret () s2"
    and 3: "t = s2\<lparr>procs := (procs s2)(i := (procs s2 i)\<lparr>pagetable := 0, psz := 0, pid := 0,
                   parent := None, pname := (pname (procs s2 i))(0 := 0), pchan := NoChan,
                   pkilled := 0, xstate := 0, pstate := UNUSED\<rparr>)\<rparr>"
    using assms by (auto simp: freeproc_def bindp_eq_Ret seqp_eq_Ret)
  have k1: "table s s1 (procs s)"
    by (rule table_konly [OF konly_whenp [OF konly_kfree] 1])
  have k2: "table (s1\<lparr>procs := (procs s1)(i := (procs s1 i)\<lparr>trapframe := 0\<rparr>)\<rparr>) s2
              ((procs s1)(i := (procs s1 i)\<lparr>trapframe := 0\<rparr>))"
    using table_konly [OF konly_whenp [OF konly_proc_freepagetable] 2] by simp
  show ?thesis
    using k1 k2 by (auto simp: table_def 3 freed_def fun_eq_iff)
qed

lemma find_unused_Ret:
  assumes "find_unused is s = Ret r t"
  shows "r = None \<and> t = s \<and> (\<forall>i \<in> set is. pstate (procs s i) \<noteq> UNUSED) \<or>
         (\<exists>i \<in> set is. r = Some i \<and> pstate (procs s i) = UNUSED \<and> LProc i \<notin> held s \<and>
            t = s\<lparr>held := insert (LProc i) (held s)\<rparr>)"
  using assms
proof (induction "is" arbitrary: s)
  case Nil
  then show ?case by simp
next
  case (Cons i js)
  have free: "LProc i \<notin> held s"
    using Cons.prems by (auto simp: seqp_eq_Ret lock_acquire_Ret)
  show ?case
  proof (cases "pstate (procs s i) = UNUSED")
    case True
    then show ?thesis using Cons.prems free by (auto simp: prog_simps)
  next
    case False
    then have "find_unused js s = Ret r t" using Cons.prems free by (simp add: prog_simps)
    from Cons.IH [OF this] False show ?thesis by auto
  qed
qed

lemma allocpid_apply:
  "LPid \<notin> held s \<Longrightarrow> allocpid s = Ret (nextpid s) (s\<lparr>nextpid := nextpid s + 1\<rparr>)"
  by (simp add: allocpid_def prog_simps)

lemma allocpid_Ret:
  "allocpid s = Ret n t \<Longrightarrow> LPid \<notin> held s \<and> n = nextpid s \<and> t = s\<lparr>nextpid := nextpid s + 1\<rparr>"
  by (auto simp: allocpid_def run_eq_Ret lock_acquire_Ret lock_release_Ret)

text \<open>A slot that \<open>allocproc\<close> filled.\<close>

definition filled :: "u32 \<Rightarrow> u64 \<Rightarrow> u64 \<Rightarrow> u64 \<Rightarrow> proc \<Rightarrow> proc" where
  "filled n tf pt fr p =
     p\<lparr>pid := n, pstate := USED, trapframe := tf, pagetable := pt,
       pctx := \<lparr>ra = fr, sp = kstack p + PGSIZE, saved = replicate 12 0\<rparr>\<rparr>"

text \<open>
  \<open>slot s t f\<close>: the rest of the state between two points of \<open>alloc_found\<close>, with the table \<open>f\<close>.
\<close>

definition slot_state :: "'z proc_state_scheme \<Rightarrow> 'z proc_state_scheme \<Rightarrow> (nat \<Rightarrow> proc) \<Rightarrow> lockid set \<Rightarrow> bool"
  where
  "slot_state s t f h \<longleftrightarrow> procs t = f \<and> nextpid t = nextpid s + 1 \<and> curproc t = curproc s \<and>
                         initproc t = initproc s \<and> held t = h"

lemma slot_state_konly:
  "konly m \<Longrightarrow> m t = Ret a u \<Longrightarrow> slot_state s t f h \<Longrightarrow> slot_state s u f h"
  using table_konly [of m t a u] by (simp add: slot_state_def table_def)

lemma slot_state_setp:
  "slot_state s t (f(i := q)) h \<Longrightarrow>
     slot_state s (t\<lparr>procs := (procs t)(i := g (procs t i))\<rparr>) (f(i := g q)) h"
  by (simp add: slot_state_def)

lemma alloc_fail:
  assumes "seqp (freeproc i) (seqp (lock_release (LProc i)) (ret None)) u = Ret r t"
    and "slot_state s u ((procs s)(i := q)) h"
  shows "r = None \<and> slot_state s t ((procs s)(i := freed q)) (h - {LProc i})"
proof -
  obtain v where v: "freeproc i u = Ret () v" "t = v\<lparr>held := held v - {LProc i}\<rparr>" "r = None"
    using assms(1) by (auto simp: run_eq_Ret lock_release_Ret)
  then show ?thesis
    using freeproc_table [OF v(1)] assms(2) by (simp add: table_def slot_state_def)
qed

lemma alloc_pagetable_Ret:
  assumes "alloc_pagetable i u = Ret r t" and "slot_state s u ((procs s)(i := q)) h"
  shows "(\<exists>pt. r = None \<and> slot_state s t ((procs s)(i := freed (q\<lparr>pagetable := pt\<rparr>))) (h - {LProc i})) \<or>
    (\<exists>pt fr. r = Some i \<and> pt \<noteq> 0 \<and> slot_state s t ((procs s)(i := q\<lparr>pagetable := pt,
       pctx := \<lparr>ra = fr, sp = kstack q + PGSIZE, saved = replicate 12 0\<rparr>\<rparr>)) h)"
proof -
  obtain pt v where v: "proc_pagetable i u = Ret pt v"
    using assms(1) by (auto simp: alloc_pagetable_def bindp_eq_Ret)
  have sv: "slot_state s v ((procs s)(i := q)) h"
    by (rule slot_state_konly [OF konly_proc_pagetable v assms(2)])
  let ?w = "v\<lparr>procs := (procs v)(i := (procs v i)\<lparr>pagetable := pt\<rparr>)\<rparr>"
  have sw: "slot_state s ?w ((procs s)(i := q\<lparr>pagetable := pt\<rparr>)) h"
    using slot_state_setp [OF sv, of "\<lambda>p. p\<lparr>pagetable := pt\<rparr>"] .
  show ?thesis
  proof (cases "pt = 0")
    case True
    then have "seqp (freeproc i) (seqp (lock_release (LProc i)) (ret None)) ?w = Ret r t"
      using assms(1) v by (simp add: alloc_pagetable_def prog_simps)
    from alloc_fail [OF this sw] show ?thesis by blast
  next
    case False
    let ?c = "\<lambda>p. p\<lparr>pctx := \<lparr>ra = forkret_addr ?w, sp = kstack p + PGSIZE, saved = replicate 12 0\<rparr>\<rparr>"
    have "r = Some i" "t = ?w\<lparr>procs := (procs ?w)(i := ?c (procs ?w i))\<rparr>"
      using assms(1) v False by (auto simp: alloc_pagetable_def prog_simps)
    with slot_state_setp [OF sw, of ?c] False show ?thesis by auto
  qed
qed

lemma alloc_found_Ret:
  assumes "alloc_found i u = Ret r t" and "u = s\<lparr>held := insert (LProc i) (held s)\<rparr>"
    and "LProc i \<notin> held s"
  shows "r = None \<and> slot_state s t ((procs s)(i := freed (procs s i))) (held s) \<or>
    (\<exists>tf pt fr. r = Some i \<and> tf \<noteq> 0 \<and> pt \<noteq> 0 \<and>
       slot_state s t ((procs s)(i := filled (nextpid s) tf pt fr (procs s i))) (insert (LProc i) (held s)))"
proof -
  let ?h = "insert (LProc i) (held s)" and ?p = "procs s i"
  let ?v = "u\<lparr>nextpid := nextpid s + 1, procs := (procs s)(i := ?p\<lparr>pid := nextpid s, pstate := USED\<rparr>)\<rparr>"
  have "LPid \<notin> held u" using assms(1) by (auto simp: alloc_found_def run_eq_Ret dest: allocpid_Ret)
  then obtain tf w where w: "kalloc ?v = Ret tf w"
    and rest: "(if tf = 0 then seqp (freeproc i) (seqp (lock_release (LProc i)) (ret None))
               else alloc_pagetable i)
               (w\<lparr>procs := (procs w)(i := (procs w i)\<lparr>trapframe := tf\<rparr>)\<rparr>) = Ret r t"
    using assms(1,2) by (auto simp: alloc_found_def bindp_eq_Ret seqp_eq_Ret allocpid_apply)
  have "slot_state s ?v ((procs s)(i := ?p\<lparr>pid := nextpid s, pstate := USED\<rparr>)) ?h"
    using assms(2) by (simp add: slot_state_def)
  from slot_state_setp [OF slot_state_konly [OF konly_kalloc w this], of "\<lambda>p. p\<lparr>trapframe := tf\<rparr>"]
  have sx: "slot_state s (w\<lparr>procs := (procs w)(i := (procs w i)\<lparr>trapframe := tf\<rparr>)\<rparr>)
      ((procs s)(i := ?p\<lparr>pid := nextpid s, pstate := USED, trapframe := tf\<rparr>)) ?h" by simp
  have h: "?h - {LProc i} = held s" using assms(3) by auto
  have fr: "freed (?p\<lparr>pid := n, pstate := st, trapframe := a\<rparr>) = freed ?p"
      "freed (?p\<lparr>pid := n, pstate := st, trapframe := a, pagetable := b\<rparr>) = freed ?p" for n st a b
    by (simp_all add: freed_def)
  show ?thesis
  proof (cases "tf = 0")
    case True
    then show ?thesis using alloc_fail [OF _ sx, of r t] rest unfolding h fr by simp
  next
    case False
    then show ?thesis
      using alloc_pagetable_Ret [OF _ sx, of r t] rest unfolding h fr by (auto simp: filled_def)
  qed
qed

lemma allocproc_Ret:
  assumes "allocproc s = Ret r t"
  shows "r = None \<and> t = s \<or>
    (\<exists>i < NPROC. pstate (procs s i) = UNUSED \<and> r = None \<and>
       slot_state s t ((procs s)(i := freed (procs s i))) (held s)) \<or>
    (\<exists>i tf pt fr. i < NPROC \<and> pstate (procs s i) = UNUSED \<and> r = Some i \<and> tf \<noteq> 0 \<and> pt \<noteq> 0 \<and>
       slot_state s t ((procs s)(i := filled (nextpid s) tf pt fr (procs s i))) (insert (LProc i) (held s)))"
proof -
  obtain f u where f: "find_unused [0..<NPROC] s = Ret f u"
      "(case f of None \<Rightarrow> ret None | Some i \<Rightarrow> alloc_found i) u = Ret r t"
    using assms by (auto simp: allocproc_def bindp_eq_Ret)
  show ?thesis
  proof (cases f)
    case None
    then show ?thesis using f find_unused_Ret [OF f(1)] by auto
  next
    case (Some i)
    then have i: "i < NPROC" "pstate (procs s i) = UNUSED" "LProc i \<notin> held s"
        "u = s\<lparr>held := insert (LProc i) (held s)\<rparr>" "alloc_found i u = Ret r t"
      using f find_unused_Ret [OF f(1)] by auto
    from alloc_found_Ret [OF i(5,4,3)] i(1,2) show ?thesis by blast
  qed
qed

text \<open>\<open>wait_reap\<close> either fails to copy out the status and frees nothing, or frees the child.\<close>

lemma wait_reap_Ret:
  fixes s t :: "'z proc_state_scheme"
  assumes "wait_reap i addr j s = Ret v t"
  shows "v = - 1 \<and> table (s\<lparr>held := held s - {LProc j} - {LWait}\<rparr>) t (procs s) \<or>
         v = sint (pid (procs s j)) \<and>
           table (s\<lparr>held := held s - {LProc j} - {LWait}\<rparr>) t ((procs s)(j := freed (procs s j)))"
proof -
  let ?c = "(if addr \<noteq> 0 then copyout (pagetable (procs s i)) addr (le_bytes 4 (xstate (procs s j)))
             else ret 0) :: ('z proc_state_scheme, int) prog"
  obtain r u where c: "?c s = Ret r u"
    and rest: "(if addr \<noteq> 0 \<and> r < 0
         then seqp (lock_release (LProc j)) (seqp (lock_release LWait) (ret (- 1)))
         else seqp (freeproc j) (seqp (lock_release (LProc j)) (seqp (lock_release LWait)
               (ret (sint (pid (procs s j))))))) u = Ret v t"
    using assms by (auto simp: wait_reap_def bindp_eq_Ret)
  have "konly ?c" by (intro konly_intros konly_vm)
  from table_konly [OF this c] have k: "table s u (procs s)" .
  show ?thesis
  proof (cases "addr \<noteq> 0 \<and> r < 0")
    case True
    with rest have "seqp (lock_release (LProc j)) (seqp (lock_release LWait) (ret (- 1))) u = Ret v t"
      by simp
    then have "v = - 1" "t = u\<lparr>held := held u - {LProc j} - {LWait}\<rparr>"
      by (simp_all add: run_eq_Ret lock_release_Ret)
    then show ?thesis using k by (simp add: table_def)
  next
    case False
    with rest have "seqp (freeproc j) (seqp (lock_release (LProc j)) (seqp (lock_release LWait)
        (ret (sint (pid (procs s j)))))) u = Ret v t" by (auto split: if_splits)
    then obtain w where w: "freeproc j u = Ret () w" "v = sint (pid (procs s j))"
        "t = w\<lparr>held := held w - {LProc j} - {LWait}\<rparr>"
      by (auto simp: run_eq_Ret lock_release_Ret)
    then show ?thesis using freeproc_table [OF w(1)] k by (simp add: table_def)
  qed
qed

lemma wait_scan_Ret:
  assumes "wait_scan i addr js hk s = Ret r t"
  shows "(\<exists>b. r = Inr b \<and> t = s \<and> (b \<longleftrightarrow> hk \<or> (\<exists>j \<in> set js. parent (procs s j) = Some i)) \<and>
            (\<forall>j \<in> set js. parent (procs s j) = Some i \<longrightarrow> pstate (procs s j) \<noteq> ZOMBIE)) \<or>
         (\<exists>j \<in> set js. parent (procs s j) = Some i \<and> pstate (procs s j) = ZOMBIE \<and>
            (r = Inl (- 1) \<and> table (s\<lparr>held := held s - {LWait}\<rparr>) t (procs s) \<or>
             r = Inl (sint (pid (procs s j))) \<and>
             table (s\<lparr>held := held s - {LWait}\<rparr>) t ((procs s)(j := freed (procs s j)))))"
  using assms
proof (induction js arbitrary: s hk)
  case Nil
  then show ?case by auto
next
  case (Cons j js)
  show ?case
  proof (cases "parent (procs s j) = Some i")
    case False
    then have "wait_scan i addr js hk s = Ret r t" using Cons.prems by (simp add: prog_simps)
    from Cons.IH [OF this] False show ?thesis by auto
  next
    case True
    have free: "LProc j \<notin> held s"
      using Cons.prems True by (auto simp: run_eq_Ret lock_acquire_Ret)
    let ?s1 = "s\<lparr>held := insert (LProc j) (held s)\<rparr>"
    show ?thesis
    proof (cases "pstate (procs s j) = ZOMBIE")
      case False
      then have "wait_scan i addr js True s = Ret r t"
        using Cons.prems True free by (simp add: prog_simps)
      from Cons.IH [OF this] True False show ?thesis by auto
    next
      case zom: True
      then obtain v where v: "wait_reap i addr j ?s1 = Ret v t" "r = Inl v"
        using Cons.prems True free by (auto simp: run_eq_Ret)
      have "insert (LProc j) (held s) - {LProc j} - {LWait} = held s - {LWait}" using free by auto
      then have "v = - 1 \<and> table (s\<lparr>held := held s - {LWait}\<rparr>) t (procs s) \<or>
          v = sint (pid (procs s j)) \<and>
            table (s\<lparr>held := held s - {LWait}\<rparr>) t ((procs s)(j := freed (procs s j)))"
        using wait_reap_Ret [OF v(1)] by simp
      then show ?thesis using True zom by (intro disjI2 bexI [of _ j]) (simp_all add: v(2) fun_upd_def)
    qed
  qed
qed

section \<open>An example state\<close>

text \<open>Process 0 is running with one page of user memory; the other slots are free.\<close>

definition proc0 :: proc where
  "proc0 = \<lparr>pstate = UNUSED, pchan = NoChan, pkilled = 0, xstate = 0, pid = 0, parent = None, kstack = 0,
     psz = 0, pagetable = 0, trapframe = 0, pctx = \<lparr>ra = 0, sp = 0, saved = []\<rparr>,
     ofile = replicate 16 None, cwd = None, pname = (\<lambda>_. 0)\<rparr>"

definition proc_example :: proc_state where
  "proc_example = vm_state.extend (kmem_state.extend user_example (vm_state.fields 0 0 0))
     (proc_state.fields
       (\<lambda>i. if i = 0 then proc0\<lparr>pstate := RUNNING, pid := 1, psz := 4096, pagetable := KERNBASE\<rparr> else proc0)
       None 2 (Some 0) 0)"

lemmas proc_example_defs =
  proc_example_def proc0_def proc_state.defs vm_state.defs kmem_state.defs user_example_def

end
