(* ===== verification/Console.thy ===== *)
theory Console
  imports Proc
begin

text \<open>
  The console: the 16550 UART driver \<open>kernel/uart.c\<close>, formatted output \<open>kernel/printf.c\<close> with
  \<open>procdump\<close> of \<open>proc.c\<close>, and the line discipline \<open>kernel/console.c\<close>.

  The UART itself is hardware. Its state is the control registers, the bytes that have arrived
  (\<open>uart_rx\<close>), the bytes it was given to send (\<open>uart_out\<close>), and \<open>uart_room\<close>, the number of bytes
  the transmitter still accepts before it clears \<open>LSR_TX_IDLE\<close>. Between two kernel steps the
  hardware may append to \<open>uart_rx\<close> and raise \<open>uart_room\<close>. A loop that polls \<open>LSR\<close> until the
  transmitter is idle ends when the hardware has sent a byte, so it leaves \<open>uart_room\<close> at 1.
\<close>

section \<open>State\<close>

record cons_state = proc_state +
  uart_ier :: u8
  uart_lcr :: u8
  uart_fcr :: u8
  uart_baud :: "u8 \<times> u8"
  uart_rx :: "u8 list"
  uart_out :: "u8 list"
  uart_room :: nat
  uart_tx_buf :: "nat \<Rightarrow> u8"
  uart_tx_w :: u64
  uart_tx_r :: u64
  panicked :: bool
  pr_locking :: bool
  cons_buf :: "nat \<Rightarrow> u8"
  cons_r :: u32
  cons_w :: u32
  cons_e :: u32
  console_dev :: bool

section \<open>uart.c\<close>

definition UART_TX_BUF_SIZE :: nat where "UART_TX_BUF_SIZE = 32"

text \<open>
  \<open>WriteReg\<close>: registers 0 and 1 are the baud-rate latch while bit 7 of \<open>LCR\<close> is set; otherwise
  register 0 sends a byte. Bit 1 of \<open>FCR\<close> clears the receive queue.
\<close>

definition WriteReg :: "nat \<Rightarrow> u8 \<Rightarrow> ('z cons_state_scheme, unit) prog" where
  "WriteReg reg v = modify (\<lambda>s.
     if reg = 0 then
       (if bit (uart_lcr s) 7 then s\<lparr>uart_baud := (v, snd (uart_baud s))\<rparr>
        else s\<lparr>uart_out := uart_out s @ [v], uart_room := uart_room s - 1\<rparr>)
     else if reg = 1 then
       (if bit (uart_lcr s) 7 then s\<lparr>uart_baud := (fst (uart_baud s), v)\<rparr>
        else s\<lparr>uart_ier := v\<rparr>)
     else if reg = 2 then s\<lparr>uart_fcr := v, uart_rx := (if bit v 1 then [] else uart_rx s)\<rparr>
     else if reg = 3 then s\<lparr>uart_lcr := v\<rparr>
     else s)"

definition uartinit :: "('z cons_state_scheme, unit) prog" where
  "uartinit =
     block
      [WriteReg 1 0,
       WriteReg 3 0x80,
       WriteReg 0 3,
       WriteReg 1 0,
       WriteReg 3 3,
       WriteReg 2 (1 OR 6),
       WriteReg 1 (2 OR 1),
       lock_init LUart]"

text \<open>The loop of \<open>uartstart\<close>; each round that goes on takes one of the \<open>n\<close> buffered bytes.\<close>

fun uartstart_loop :: "nat \<Rightarrow> ('z cons_state_scheme, unit) prog" where
  "uartstart_loop 0 = ret ()"
| "uartstart_loop (Suc n) =
     bindp (gets (\<lambda>s. uart_tx_w s = uart_tx_r s)) (\<lambda>empty.
     if empty then ret () else
     bindp (gets uart_room) (\<lambda>room.
     if room = 0 then ret () else
     bindp (gets (\<lambda>s. uart_tx_buf s (unat (uart_tx_r s) mod UART_TX_BUF_SIZE))) (\<lambda>c.
     seqp (modify (\<lambda>s. s\<lparr>uart_tx_r := uart_tx_r s + 1\<rparr>)) (
     seqp (wakeup ChUart) (
     seqp (WriteReg 0 c) (
     uartstart_loop n))))))"

definition uartstart :: "('z cons_state_scheme, unit) prog" where
  "uartstart = bindp (gets (\<lambda>s. unat (uart_tx_w s - uart_tx_r s))) uartstart_loop"

definition uartputc_loop :: "u8 \<Rightarrow> ('z cons_state_scheme, unit) prog" where
  "uartputc_loop c =
     bindp (gets (\<lambda>s. uart_tx_w s = uart_tx_r s + of_nat UART_TX_BUF_SIZE)) (\<lambda>full.
     if full then sleep ChUart LUart else
     block
      [modify (\<lambda>s. s\<lparr>uart_tx_buf := (uart_tx_buf s)(unat (uart_tx_w s) mod UART_TX_BUF_SIZE := c)\<rparr>),
       modify (\<lambda>s. s\<lparr>uart_tx_w := uart_tx_w s + 1\<rparr>),
       uartstart,
       lock_release LUart])"

definition uartputc :: "u8 \<Rightarrow> ('z cons_state_scheme, unit) prog" where
  "uartputc c =
     seqp (lock_acquire LUart) (
     bindp (gets panicked) (\<lambda>p.
     if p then (\<lambda>s. Diverge) else uartputc_loop c))"

definition uartputc_resume :: "u8 \<Rightarrow> ('z cons_state_scheme, unit) prog" where
  "uartputc_resume c = seqp (sleep_resume LUart) (uartputc_loop c)"

definition uartputc_sync :: "u8 \<Rightarrow> ('z cons_state_scheme, unit) prog" where
  "uartputc_sync c =
     bindp (gets panicked) (\<lambda>p.
     if p then (\<lambda>s. Diverge) else
     seqp (modify (\<lambda>s. s\<lparr>uart_room := max 1 (uart_room s)\<rparr>)) (WriteReg 0 c))"

definition uartgetc :: "('z cons_state_scheme, u8 option) prog" where
  "uartgetc =
     bindp (gets uart_rx) (\<lambda>q.
     case q of [] \<Rightarrow> ret None
     | c # cs \<Rightarrow> seqp (modify (\<lambda>s. s\<lparr>uart_rx := cs\<rparr>)) (ret (Some c)))"

section \<open>printf.c\<close>

definition BACKSPACE :: u32 where "BACKSPACE = 0x100"

definition consputc :: "u32 \<Rightarrow> ('z cons_state_scheme, unit) prog" where
  "consputc c =
     (if c = BACKSPACE then block [uartputc_sync 8, uartputc_sync 32, uartputc_sync 8]
      else uartputc_sync (ucast c))"

definition chr :: "char \<Rightarrow> u8" where
  "chr c = of_nat (of_char c)"

definition bytes_of :: "string \<Rightarrow> u8 list" where
  "bytes_of cs = map chr cs"

definition digits :: "u8 list" where
  "digits = bytes_of ''0123456789abcdef''"

text \<open>The \<open>do\<close> loop of \<open>printint\<close>: the digits of \<open>x\<close>, least significant first.\<close>

function printint_digits :: "nat \<Rightarrow> nat \<Rightarrow> u8 list" where
  "printint_digits x base =
     digits ! (x mod base) #
     (if x div base = 0 \<or> base < 2 then [] else printint_digits (x div base) base)"
  by pat_completeness auto
termination
proof (relation "measure (\<lambda>(x, base). x)")
  fix x base :: nat
  assume "\<not> (x div base = 0 \<or> base < 2)"
  then show "((x div base, base), (x, base)) \<in> measure (\<lambda>(x, base). x)"
    by (cases "x = 0") (auto intro!: div_less_dividend)
qed simp

declare printint_digits.simps [simp del]

text \<open>The buffer that \<open>printint\<close> sends, in the order in which it sends it.\<close>

definition printint_chars :: "u32 \<Rightarrow> nat \<Rightarrow> bool \<Rightarrow> u8 list" where
  "printint_chars xx base sg =
     (let neg = sg \<and> sint xx < 0;
          x = (if neg then - xx else xx)
      in rev (printint_digits (unat x) base @ (if neg then [chr (CHR ''-'')] else [])))"

definition consputs :: "u8 list \<Rightarrow> ('z cons_state_scheme, unit) prog" where
  "consputs cs = block (map (\<lambda>c. consputc (ucast c)) cs)"

definition printint :: "u32 \<Rightarrow> nat \<Rightarrow> bool \<Rightarrow> ('z cons_state_scheme, unit) prog" where
  "printint xx base sg = consputs (printint_chars xx base sg)"

definition printptr_chars :: "u64 \<Rightarrow> u8 list" where
  "printptr_chars x =
     bytes_of ''0x'' @ map (\<lambda>i. digits ! unat (drop_bit 60 (push_bit (4 * i) x))) [0..<16]"

definition printptr :: "u64 \<Rightarrow> ('z cons_state_scheme, unit) prog" where
  "printptr x = consputs (printptr_chars x)"

text \<open>
  The variable arguments of \<open>printf\<close>. A conversion for which the argument is missing or of another
  type is undefined in C.
\<close>

datatype fmtarg = AInt u32 | APtr u64 | AStr "u8 list option"

definition undefined_behaviour :: "('s, 'a) prog" where
  "undefined_behaviour = panic ''undefined behaviour''"

fun printf_loop :: "u8 list \<Rightarrow> fmtarg list \<Rightarrow> ('z cons_state_scheme, unit) prog" where
  "printf_loop [] args = ret ()"
| "printf_loop (c # fmt) args =
     (if c \<noteq> chr (CHR ''%'') then seqp (consputc (ucast c)) (printf_loop fmt args)
      else case fmt of [] \<Rightarrow> ret ()
      | d # fmt' \<Rightarrow>
          if d = chr (CHR ''d'') then
            (case args of AInt x # args' \<Rightarrow> seqp (printint x 10 True) (printf_loop fmt' args')
             | _ \<Rightarrow> undefined_behaviour)
          else if d = chr (CHR ''x'') then
            (case args of AInt x # args' \<Rightarrow> seqp (printint x 16 True) (printf_loop fmt' args')
             | _ \<Rightarrow> undefined_behaviour)
          else if d = chr (CHR ''p'') then
            (case args of APtr x # args' \<Rightarrow> seqp (printptr x) (printf_loop fmt' args')
             | _ \<Rightarrow> undefined_behaviour)
          else if d = chr (CHR ''s'') then
            (case args of AStr t # args' \<Rightarrow>
               seqp (consputs (case t of None \<Rightarrow> bytes_of ''(null)'' | Some cs \<Rightarrow> cs)) (printf_loop fmt' args')
             | _ \<Rightarrow> undefined_behaviour)
          else if d = chr (CHR ''%'') then seqp (consputc (ucast d)) (printf_loop fmt' args)
          else seqp (consputc (ucast c)) (seqp (consputc (ucast d)) (printf_loop fmt' args)))"

definition printf :: "string \<Rightarrow> fmtarg list \<Rightarrow> ('z cons_state_scheme, unit) prog" where
  "printf fmt args =
     bindp (gets pr_locking) (\<lambda>locking.
     block
      [whenp locking (lock_acquire LPr),
       printf_loop (bytes_of fmt) args,
       whenp locking (lock_release LPr)])"

definition printfinit :: "('z cons_state_scheme, unit) prog" where
  "printfinit = seqp (lock_init LPr) (modify (\<lambda>s. s\<lparr>pr_locking := True\<rparr>))"

definition state_name :: "procstate \<Rightarrow> string" where
  "state_name st =
     (case st of UNUSED \<Rightarrow> ''unused'' | USED \<Rightarrow> ''used'' | SLEEPING \<Rightarrow> ''sleep ''
      | RUNNABLE \<Rightarrow> ''runble'' | RUNNING \<Rightarrow> ''run   '' | ZOMBIE \<Rightarrow> ''zombie'')"

definition procdump_slot :: "nat \<Rightarrow> ('z cons_state_scheme, unit) prog" where
  "procdump_slot i =
     bindp (getp i id) (\<lambda>p.
     if pstate p = UNUSED then ret () else
     block
      [printf ''%d %s %s'' [AInt (pid p), AStr (Some (bytes_of (state_name (pstate p)))),
                          AStr (Some (cstr (pname p) 16))],
       printf (CHR 0x0A # []) []])"

definition procdump :: "('z cons_state_scheme, unit) prog" where
  "procdump = seqp (printf (CHR 0x0A # []) []) (block (map procdump_slot [0..<NPROC]))"

section \<open>console.c\<close>

definition INPUT_BUF_SIZE :: u32 where "INPUT_BUF_SIZE = 128"

definition cons_at :: "u32 \<Rightarrow> nat" where
  "cons_at i = unat (i mod INPUT_BUF_SIZE)"

fun consolewrite_loop :: "bool \<Rightarrow> u64 \<Rightarrow> nat \<Rightarrow> nat \<Rightarrow> ('z cons_state_scheme, int) prog" where
  "consolewrite_loop user_src src i 0 = ret (int i)"
| "consolewrite_loop user_src src i (Suc k) =
     bindp (either_copyin user_src (src + of_nat i) 1) (\<lambda>(r, c).
     if r = - 1 then ret (int i)
     else seqp (uartputc (hd c)) (consolewrite_loop user_src src (Suc i) k))"

definition consolewrite :: "bool \<Rightarrow> u64 \<Rightarrow> u32 \<Rightarrow> ('z cons_state_scheme, int) prog" where
  "consolewrite user_src src n = consolewrite_loop user_src src 0 (nat (sint n))"

text \<open>The loop of \<open>consoleread\<close> with \<open>n\<close> bytes still wanted of \<open>target\<close>.\<close>

fun consoleread_loop :: "bool \<Rightarrow> u64 \<Rightarrow> nat \<Rightarrow> nat \<Rightarrow> ('z cons_state_scheme, int) prog" where
  "consoleread_loop user_dst dst target 0 = seqp (lock_release LCons) (ret (int target))"
| "consoleread_loop user_dst dst target (Suc k) =
     bindp (gets (\<lambda>s. cons_r s = cons_w s)) (\<lambda>empty.
     if empty then
       with_proc (\<lambda>i.
       bindp (killed i) (\<lambda>d.
       if d \<noteq> 0 then seqp (lock_release LCons) (ret (- 1))
       else sleep ChCons LCons))
     else
       bindp (gets (\<lambda>s. cons_buf s (cons_at (cons_r s)))) (\<lambda>c.
       seqp (modify (\<lambda>s. s\<lparr>cons_r := cons_r s + 1\<rparr>)) (
       if c = 4 then
         seqp (whenp (Suc k < target) (modify (\<lambda>s. s\<lparr>cons_r := cons_r s - 1\<rparr>))) (
         seqp (lock_release LCons) (ret (int (target - Suc k))))
       else
         bindp (either_copyout user_dst dst [c]) (\<lambda>r.
         if r = - 1 then seqp (lock_release LCons) (ret (int (target - Suc k)))
         else if c = 10 then seqp (lock_release LCons) (ret (int (target - k)))
         else consoleread_loop user_dst (dst + 1) target k))))"

definition consoleread :: "bool \<Rightarrow> u64 \<Rightarrow> u32 \<Rightarrow> ('z cons_state_scheme, int) prog" where
  "consoleread user_dst dst n =
     seqp (lock_acquire LCons) (consoleread_loop user_dst dst (nat (sint n)) (nat (sint n)))"

definition consoleread_resume ::
    "bool \<Rightarrow> u64 \<Rightarrow> nat \<Rightarrow> nat \<Rightarrow> ('z cons_state_scheme, int) prog" where
  "consoleread_resume user_dst dst target k =
     seqp (sleep_resume LCons) (consoleread_loop user_dst dst target k)"

text \<open>The loop of control-U; it stops after at most the \<open>n\<close> characters between \<open>w\<close> and \<open>e\<close>.\<close>

fun kill_line :: "nat \<Rightarrow> ('z cons_state_scheme, unit) prog" where
  "kill_line 0 = ret ()"
| "kill_line (Suc n) =
     bindp (gets (\<lambda>s. cons_e s \<noteq> cons_w s \<and> cons_buf s (cons_at (cons_e s - 1)) \<noteq> 10)) (\<lambda>go.
     whenp go (
       seqp (modify (\<lambda>s. s\<lparr>cons_e := cons_e s - 1\<rparr>)) (
       seqp (consputc BACKSPACE) (
       kill_line n))))"

definition consoleintr :: "u8 \<Rightarrow> ('z cons_state_scheme, unit) prog" where
  "consoleintr c =
     block
      [lock_acquire LCons,
       if c = 0x10 then procdump
       else if c = 0x15 then bindp (gets (\<lambda>s. unat (cons_e s - cons_w s))) kill_line
       else if c = 8 \<or> c = 0x7F then
         bindp (gets (\<lambda>s. cons_e s \<noteq> cons_w s)) (\<lambda>b.
         whenp b (
           seqp (modify (\<lambda>s. s\<lparr>cons_e := cons_e s - 1\<rparr>)) (consputc BACKSPACE)))
       else
         bindp (gets (\<lambda>s. c \<noteq> 0 \<and> cons_e s - cons_r s < INPUT_BUF_SIZE)) (\<lambda>b.
         whenp b (
           let d = (if c = 13 then 10 else c) in
           block
            [consputc (ucast d),
             modify (\<lambda>s. s\<lparr>cons_buf := (cons_buf s)(cons_at (cons_e s) := d)\<rparr>),
             modify (\<lambda>s. s\<lparr>cons_e := cons_e s + 1\<rparr>),
             bindp (gets (\<lambda>s. d = 10 \<or> d = 4 \<or> cons_e s - cons_r s = INPUT_BUF_SIZE)) (\<lambda>w.
               whenp w (
                 seqp (modify (\<lambda>s. s\<lparr>cons_w := cons_e s\<rparr>)) (wakeup ChCons)))])),
       lock_release LCons]"

definition consoleinit :: "('z cons_state_scheme, unit) prog" where
  "consoleinit =
     block
      [lock_init LCons,
       uartinit,
       modify (\<lambda>s. s\<lparr>console_dev := True\<rparr>)]"

text \<open>The receive loop of \<open>uartintr\<close>; each round takes one of the \<open>n\<close> bytes that have arrived.\<close>

fun uartintr_loop :: "nat \<Rightarrow> ('z cons_state_scheme, unit) prog" where
  "uartintr_loop 0 = ret ()"
| "uartintr_loop (Suc n) =
     bindp uartgetc (\<lambda>c. case c of None \<Rightarrow> ret () | Some b \<Rightarrow> seqp (consoleintr b) (uartintr_loop n))"

definition uartintr :: "('z cons_state_scheme, unit) prog" where
  "uartintr =
     block
      [bindp (gets (\<lambda>s. length (uart_rx s))) uartintr_loop,
       lock_acquire LUart,
       uartstart,
       lock_release LUart]"

section \<open>An example state\<close>

definition cons_example :: cons_state where
  "cons_example = proc_state.extend proc_example
     (cons_state.fields 0 3 0 (0, 0) [] [] 1 (\<lambda>_. 0) 0 0 False True (\<lambda>_. 0) 0 0 0 True)"

lemmas cons_example_defs = cons_example_def cons_state.defs proc_example_defs

end
