(* ===== verification/Sleeplock.thy ===== *)
theory Sleeplock
  imports Console
begin

text \<open>
  \<open>kernel/sleeplock.c\<close>: long-term locks. A process that finds the lock taken sleeps on it with
  the inner spinlock released.
\<close>

record sleeplock =
  slocked :: u32
  slpid :: u32

record sl_state = cons_state +
  slocks :: "sleeplockid \<Rightarrow> sleeplock"

definition setsl :: "sleeplockid \<Rightarrow> (sleeplock \<Rightarrow> sleeplock) \<Rightarrow> ('z sl_state_scheme, unit) prog" where
  "setsl l f = modify (\<lambda>s. s\<lparr>slocks := (slocks s)(l := f (slocks s l))\<rparr>)"

definition initsleeplock :: "sleeplockid \<Rightarrow> ('z sl_state_scheme, unit) prog" where
  "initsleeplock l =
     block
      [lock_init (LSleep l),
       setsl l (\<lambda>k. k\<lparr>slocked := 0\<rparr>),
       setsl l (\<lambda>k. k\<lparr>slpid := 0\<rparr>)]"

definition acquiresleep_loop :: "sleeplockid \<Rightarrow> ('z sl_state_scheme, unit) prog" where
  "acquiresleep_loop l =
     bindp (gets (\<lambda>s. slocked (slocks s l))) (\<lambda>b.
     if b \<noteq> 0 then sleep (ChSleep l) (LSleep l)
     else
     block
      [setsl l (\<lambda>k. k\<lparr>slocked := 1\<rparr>),
       with_proc (\<lambda>i. bindp (getp i pid) (\<lambda>n. setsl l (\<lambda>k. k\<lparr>slpid := n\<rparr>))),
       lock_release (LSleep l)])"

definition acquiresleep :: "sleeplockid \<Rightarrow> ('z sl_state_scheme, unit) prog" where
  "acquiresleep l = seqp (lock_acquire (LSleep l)) (acquiresleep_loop l)"

definition acquiresleep_resume :: "sleeplockid \<Rightarrow> ('z sl_state_scheme, unit) prog" where
  "acquiresleep_resume l = seqp (sleep_resume (LSleep l)) (acquiresleep_loop l)"

definition releasesleep :: "sleeplockid \<Rightarrow> ('z sl_state_scheme, unit) prog" where
  "releasesleep l =
     block
      [lock_acquire (LSleep l),
       setsl l (\<lambda>k. k\<lparr>slocked := 0\<rparr>),
       setsl l (\<lambda>k. k\<lparr>slpid := 0\<rparr>),
       wakeup (ChSleep l),
       lock_release (LSleep l)]"

definition holdingsleep :: "sleeplockid \<Rightarrow> ('z sl_state_scheme, bool) prog" where
  "holdingsleep l =
     seqp (lock_acquire (LSleep l)) (
     with_proc (\<lambda>i.
     bindp (gets (\<lambda>s. slocked (slocks s l) \<noteq> 0 \<and> slpid (slocks s l) = pid (procs s i))) (\<lambda>r.
     seqp (lock_release (LSleep l)) (
     ret r))))"

section \<open>Running the operations\<close>

lemma setsl_apply [simp, prog_simps]:
  "setsl l f s = Ret () (s\<lparr>slocks := (slocks s)(l := f (slocks s l))\<rparr>)"
  by (simp add: setsl_def)

lemma sleeplock_upd [simp]: "k\<lparr>slocked := a, slpid := n\<rparr> = \<lparr>slocked = a, slpid = n\<rparr>"
  by (cases k) simp

lemma acquiresleep_free:
  assumes "held s = {}" and "curproc s = Some p" and "slocked (slocks s l) = 0"
  shows "acquiresleep l s =
    Ret () (s\<lparr>slocks := (slocks s)(l := \<lparr>slocked = 1, slpid = pid (procs s p)\<rparr>)\<rparr>)"
  using assms by (simp add: acquiresleep_def acquiresleep_loop_def prog_simps)

lemma holdingsleep_apply:
  "held s = {} \<Longrightarrow> curproc s = Some p \<Longrightarrow>
   holdingsleep l s = Ret (slocked (slocks s l) \<noteq> 0 \<and> slpid (slocks s l) = pid (procs s p)) s"
  by (simp add: holdingsleep_def prog_simps)

lemma releasesleep_apply:
  assumes "held s = {}"
  shows "releasesleep l s =
    Ret () (woken (ChSleep l) (s\<lparr>slocks := (slocks s)(l := \<lparr>slocked = 0, slpid = 0\<rparr>)\<rparr>))"
proof -
  let ?k = "\<lparr>slocked = 0, slpid = 0\<rparr>"
  let ?t = "s\<lparr>held := {LSleep l}, slocks := (slocks s)(l := ?k)\<rparr>"
  have w: "wakeup (ChSleep l) ?t = Ret () (woken (ChSleep l) ?t)" by (rule wakeup_woken) auto
  have "releasesleep l s = Ret () ((woken (ChSleep l) ?t)\<lparr>held := {}\<rparr>)"
    using assms w by (simp add: releasesleep_def prog_simps)
  also have "(woken (ChSleep l) ?t)\<lparr>held := {}\<rparr> =
      woken (ChSleep l) (s\<lparr>slocks := (slocks s)(l := ?k)\<rparr>)"
    using assms by (simp add: woken_def)
  finally show ?thesis .
qed

section \<open>An example state\<close>

definition sl_example :: sl_state where
  "sl_example = cons_state.extend cons_example (sl_state.fields (\<lambda>_. \<lparr>slocked = 0, slpid = 0\<rparr>))"

lemmas sl_example_defs = sl_example_def sl_state.defs cons_example_defs

end
