(* ===== verification/Bio.thy ===== *)
theory Bio
  imports Sleeplock
begin

text \<open>
  \<open>kernel/bio.c\<close>: the buffer cache, a doubly linked list of buffers in order of recent use. A
  \<open>struct buf *\<close> is \<open>Head\<close> for \<open>&bcache.head\<close> or \<open>Buf i\<close> for \<open>&bcache.buf[i]\<close>, and the cache is one
  function from these to the structs. The walks over the list carry the number of steps left;
  \<open>NBUF + 1\<close> steps are enough for a list of \<open>NBUF\<close> buffers, and the outcome \<open>Diverge\<close> for a list
  that does not come back to the head is what the C loop does.

  \<open>disk_rw\<close> is the contract of \<open>virtio_disk_rw\<close> of the disk driver: the transfer of one block
  between the buffer and the disk, and \<open>b->disk\<close> back at 0. The field \<open>disk_writes\<close> is a ghost: the
  sequence of block writes the disk has completed, in order, on which crashes are stated.
\<close>

definition NBUF :: nat where "NBUF = 30"
definition BSIZE :: nat where "BSIZE = 1024"

datatype bufref = Head | Buf nat

record buf =
  bvalid :: u32
  bdisk :: u32
  bdev :: u32
  bblockno :: u32
  brefcnt :: u32
  bprev :: bufref
  bnext :: bufref
  bdata :: "u8 list"

record bio_state = sl_state +
  bcache :: "bufref \<Rightarrow> buf"
  disk :: "u32 \<Rightarrow> u8 list"
  disk_writes :: "(u32 \<times> u8 list) list"

definition getb :: "bufref \<Rightarrow> (buf \<Rightarrow> 'a) \<Rightarrow> ('z bio_state_scheme, 'a) prog" where
  "getb b f = gets (\<lambda>s. f (bcache s b))"

definition setb :: "bufref \<Rightarrow> (buf \<Rightarrow> buf) \<Rightarrow> ('z bio_state_scheme, unit) prog" where
  "setb b f = modify (\<lambda>s. s\<lparr>bcache := (bcache s)(b := f (bcache s b))\<rparr>)"

lemma getb_apply [simp, prog_simps]: "getb b f s = Ret (f (bcache s b)) s"
  by (simp add: getb_def)

lemma setb_apply [simp, prog_simps]: "setb b f s = Ret () (s\<lparr>bcache := (bcache s)(b := f (bcache s b))\<rparr>)"
  by (simp add: setb_def)

text \<open>\<open>b->next->prev = x\<close> and \<open>b->prev->next = x\<close>.\<close>

definition set_next_prev :: "bufref \<Rightarrow> bufref \<Rightarrow> ('z bio_state_scheme, unit) prog" where
  "set_next_prev b x = bindp (getb b bnext) (\<lambda>c. setb c (\<lambda>r. r\<lparr>bprev := x\<rparr>))"

definition set_prev_next :: "bufref \<Rightarrow> bufref \<Rightarrow> ('z bio_state_scheme, unit) prog" where
  "set_prev_next b x = bindp (getb b bprev) (\<lambda>c. setb c (\<lambda>r. r\<lparr>bnext := x\<rparr>))"

definition binit_buf :: "nat \<Rightarrow> ('z bio_state_scheme, unit) prog" where
  "binit_buf i =
     block
      [bindp (getb Head bnext) (\<lambda>h. setb (Buf i) (\<lambda>r. r\<lparr>bnext := h\<rparr>)),
       setb (Buf i) (\<lambda>r. r\<lparr>bprev := Head\<rparr>),
       initsleeplock (SBuf i),
       set_next_prev Head (Buf i),
       setb Head (\<lambda>r. r\<lparr>bnext := Buf i\<rparr>)]"

definition binit :: "('z bio_state_scheme, unit) prog" where
  "binit =
     block ([lock_init LBcache,
             setb Head (\<lambda>r. r\<lparr>bprev := Head\<rparr>),
             setb Head (\<lambda>r. r\<lparr>bnext := Head\<rparr>)] @
       map binit_buf [0..<NBUF])"

fun scan_cached :: "nat \<Rightarrow> u32 \<Rightarrow> u32 \<Rightarrow> bufref \<Rightarrow> ('z bio_state_scheme, nat option) prog" where
  "scan_cached 0 dev bno b = (\<lambda>s. Diverge)"
| "scan_cached (Suc n) dev bno Head = ret None"
| "scan_cached (Suc n) dev bno (Buf i) =
     bindp (getb (Buf i) id) (\<lambda>r.
     if bdev r = dev \<and> bblockno r = bno then ret (Some i) else scan_cached n dev bno (bnext r))"

fun scan_free :: "nat \<Rightarrow> bufref \<Rightarrow> ('z bio_state_scheme, nat option) prog" where
  "scan_free 0 b = (\<lambda>s. Diverge)"
| "scan_free (Suc n) Head = ret None"
| "scan_free (Suc n) (Buf i) =
     bindp (getb (Buf i) id) (\<lambda>r.
     if brefcnt r = 0 then ret (Some i) else scan_free n (bprev r))"

definition bget :: "u32 \<Rightarrow> u32 \<Rightarrow> ('z bio_state_scheme, nat) prog" where
  "bget dev bno =
     seqp (lock_acquire LBcache) (
     bindp (getb Head bnext) (\<lambda>h.
     bindp (scan_cached (NBUF + 1) dev bno h) (\<lambda>c.
     case c of
       Some i \<Rightarrow>
         seqp (setb (Buf i) (\<lambda>r. r\<lparr>brefcnt := brefcnt r + 1\<rparr>)) (
         seqp (lock_release LBcache) (
         seqp (acquiresleep (SBuf i)) (
         ret i)))
     | None \<Rightarrow>
         bindp (getb Head bprev) (\<lambda>t.
         bindp (scan_free (NBUF + 1) t) (\<lambda>f.
         case f of
           Some i \<Rightarrow>
             seqp (setb (Buf i) (\<lambda>r. r\<lparr>bdev := dev, bblockno := bno, bvalid := 0, brefcnt := 1\<rparr>)) (
             seqp (lock_release LBcache) (
             seqp (acquiresleep (SBuf i)) (
             ret i)))
         | None \<Rightarrow> panic ''bget: no buffers'')))))"

definition disk_rw :: "nat \<Rightarrow> bool \<Rightarrow> ('z bio_state_scheme, unit) prog" where
  "disk_rw i write =
     bindp (getb (Buf i) id) (\<lambda>r.
     seqp (if write
           then modify (\<lambda>s. s\<lparr>disk := (disk s)(bblockno r := bdata r),
                              disk_writes := disk_writes s @ [(bblockno r, bdata r)]\<rparr>)
           else bindp (gets (\<lambda>s. disk s (bblockno r))) (\<lambda>d. setb (Buf i) (\<lambda>r. r\<lparr>bdata := d\<rparr>)))
          (setb (Buf i) (\<lambda>r. r\<lparr>bdisk := 0\<rparr>)))"

definition bread :: "u32 \<Rightarrow> u32 \<Rightarrow> ('z bio_state_scheme, nat) prog" where
  "bread dev bno =
     bindp (bget dev bno) (\<lambda>i.
     bindp (getb (Buf i) bvalid) (\<lambda>v.
     seqp (whenp (v = 0) (
       seqp (disk_rw i False) (
       setb (Buf i) (\<lambda>r. r\<lparr>bvalid := 1\<rparr>)))) (
     ret i)))"

definition bwrite :: "nat \<Rightarrow> ('z bio_state_scheme, unit) prog" where
  "bwrite i =
     bindp (holdingsleep (SBuf i)) (\<lambda>h.
     if \<not> h then panic ''bwrite'' else disk_rw i True)"

definition brelse :: "nat \<Rightarrow> ('z bio_state_scheme, unit) prog" where
  "brelse i =
     bindp (holdingsleep (SBuf i)) (\<lambda>h.
     if \<not> h then panic ''brelse'' else
     block
      [releasesleep (SBuf i),
       lock_acquire LBcache,
       setb (Buf i) (\<lambda>r. r\<lparr>brefcnt := brefcnt r - 1\<rparr>),
       bindp (getb (Buf i) brefcnt) (\<lambda>n.
         whenp (n = 0) (block
          [bindp (getb (Buf i) bprev) (\<lambda>p. set_next_prev (Buf i) p),
           bindp (getb (Buf i) bnext) (\<lambda>x. set_prev_next (Buf i) x),
           bindp (getb Head bnext) (\<lambda>h. setb (Buf i) (\<lambda>r. r\<lparr>bnext := h\<rparr>)),
           setb (Buf i) (\<lambda>r. r\<lparr>bprev := Head\<rparr>),
           set_next_prev Head (Buf i),
           setb Head (\<lambda>r. r\<lparr>bnext := Buf i\<rparr>)])),
       lock_release LBcache])"

definition bpin :: "nat \<Rightarrow> ('z bio_state_scheme, unit) prog" where
  "bpin i =
     block
      [lock_acquire LBcache,
       setb (Buf i) (\<lambda>r. r\<lparr>brefcnt := brefcnt r + 1\<rparr>),
       lock_release LBcache]"

definition bunpin :: "nat \<Rightarrow> ('z bio_state_scheme, unit) prog" where
  "bunpin i =
     block
      [lock_acquire LBcache,
       setb (Buf i) (\<lambda>r. r\<lparr>brefcnt := brefcnt r - 1\<rparr>),
       lock_release LBcache]"

text \<open>Reading and writing the bytes of a block: objects of C types inside \<open>b->data\<close>.\<close>

definition get16 :: "u8 list \<Rightarrow> nat \<Rightarrow> u16" where
  "get16 d off = le_word (take 2 (drop off d))"

definition get32 :: "u8 list \<Rightarrow> nat \<Rightarrow> u32" where
  "get32 d off = le_word (take 4 (drop off d))"

definition put_bytes :: "u8 list \<Rightarrow> nat \<Rightarrow> u8 list \<Rightarrow> u8 list" where
  "put_bytes d off bs = take off d @ bs @ drop (off + length bs) d"

definition put16 :: "u8 list \<Rightarrow> nat \<Rightarrow> u16 \<Rightarrow> u8 list" where
  "put16 d off v = put_bytes d off (le_bytes 2 v)"

definition put32 :: "u8 list \<Rightarrow> nat \<Rightarrow> u32 \<Rightarrow> u8 list" where
  "put32 d off v = put_bytes d off (le_bytes 4 v)"

definition set_data :: "nat \<Rightarrow> (u8 list \<Rightarrow> u8 list) \<Rightarrow> ('z bio_state_scheme, unit) prog" where
  "set_data i f = setb (Buf i) (\<lambda>r. r\<lparr>bdata := f (bdata r)\<rparr>)"

section \<open>An example state\<close>

text \<open>The buffer list as \<open>binit\<close> leaves it, and a disk of zeroes.\<close>

definition buf_example :: "bufref \<Rightarrow> buf" where
  "buf_example b =
     \<lparr>bvalid = 0, bdisk = 0, bdev = 0, bblockno = 0, brefcnt = 0,
      bprev = (case b of Head \<Rightarrow> Buf 0 | Buf i \<Rightarrow> if Suc i < NBUF then Buf (Suc i) else Head),
      bnext = (case b of Head \<Rightarrow> Buf (NBUF - 1) | Buf i \<Rightarrow> if i = 0 then Head else Buf (i - 1)),
      bdata = replicate BSIZE 0\<rparr>"

definition bio_example :: bio_state where
  "bio_example = sl_state.extend sl_example
     (bio_state.fields buf_example (\<lambda>_. replicate BSIZE 0) [])"

lemmas bio_example_defs = bio_example_def bio_state.defs sl_example_defs

end
