(* ===== verification/Cache.thy ===== *)
theory Cache
  imports Bio
begin

text \<open>
  Correctness of the buffer cache. The list of buffers stays a doubly linked list, no block is cached
  twice, and to its clients the cache is a map from block numbers to contents over the disk: the
  contract \<open>block_cache\<close>, which the log is proved against.
\<close>

section \<open>The linked list\<close>

fun chain :: "('a \<Rightarrow> 'a) \<Rightarrow> 'a list \<Rightarrow> bool" where
  "chain f (a # b # xs) \<longleftrightarrow> f a = b \<and> chain f (b # xs)"
| "chain f _ \<longleftrightarrow> True"

lemma chain_append: "chain f (xs @ y # ys) \<longleftrightarrow> chain f (xs @ [y]) \<and> chain f (y # ys)"
  by (induction f xs rule: chain.induct) (auto split: list.splits)

lemma chain_cong: "(\<And>a. a \<in> set (butlast xs) \<Longrightarrow> f a = g a) \<Longrightarrow> chain f xs = chain g xs"
  by (induction f xs rule: chain.induct) auto

lemma chain_frame: "a \<notin> set (butlast xs) \<Longrightarrow> chain (f(a := b)) xs = chain f xs"
  by (rule chain_cong) auto

lemma chain_remove:
  assumes "chain f (us @ p # b # n # vs)" and "distinct (butlast (us @ p # b # n # vs))"
  shows "chain (f(p := n)) (us @ p # n # vs)"
proof -
  have "chain f (us @ [p])" "chain f (n # vs)"
    using assms(1) chain_append [of f us p "b # n # vs"] by auto
  moreover have "p \<notin> set (butlast (us @ [p]))" "p \<notin> set (butlast (n # vs))"
    using assms(2) by (auto simp: butlast_append)
  ultimately show ?thesis
    using chain_append [of "f(p := n)" us p "n # vs"] by (simp add: chain_frame)
qed

lemma chain_insert:
  assumes "chain f (us @ p # n # vs)" and "distinct (butlast (us @ p # n # vs))"
    and "b \<notin> set (us @ p # n # vs)"
  shows "chain (f(b := n, p := b)) (us @ p # b # n # vs)" "chain (f(p := b, b := n)) (us @ p # b # n # vs)"
proof -
  have c: "chain f (us @ [p])" "chain f (n # vs)"
    using assms(1) chain_append [of f us p "n # vs"] by auto
  have d: "p \<notin> set (butlast (us @ [p]))" "p \<notin> set (butlast (n # vs))"
      "b \<notin> set (butlast (us @ [p]))" "b \<notin> set (butlast (n # vs))" "p \<noteq> b"
    using assms(2,3) by (auto simp: butlast_append dest: in_set_butlastD)
  show "chain (f(b := n, p := b)) (us @ p # b # n # vs)"
    using c d chain_append [of "f(b := n, p := b)" us p "b # n # vs"] by (simp add: chain_frame)
  then show "chain (f(p := b, b := n)) (us @ p # b # n # vs)"
    using d(5) by (simp add: fun_upd_twist)
qed

definition linked :: "(bufref \<Rightarrow> buf) \<Rightarrow> nat list \<Rightarrow> bool" where
  "linked c xs \<longleftrightarrow> distinct xs \<and> set xs = {..<NBUF} \<and>
     chain (\<lambda>b. bnext (c b)) (Head # map Buf xs @ [Head]) \<and>
     chain (\<lambda>b. bprev (c b)) (Head # map Buf (rev xs) @ [Head])"

text \<open>The fields of a buffer other than its links.\<close>

definition core :: "buf \<Rightarrow> buf" where
  "core r = r\<lparr>bprev := Head, bnext := Head\<rparr>"

text \<open>What \<open>brelse\<close> does to the list: unlink, then link in after the head.\<close>

definition unlinked :: "nat \<Rightarrow> (bufref \<Rightarrow> buf) \<Rightarrow> bufref \<Rightarrow> buf" where
  "unlinked i c =
     (let c1 = c(bnext (c (Buf i)) := (c (bnext (c (Buf i))))\<lparr>bprev := bprev (c (Buf i))\<rparr>)
      in c1(bprev (c1 (Buf i)) := (c1 (bprev (c1 (Buf i))))\<lparr>bnext := bnext (c1 (Buf i))\<rparr>))"

definition pushed :: "nat \<Rightarrow> (bufref \<Rightarrow> buf) \<Rightarrow> bufref \<Rightarrow> buf" where
  "pushed i c =
     (let c1 = c(Buf i := (c (Buf i))\<lparr>bnext := bnext (c Head), bprev := Head\<rparr>);
          c2 = c1(bnext (c1 Head) := (c1 (bnext (c1 Head)))\<lparr>bprev := Buf i\<rparr>)
      in c2(Head := (c2 Head)\<lparr>bnext := Buf i\<rparr>))"

lemma links_upd [simp]:
  "(\<lambda>b. bnext ((c(x := (c x)\<lparr>bnext := y\<rparr>)) b)) = (\<lambda>b. bnext (c b))(x := y)"
  "(\<lambda>b. bprev ((c(x := (c x)\<lparr>bnext := y\<rparr>)) b)) = (\<lambda>b. bprev (c b))"
  "(\<lambda>b. bprev ((c(x := (c x)\<lparr>bprev := y\<rparr>)) b)) = (\<lambda>b. bprev (c b))(x := y)"
  "(\<lambda>b. bnext ((c(x := (c x)\<lparr>bprev := y\<rparr>)) b)) = (\<lambda>b. bnext (c b))"
  by (auto simp: fun_eq_iff)

lemma chain_next: "chain f (us @ p # b # n # vs) \<Longrightarrow> f p = b \<and> f b = n"
  using chain_append [of f us p "b # n # vs"] by auto

lemma distinct_nodes: "distinct xs \<Longrightarrow> distinct (butlast (Head # map Buf xs @ [Head]))"
  by (auto simp: butlast_append distinct_map inj_on_def)

lemma unlinked_links:
  assumes "linked c (ys @ i # zs)"
  shows "chain (\<lambda>b. bnext (unlinked i c b)) (Head # map Buf (ys @ zs) @ [Head]) \<and>
         chain (\<lambda>b. bprev (unlinked i c b)) (Head # map Buf (rev (ys @ zs)) @ [Head])"
proof -
  define us where "us = butlast (Head # map Buf ys)"
  define p where "p = last (Head # map Buf ys)"
  define n where "n = hd (map Buf zs @ [Head])"
  define vs where "vs = tl (map Buf zs @ [Head])"
  have L: "Head # map Buf ys = us @ [p]" "map Buf zs @ [Head] = n # vs"
    by (simp_all add: us_def p_def n_def vs_def)
  have nodes: "Head # map Buf (ys @ i # zs) @ [Head] = us @ p # Buf i # n # vs"
      "Head # map Buf (ys @ zs) @ [Head] = us @ p # n # vs"
    using L by simp_all
  have rnodes: "Head # map Buf (rev (ys @ i # zs)) @ [Head] = rev vs @ n # Buf i # p # rev us"
      "Head # map Buf (rev (ys @ zs)) @ [Head] = rev vs @ n # p # rev us"
    using arg_cong [OF nodes(1), of rev] arg_cong [OF nodes(2), of rev] by (simp_all add: rev_map)
  have d: "distinct (ys @ i # zs)" "distinct (rev (ys @ i # zs))" using assms by (auto simp: linked_def)
  have cn: "chain (\<lambda>b. bnext (c b)) (us @ p # Buf i # n # vs)"
    and cp: "chain (\<lambda>b. bprev (c b)) (rev vs @ n # Buf i # p # rev us)"
    using assms unfolding linked_def nodes rnodes by simp_all
  note e = chain_next [OF cn] chain_next [OF cp]
  have "n \<noteq> Buf i" using d(1) by (cases zs) (auto simp: n_def)
  then have u: "(\<lambda>b. bnext (unlinked i c b)) = (\<lambda>b. bnext (c b))(p := n)"
      "(\<lambda>b. bprev (unlinked i c b)) = (\<lambda>b. bprev (c b))(n := p)"
    using e by (auto simp: unlinked_def Let_def fun_eq_iff)
  show ?thesis
    unfolding u nodes(2) rnodes(2)
    using chain_remove [OF cn distinct_nodes [OF d(1), unfolded nodes]]
      chain_remove [OF cp distinct_nodes [OF d(2), unfolded rnodes]] by simp
qed

definition links :: "(bufref \<Rightarrow> buf) \<Rightarrow> nat list \<Rightarrow> bool" where
  "links c xs \<longleftrightarrow> chain (\<lambda>b. bnext (c b)) (Head # map Buf xs @ [Head]) \<and>
     chain (\<lambda>b. bprev (c b)) (Head # map Buf (rev xs) @ [Head])"

lemma pushed_links:
  assumes "links c xs" and "distinct xs" and "i \<notin> set xs"
  shows "links (pushed i c) (i # xs)"
proof -
  define m where "m = hd (map Buf xs @ [Head])"
  define vs where "vs = tl (map Buf xs @ [Head])"
  have L: "map Buf xs @ [Head] = m # vs" by (simp add: m_def vs_def)
  have R: "Head # map Buf (rev xs) = rev vs @ [m]"
    using arg_cong [OF L, of rev] by (simp add: rev_map)
  have N: "Head # map Buf xs @ [Head] = [] @ Head # m # vs"
      "Head # map Buf (rev xs) @ [Head] = rev vs @ m # Head # []"
    using L arg_cong [OF R, of "\<lambda>l. l @ [Head]"] by simp_all
  have cn: "chain (\<lambda>b. bnext (c b)) ([] @ Head # m # vs)"
    and cp: "chain (\<lambda>b. bprev (c b)) (rev vs @ m # Head # [])"
    using assms(1) unfolding links_def N by simp_all
  have dn: "distinct (butlast ([] @ Head # m # vs))" "distinct (butlast (rev vs @ m # Head # []))"
    using distinct_nodes [OF assms(2)] distinct_nodes [of "rev xs"] assms(2) unfolding N by simp_all
  have bn: "Buf i \<notin> set ([] @ Head # m # vs)" "Buf i \<notin> set (rev vs @ m # Head # [])"
    unfolding N [symmetric] using assms(3) by auto
  have m: "bnext (c Head) = m" "m \<noteq> Buf i" using cn bn by auto
  have u: "(\<lambda>b. bnext (pushed i c b)) = (\<lambda>b. bnext (c b))(Buf i := m, Head := Buf i)"
      "(\<lambda>b. bprev (pushed i c b)) = (\<lambda>b. bprev (c b))(Buf i := Head, m := Buf i)"
    using m by (auto simp: pushed_def Let_def fun_eq_iff)
  have "chain (\<lambda>b. bnext (pushed i c b)) (Head # map Buf (i # xs) @ [Head])"
    unfolding u using chain_insert(1) [OF cn dn(1) bn(1)] L by simp
  moreover have M: "Head # map Buf (rev (i # xs)) @ [Head] = rev vs @ m # Buf i # Head # []"
    using arg_cong [OF R, of "\<lambda>l. l @ [Buf i, Head]"] by simp
  have "chain (\<lambda>b. bprev (pushed i c b)) (Head # map Buf (rev (i # xs)) @ [Head])"
    unfolding u M by (rule chain_insert(1) [OF cp dn(2) bn(2)])
  ultimately show ?thesis by (simp add: links_def)
qed

lemma moved_front_linked:
  assumes "linked c (ys @ i # zs)"
  shows "linked (pushed i (unlinked i c)) (i # ys @ zs)"
proof -
  have "links (unlinked i c) (ys @ zs)" using unlinked_links [OF assms] by (simp add: links_def)
  then have "links (pushed i (unlinked i c)) (i # ys @ zs)"
    using assms by (intro pushed_links) (auto simp: linked_def)
  then show ?thesis using assms by (auto simp: linked_def links_def)
qed

lemma moved_front_core: "core (pushed i (unlinked i c) b) = core (c b)"
  by (simp add: pushed_def unlinked_def Let_def core_def)

section \<open>Searching the list\<close>

lemma scan_cached_find:
  assumes "chain (\<lambda>b. bnext (bcache s b)) (map Buf xs @ [Head])" and "length xs < n"
  shows "scan_cached n dev bno (hd (map Buf xs @ [Head])) s =
    Ret (find (\<lambda>i. bdev (bcache s (Buf i)) = dev \<and> bblockno (bcache s (Buf i)) = bno) xs) s"
  using assms
proof (induction xs arbitrary: n)
  case Nil
  then show ?case by (cases n) simp_all
next
  case (Cons i xs)
  then obtain m where n: "n = Suc m" "length xs < m" by (cases n) auto
  have "chain (\<lambda>b. bnext (bcache s b)) (map Buf xs @ [Head])"
      "bnext (bcache s (Buf i)) = hd (map Buf xs @ [Head])"
    using Cons.prems(1) by (cases xs; simp)+
  then show ?case using Cons.IH [OF _ n(2)] by (simp add: n(1) prog_simps)
qed

lemma scan_free_find:
  assumes "chain (\<lambda>b. bprev (bcache s b)) (map Buf xs @ [Head])" and "length xs < n"
  shows "scan_free n (hd (map Buf xs @ [Head])) s = Ret (find (\<lambda>i. brefcnt (bcache s (Buf i)) = 0) xs) s"
  using assms
proof (induction xs arbitrary: n)
  case Nil
  then show ?case by (cases n) simp_all
next
  case (Cons i xs)
  then obtain m where n: "n = Suc m" "length xs < m" by (cases n) auto
  have "chain (\<lambda>b. bprev (bcache s b)) (map Buf xs @ [Head])"
      "bprev (bcache s (Buf i)) = hd (map Buf xs @ [Head])"
    using Cons.prems(1) by (cases xs; simp)+
  then show ?case using Cons.IH [OF _ n(2)] by (simp add: n(1) prog_simps)
qed

lemma chain_hd: "chain f (a # xs @ [b]) \<Longrightarrow> f a = hd (xs @ [b]) \<and> chain f (xs @ [b])"
  by (cases xs) auto

lemma linked_scans:
  assumes "linked (bcache s) xs"
  shows "scan_cached (NBUF + 1) dev bno (bnext (bcache s Head)) s =
      Ret (find (\<lambda>i. bdev (bcache s (Buf i)) = dev \<and> bblockno (bcache s (Buf i)) = bno) xs) s"
    and "scan_free (NBUF + 1) (bprev (bcache s Head)) s =
      Ret (find (\<lambda>i. brefcnt (bcache s (Buf i)) = 0) (rev xs)) s"
proof -
  have "length xs = NBUF"
    using assms distinct_card [of xs] by (simp add: linked_def)
  then have l: "length xs < NBUF + 1" "length (rev xs) < NBUF + 1" by simp_all
  have n: "bnext (bcache s Head) = hd (map Buf xs @ [Head])" "chain (\<lambda>b. bnext (bcache s b)) (map Buf xs @ [Head])"
    using assms chain_hd [of "\<lambda>b. bnext (bcache s b)"] by (auto simp: linked_def)
  have p: "bprev (bcache s Head) = hd (map Buf (rev xs) @ [Head])"
      "chain (\<lambda>b. bprev (bcache s b)) (map Buf (rev xs) @ [Head])"
    using assms chain_hd [of "\<lambda>b. bprev (bcache s b)"] by (auto simp: linked_def)
  show "scan_cached (NBUF + 1) dev bno (bnext (bcache s Head)) s =
      Ret (find (\<lambda>i. bdev (bcache s (Buf i)) = dev \<and> bblockno (bcache s (Buf i)) = bno) xs) s"
    unfolding n(1) by (rule scan_cached_find [OF n(2) l(1)])
  show "scan_free (NBUF + 1) (bprev (bcache s Head)) s =
      Ret (find (\<lambda>i. brefcnt (bcache s (Buf i)) = 0) (rev xs)) s"
    unfolding p(1) by (rule scan_free_find [OF p(2) l(2)])
qed

section \<open>The invariant and the abstract cache\<close>

definition buf_for :: "u32 \<Rightarrow> (bufref \<Rightarrow> buf) \<Rightarrow> u32 \<Rightarrow> nat \<Rightarrow> bool" where
  "buf_for d c b i \<longleftrightarrow> i < NBUF \<and> bdev (c (Buf i)) = d \<and> bblockno (c (Buf i)) = b"

definition cached :: "u32 \<Rightarrow> (bufref \<Rightarrow> buf) \<Rightarrow> u32 \<Rightarrow> nat option" where
  "cached d c b = find (buf_for d c b) [0..<NBUF]"

text \<open>No block of the device has two buffers.\<close>

definition one_buf :: "u32 \<Rightarrow> (bufref \<Rightarrow> buf) \<Rightarrow> bool" where
  "one_buf d c \<longleftrightarrow> (\<forall>b i j. buf_for d c b i \<longrightarrow> buf_for d c b j \<longrightarrow> i = j)"

text \<open>
  The invariant of the cache, for the one device \<open>d\<close> in use, between two calls of a process that holds
  no spinlock. A buffer without users is unlocked and holds what is on the disk, so it can be taken
  for another block.
\<close>

definition buf_ok :: "u32 \<Rightarrow> 'z bio_state_scheme \<Rightarrow> nat \<Rightarrow> bool" where
  "buf_ok d s i \<longleftrightarrow>
     (let r = bcache s (Buf i) in
      length (bdata r) = BSIZE \<and>
      (bdev r = d \<longrightarrow> bvalid r \<noteq> 0) \<and>
      (bdev r \<noteq> d \<longrightarrow> brefcnt r = 0) \<and>
      (brefcnt r = 0 \<longrightarrow> slocked (slocks s (SBuf i)) = 0) \<and>
      (brefcnt r = 0 \<longrightarrow> bdev r = d \<longrightarrow> bdata r = disk s (bblockno r)))"

definition cache_ok :: "u32 \<Rightarrow> 'z bio_state_scheme \<Rightarrow> bool" where
  "cache_ok d s \<longleftrightarrow> (\<exists>xs. linked (bcache s) xs) \<and> one_buf d (bcache s) \<and> (\<forall>i < NBUF. buf_ok d s i) \<and>
     (\<forall>b. length (disk s b) = BSIZE) \<and> held s = {} \<and> curproc s \<noteq> None"

text \<open>What a client sees: contents, users and locks per block, the disk, and the writes to it.\<close>

record cstate =
  cview :: "u32 \<Rightarrow> u8 list"
  crefs :: "u32 \<Rightarrow> nat"
  clocked :: "u32 set"
  cdisk :: "u32 \<Rightarrow> u8 list"
  cwrites :: "(u32 \<times> u8 list) list"

definition cache_abs :: "u32 \<Rightarrow> 'z bio_state_scheme \<Rightarrow> cstate" where
  "cache_abs d s = \<lparr>
     cview = (\<lambda>b. case cached d (bcache s) b of None \<Rightarrow> disk s b | Some i \<Rightarrow> bdata (bcache s (Buf i))),
     crefs = (\<lambda>b. case cached d (bcache s) b of None \<Rightarrow> 0 | Some i \<Rightarrow> unat (brefcnt (bcache s (Buf i)))),
     clocked = {b. case cached d (bcache s) b of None \<Rightarrow> False | Some i \<Rightarrow> slocked (slocks s (SBuf i)) \<noteq> 0},
     cdisk = disk s,
     cwrites = disk_writes s\<rparr>"

text \<open>The current process holds the lock of buffer \<open>i\<close>, which is the buffer of block \<open>b\<close>.\<close>

definition holds_buf :: "u32 \<Rightarrow> 'z bio_state_scheme \<Rightarrow> nat \<Rightarrow> u32 \<Rightarrow> bool" where
  "holds_buf d s i b \<longleftrightarrow> buf_for d (bcache s) b i \<and> slocked (slocks s (SBuf i)) \<noteq> 0 \<and>
     (\<exists>p. curproc s = Some p \<and> slpid (slocks s (SBuf i)) = pid (procs s p))"

lemma find_unique:
  assumes "\<And>i j. P i \<Longrightarrow> P j \<Longrightarrow> i = j" and "P i" and "i \<in> set xs"
  shows "find P xs = Some i"
proof -
  have "find P xs \<noteq> None" using assms(2,3) by (auto simp: find_None_iff)
  then obtain j where j: "find P xs = Some j" by auto
  then have "P j" by (auto simp: find_Some_iff)
  then show ?thesis using j assms(1,2) by auto
qed

lemma cached_Some:
  assumes "one_buf d c"
  shows "cached d c b = Some i \<longleftrightarrow> buf_for d c b i"
proof
  assume "cached d c b = Some i"
  then show "buf_for d c b i" by (auto simp: cached_def find_Some_iff)
next
  assume i: "buf_for d c b i"
  then have "i \<in> set [0..<NBUF]" by (simp add: buf_for_def)
  with i show "cached d c b = Some i"
    unfolding cached_def using assms by (intro find_unique) (auto simp: one_buf_def)
qed

lemma cached_None: "cached d c b = None \<longleftrightarrow> (\<forall>i. \<not> buf_for d c b i)"
  by (auto simp: cached_def find_None_iff buf_for_def)

lemma find_cached:
  assumes "one_buf d c" and "set xs = {..<NBUF}"
  shows "find (\<lambda>i. bdev (c (Buf i)) = d \<and> bblockno (c (Buf i)) = b) xs = cached d c b"
proof -
  have e: "find (\<lambda>i. bdev (c (Buf i)) = d \<and> bblockno (c (Buf i)) = b) xs = find (buf_for d c b) xs"
    using assms(2) by (intro find_cong) (auto simp: buf_for_def)
  show ?thesis
  proof (cases "cached d c b")
    case None
    then have "find (buf_for d c b) xs = None" by (auto simp: cached_None find_None_iff)
    then show ?thesis by (simp add: e None)
  next
    case (Some i)
    then have i: "buf_for d c b i" by (simp add: cached_Some [OF assms(1)])
    then have "i \<in> set xs" using assms(2) by (simp add: buf_for_def)
    then have "find (buf_for d c b) xs = Some i"
      using assms(1) i by (intro find_unique) (auto simp: one_buf_def)
    then show ?thesis by (simp add: e Some)
  qed
qed

section \<open>Changing one buffer\<close>

lemma linked_cong:
  "(\<And>b. bnext (c' b) = bnext (c b) \<and> bprev (c' b) = bprev (c b)) \<Longrightarrow> linked c' xs = linked c xs"
  by (simp add: linked_def)

text \<open>
  A buffer that is the buffer of \<open>b\<close>, or is free when there is none, becomes the buffer \<open>r\<close> of \<open>b\<close>
  with the lock \<open>k\<close>.
\<close>

definition set_buf :: "nat \<Rightarrow> buf \<Rightarrow> sleeplock \<Rightarrow> 'z bio_state_scheme \<Rightarrow> 'z bio_state_scheme" where
  "set_buf i r k s = s\<lparr>bcache := (bcache s)(Buf i := r), slocks := (slocks s)(SBuf i := k)\<rparr>"

definition can_hold :: "u32 \<Rightarrow> 'z bio_state_scheme \<Rightarrow> u32 \<Rightarrow> nat \<Rightarrow> bool" where
  "can_hold d s b i \<longleftrightarrow> buf_for d (bcache s) b i \<or>
     i < NBUF \<and> cached d (bcache s) b = None \<and> brefcnt (bcache s (Buf i)) = 0"

definition new_buf :: "u32 \<Rightarrow> u32 \<Rightarrow> u8 list \<Rightarrow> buf \<Rightarrow> buf \<Rightarrow> sleeplock \<Rightarrow> bool" where
  "new_buf d b x r0 r k \<longleftrightarrow> bdev r = d \<and> bblockno r = b \<and> bvalid r \<noteq> 0 \<and> length (bdata r) = BSIZE \<and>
     bnext r = bnext r0 \<and> bprev r = bprev r0 \<and> (brefcnt r = 0 \<longrightarrow> slocked k = 0 \<and> bdata r = x)"

lemma set_buf_for:
  assumes "one_buf d (bcache s)" and "can_hold d s b i" and "bdev r = d" and "bblockno r = b"
  shows "buf_for d (bcache (set_buf i r k s)) b' j \<longleftrightarrow> (if b' = b then j = i else j \<noteq> i \<and> buf_for d (bcache s) b' j)"
  using assms by (auto simp: set_buf_def buf_for_def can_hold_def one_buf_def cached_None)

lemma set_buf_ok:
  assumes "cache_ok d s" and "can_hold d s b i" and "new_buf d b (disk s b) (bcache s (Buf i)) r k"
  shows "cache_ok d (set_buf i r k s)"
proof -
  have u: "one_buf d (bcache s)" using assms(1) by (simp add: cache_ok_def)
  have r: "bdev r = d" "bblockno r = b" using assms(3) by (simp_all add: new_buf_def)
  note f = set_buf_for [OF u assms(2) r]
  have one: "one_buf d (bcache (set_buf i r k s))"
    using u unfolding one_buf_def f by (auto split: if_splits)
  obtain xs where "linked (bcache s) xs" using assms(1) by (auto simp: cache_ok_def)
  then have "linked (bcache (set_buf i r k s)) xs"
    using assms(3) by (subst linked_cong [of _ "bcache s"]) (auto simp: set_buf_def new_buf_def)
  moreover have "buf_ok d (set_buf i r k s) j" if "j < NBUF" for j
    using assms(1,3) that by (auto simp: set_buf_def cache_ok_def buf_ok_def Let_def new_buf_def)
  ultimately show ?thesis
    using assms(1) one by (auto simp: cache_ok_def) (simp_all add: set_buf_def)
qed

lemma set_buf_other:
  assumes ok: "cache_ok d s" and c: "can_hold d s b i" and n: "new_buf d b (disk s b) (bcache s (Buf i)) r k"
    and x: "x \<noteq> b"
  shows "cview (cache_abs d (set_buf i r k s)) x = cview (cache_abs d s) x"
    "crefs (cache_abs d (set_buf i r k s)) x = crefs (cache_abs d s) x"
    "x \<in> clocked (cache_abs d (set_buf i r k s)) \<longleftrightarrow> x \<in> clocked (cache_abs d s)"
proof -
  let ?t = "set_buf i r k s"
  have u: "one_buf d (bcache s)" using ok by (simp add: cache_ok_def)
  have ut: "one_buf d (bcache ?t)" using set_buf_ok [OF ok c n] by (simp add: cache_ok_def)
  have r: "bdev r = d" "bblockno r = b" using n by (simp_all add: new_buf_def)
  note f = set_buf_for [OF u c r]
  consider (none) "cached d (bcache s) x = None" | (i) "cached d (bcache s) x = Some i"
    | (j) j where "cached d (bcache s) x = Some j" "j \<noteq> i"
    by (cases "cached d (bcache s) x") auto
  then have "cview (cache_abs d ?t) x = cview (cache_abs d s) x \<and>
     crefs (cache_abs d ?t) x = crefs (cache_abs d s) x \<and>
     (x \<in> clocked (cache_abs d ?t) \<longleftrightarrow> x \<in> clocked (cache_abs d s))"
  proof cases
    case none
    then have "cached d (bcache ?t) x = None" using x by (auto simp: cached_None f)
    then show ?thesis using none by (simp add: cache_abs_def set_buf_def)
  next
    case i
    then have bi: "buf_for d (bcache s) x i" by (simp add: cached_Some [OF u])
    then have free: "brefcnt (bcache s (Buf i)) = 0" using c x by (auto simp: can_hold_def buf_for_def)
    have "buf_ok d s i" using ok bi by (auto simp: cache_ok_def buf_for_def)
    then have "bdata (bcache s (Buf i)) = disk s x" "slocked (slocks s (SBuf i)) = 0"
      using free bi by (auto simp: buf_ok_def buf_for_def Let_def)
    moreover have "cached d (bcache ?t) x = None"
      using x bi u by (auto simp: cached_None f one_buf_def)
    ultimately show ?thesis using i free by (simp add: cache_abs_def set_buf_def)
  next
    case j
    then have "cached d (bcache ?t) x = Some j" using x by (simp add: cached_Some [OF ut] cached_Some [OF u] f)
    then show ?thesis using j by (simp add: cache_abs_def set_buf_def)
  qed
  then show "cview (cache_abs d ?t) x = cview (cache_abs d s) x" "crefs (cache_abs d ?t) x = crefs (cache_abs d s) x"
    "x \<in> clocked (cache_abs d ?t) \<longleftrightarrow> x \<in> clocked (cache_abs d s)" by simp_all
qed

lemma set_buf_abs:
  assumes "cache_ok d s" and "can_hold d s b i" and "new_buf d b (disk s b) (bcache s (Buf i)) r k"
  shows "cache_abs d (set_buf i r k s) = (cache_abs d s)
    \<lparr>cview := (cview (cache_abs d s))(b := bdata r), crefs := (crefs (cache_abs d s))(b := unat (brefcnt r)),
     clocked := (if slocked k = 0 then clocked (cache_abs d s) - {b} else insert b (clocked (cache_abs d s)))\<rparr>"
    (is "?t = ?u")
proof -
  have u: "one_buf d (bcache s)" using assms(1) by (simp add: cache_ok_def)
  have r: "bdev r = d" "bblockno r = b" using assms(3) by (simp_all add: new_buf_def)
  have "one_buf d (bcache (set_buf i r k s))" using set_buf_ok [OF assms] by (simp add: cache_ok_def)
  then have cb: "cached d (bcache (set_buf i r k s)) b = Some i"
    by (simp add: cached_Some set_buf_for [OF u assms(2) r])
  note o = set_buf_other [OF assms]
  have at_b: "cview ?t b = bdata r" "crefs ?t b = unat (brefcnt r)" "b \<in> clocked ?t \<longleftrightarrow> slocked k \<noteq> 0"
    unfolding cache_abs_def by (simp_all add: cb) (simp_all add: set_buf_def)
  have "cview ?t = cview ?u" by (rule ext) (simp add: o at_b)
  moreover have "crefs ?t = crefs ?u" by (rule ext) (simp add: o at_b)
  moreover have "clocked ?t = clocked ?u"
  proof (rule set_eqI)
    show "x \<in> clocked ?t \<longleftrightarrow> x \<in> clocked ?u" for x by (cases "x = b") (simp_all add: o at_b)
  qed
  moreover have "cdisk ?t = cdisk ?u" "cwrites ?t = cwrites ?u"
    by (simp_all add: cache_abs_def set_buf_def)
  ultimately show ?thesis by (intro cstate.equality) simp_all
qed

text \<open>Moving buffers in the list changes nothing else.\<close>

lemma relinked:
  assumes "cache_ok d s" and "\<And>b. core (c b) = core (bcache s b)" and "linked c xs"
  shows "cache_ok d (s\<lparr>bcache := c\<rparr>)" and "cache_abs d (s\<lparr>bcache := c\<rparr>) = cache_abs d s"
    and "buf_for d c = buf_for d (bcache s)"
proof -
  have e: "bvalid (c b) = bvalid (bcache s b)" "bdev (c b) = bdev (bcache s b)"
      "bblockno (c b) = bblockno (bcache s b)" "brefcnt (c b) = brefcnt (bcache s b)"
      "bdata (c b) = bdata (bcache s b)" for b
    using arg_cong [OF assms(2), of bvalid b] arg_cong [OF assms(2), of bdev b]
      arg_cong [OF assms(2), of bblockno b] arg_cong [OF assms(2), of brefcnt b]
      arg_cong [OF assms(2), of bdata b] by (simp_all add: core_def)
  show f: "buf_for d c = buf_for d (bcache s)" by (simp add: buf_for_def fun_eq_iff e)
  then have g: "cached d c b = cached d (bcache s) b" for b by (simp add: cached_def)
  show "cache_ok d (s\<lparr>bcache := c\<rparr>)"
    using assms(1,3) by (auto simp: cache_ok_def one_buf_def f buf_ok_def e Let_def)
  show "cache_abs d (s\<lparr>bcache := c\<rparr>) = cache_abs d s"
    by (simp add: cache_abs_def g e cong: option.case_cong)
qed

section \<open>The operations\<close>

text \<open>\<open>cache_frame s t\<close>: between \<open>s\<close> and \<open>t\<close> only the cache, its locks, the disk and other processes changed.\<close>

definition cache_frame :: "'z bio_state_scheme \<Rightarrow> 'z bio_state_scheme \<Rightarrow> bool" where
  "cache_frame s t \<longleftrightarrow> t = s\<lparr>bcache := bcache t, slocks := slocks t, disk := disk t, disk_writes := disk_writes t,
     procs := procs t\<rparr> \<and> (\<forall>p. curproc s = Some p \<longrightarrow> procs t p = procs s p)"

lemma cache_frame_curproc:
  assumes "cache_frame s t"
  shows "curproc t = curproc s"
proof -
  have "t = s\<lparr>bcache := bcache t, slocks := slocks t, disk := disk t, disk_writes := disk_writes t,
     procs := procs t\<rparr>" using assms by (simp add: cache_frame_def)
  from arg_cong [OF this, of curproc] show ?thesis by simp
qed

lemma cache_frame_refl [simp]: "cache_frame s s"
  by (simp add: cache_frame_def)

lemma set_buf_frame: "cache_frame s (set_buf i r k s)"
  by (simp add: cache_frame_def set_buf_def)

lemma set_buf_holds:
  assumes "holds_buf d s j b" and "j \<noteq> i"
  shows "holds_buf d (set_buf i r k s) j b"
  using assms by (auto simp: holds_buf_def set_buf_def buf_for_def)

lemma bread_hit:
  assumes ok: "cache_ok d s" and p: "curproc s = Some p" and c: "cached d (bcache s) b = Some i"
    and free: "slocked (slocks s (SBuf i)) = 0"
  shows "bread d b s = Ret i (set_buf i ((bcache s (Buf i))\<lparr>brefcnt := brefcnt (bcache s (Buf i)) + 1\<rparr>)
     \<lparr>slocked = 1, slpid = pid (procs s p)\<rparr> s)"
proof -
  have u: "one_buf d (bcache s)" and h: "held s = {}" using ok by (simp_all add: cache_ok_def)
  obtain xs where xs: "linked (bcache s) xs" using ok by (auto simp: cache_ok_def)
  have "buf_for d (bcache s) b i" using c by (simp add: cached_Some [OF u])
  then have v: "bvalid (bcache s (Buf i)) \<noteq> 0" using ok by (auto simp: cache_ok_def buf_for_def buf_ok_def Let_def)
  let ?s = "s\<lparr>held := {LBcache}\<rparr>" and ?r = "(bcache s (Buf i))\<lparr>brefcnt := brefcnt (bcache s (Buf i)) + 1\<rparr>"
  have "scan_cached (NBUF + 1) d b (bnext (bcache ?s Head)) ?s = Ret (Some i) ?s"
    using linked_scans(1) [of ?s xs d b] xs find_cached [OF u, of xs b] c by (simp add: linked_def)
  moreover have "acquiresleep (SBuf i) (s\<lparr>bcache := (bcache s)(Buf i := ?r), held := {}\<rparr>) =
      Ret () (set_buf i ?r \<lparr>slocked = 1, slpid = pid (procs s p)\<rparr> s)"
    using acquiresleep_free [of "s\<lparr>bcache := (bcache s)(Buf i := ?r), held := {}\<rparr>" p "SBuf i"] h p free
    by (simp add: set_buf_def)
  ultimately have "bget d b s = Ret i (set_buf i ?r \<lparr>slocked = 1, slpid = pid (procs s p)\<rparr> s)"
    using h by (simp add: bget_def prog_simps)
  then show ?thesis using v by (simp add: bread_def prog_simps) (simp add: set_buf_def prog_simps)
qed

lemma crefs_finite: "finite {b. 0 < crefs (cache_abs d s) b}"
proof (rule finite_subset)
  show "{b. 0 < crefs (cache_abs d s) b} \<subseteq> (\<lambda>i. bblockno (bcache s (Buf i))) ` {..<NBUF}"
    by (auto simp: cache_abs_def cached_def find_Some_iff buf_for_def split: option.splits)
qed simp

lemma free_buffer:
  assumes ok: "cache_ok d s" and card: "card {b. 0 < crefs (cache_abs d s) b} < NBUF"
  shows "\<exists>i < NBUF. brefcnt (bcache s (Buf i)) = 0"
proof (rule ccontr)
  assume "\<not> ?thesis"
  then have ref: "brefcnt (bcache s (Buf i)) \<noteq> 0" if "i < NBUF" for i using that by blast
  have u: "one_buf d (bcache s)" using ok by (simp add: cache_ok_def)
  let ?f = "\<lambda>i. bblockno (bcache s (Buf i))"
  have for_i: "buf_for d (bcache s) (?f i) i" if "i < NBUF" for i
    using ok ref [OF that] that by (auto simp: cache_ok_def buf_ok_def Let_def buf_for_def)
  have "inj_on ?f {..<NBUF}"
    using for_i u unfolding one_buf_def inj_on_def by (metis lessThan_iff)
  then have "card (?f ` {..<NBUF}) = NBUF" by (simp add: card_image)
  moreover have "card (?f ` {..<NBUF}) \<le> card {b. 0 < crefs (cache_abs d s) b}"
  proof (rule card_mono [OF crefs_finite], clarify)
    fix i assume "i < NBUF"
    then have "cached d (bcache s) (?f i) = Some i" using for_i by (simp add: cached_Some [OF u])
    then show "0 < crefs (cache_abs d s) (?f i)"
      using ref [OF \<open>i < NBUF\<close>] by (simp add: cache_abs_def unat_gt_0)
  qed
  ultimately show False using card by simp
qed

lemma slocks_bcache: "s\<lparr>slocks := k, bcache := c\<rparr> = s\<lparr>bcache := c, slocks := k\<rparr>"
  by simp

definition loaded_buf :: "u32 \<Rightarrow> u32 \<Rightarrow> 'z bio_state_scheme \<Rightarrow> nat \<Rightarrow> buf" where
  "loaded_buf d b s i = (bcache s (Buf i))\<lparr>bdev := d, bblockno := b, brefcnt := 1,
     bdata := disk s b, bdisk := 0, bvalid := 1\<rparr>"

lemma bread_miss:
  assumes ok: "cache_ok d s" and p: "curproc s = Some p" and c: "cached d (bcache s) b = None"
    and free: "j < NBUF" "brefcnt (bcache s (Buf j)) = 0"
  shows "\<exists>i < NBUF. brefcnt (bcache s (Buf i)) = 0 \<and>
     bread d b s = Ret i (set_buf i (loaded_buf d b s i) \<lparr>slocked = 1, slpid = pid (procs s p)\<rparr> s)"
proof -
  have u: "one_buf d (bcache s)" and h: "held s = {}" using ok by (simp_all add: cache_ok_def)
  obtain xs where xs: "linked (bcache s) xs" using ok by (auto simp: cache_ok_def)
  let ?s = "s\<lparr>held := {LBcache}\<rparr>"
  have "j \<in> set (rev xs)" using xs free(1) by (simp add: linked_def)
  then have "find (\<lambda>i. brefcnt (bcache s (Buf i)) = 0) (rev xs) \<noteq> None"
    using free(2) unfolding find_None_iff by blast
  then obtain i where i: "find (\<lambda>i. brefcnt (bcache s (Buf i)) = 0) (rev xs) = Some i" by blast
  then have "i \<in> set (rev xs)" "brefcnt (bcache s (Buf i)) = 0"
    by (auto simp: find_Some_iff) (metis nth_mem length_rev set_rev)
  then have iN: "i < NBUF" "brefcnt (bcache s (Buf i)) = 0" using xs by (auto simp: linked_def)
  then have sl: "slocked (slocks s (SBuf i)) = 0" using ok by (auto simp: cache_ok_def buf_ok_def Let_def)
  let ?r = "(bcache s (Buf i))\<lparr>bdev := d, bblockno := b, bvalid := 0, brefcnt := 1\<rparr>"
  let ?k = "\<lparr>slocked = 1, slpid = pid (procs s p)\<rparr>"
  have "scan_cached (NBUF + 1) d b (bnext (bcache ?s Head)) ?s = Ret None ?s"
    using linked_scans(1) [of ?s xs d b] xs find_cached [OF u, of xs b] c by (simp add: linked_def)
  moreover have "scan_free (NBUF + 1) (bprev (bcache ?s Head)) ?s = Ret (Some i) ?s"
    using linked_scans(2) [of ?s xs] xs i by simp
  moreover have "acquiresleep (SBuf i) (s\<lparr>bcache := (bcache s)(Buf i := ?r), held := {}\<rparr>) =
      Ret () (set_buf i ?r ?k s)"
    using acquiresleep_free [of "s\<lparr>bcache := (bcache s)(Buf i := ?r), held := {}\<rparr>" p "SBuf i"] h p sl
    by (simp add: set_buf_def)
  ultimately have "bget d b s = Ret i (set_buf i ?r ?k s)"
    using h by (simp add: bget_def prog_simps)
  then have "bread d b s = Ret i (set_buf i (loaded_buf d b s i) ?k s)"
    by (simp add: bread_def prog_simps disk_rw_def set_buf_def loaded_buf_def slocks_bcache)
  then show ?thesis using iN by blast
qed

lemma cache_abs_at:
  assumes "cache_ok d s" and "buf_for d (bcache s) b i"
  shows "cview (cache_abs d s) b = bdata (bcache s (Buf i))"
    "crefs (cache_abs d s) b = unat (brefcnt (bcache s (Buf i)))"
    "b \<in> clocked (cache_abs d s) \<longleftrightarrow> slocked (slocks s (SBuf i)) \<noteq> 0"
    "cached d (bcache s) b = Some i"
proof -
  show "cached d (bcache s) b = Some i" using assms by (simp add: cached_Some cache_ok_def)
  then show "cview (cache_abs d s) b = bdata (bcache s (Buf i))"
    "crefs (cache_abs d s) b = unat (brefcnt (bcache s (Buf i)))"
    "b \<in> clocked (cache_abs d s) \<longleftrightarrow> slocked (slocks s (SBuf i)) \<noteq> 0"
    by (simp_all add: cache_abs_def)
qed

text \<open>The common part: a client that was given the lock of a buffer.\<close>

lemma set_buf_locked:
  assumes ok: "cache_ok d s" and p: "curproc s = Some p" and c: "can_hold d s b i"
    and n: "new_buf d b (disk s b) (bcache s (Buf i)) r \<lparr>slocked = 1, slpid = pid (procs s p)\<rparr>"
    and free: "slocked (slocks s (SBuf i)) = 0"
  defines "t \<equiv> set_buf i r \<lparr>slocked = 1, slpid = pid (procs s p)\<rparr> s"
  shows "cache_ok d t \<and> cache_frame s t \<and> holds_buf d t i b \<and> (\<forall>j x. holds_buf d s j x \<longrightarrow> holds_buf d t j x) \<and>
    cache_abs d t = (cache_abs d s)\<lparr>cview := (cview (cache_abs d s))(b := bdata r),
      crefs := (crefs (cache_abs d s))(b := unat (brefcnt r)), clocked := insert b (clocked (cache_abs d s))\<rparr>"
proof -
  have "holds_buf d t j x" if "holds_buf d s j x" for j x
    unfolding t_def using that free by (intro set_buf_holds) (auto simp: holds_buf_def)
  moreover have "holds_buf d t i b"
    using n p c by (auto simp: t_def holds_buf_def set_buf_def buf_for_def new_buf_def can_hold_def)
  ultimately show ?thesis
    using set_buf_ok [OF ok c n] set_buf_abs [OF ok c n] set_buf_frame [of s i r] by (simp add: t_def)
qed

lemma bread_any:
  assumes ok: "cache_ok d s" and p: "curproc s = Some p" and "b \<notin> clocked (cache_abs d s)"
    and bound: "Suc (crefs (cache_abs d s) b) < 2 ^ 32"
    and room: "cached d (bcache s) b \<noteq> None \<or> (\<exists>i < NBUF. brefcnt (bcache s (Buf i)) = 0)"
  shows "\<exists>i t. bread d b s = Ret i t \<and> cache_ok d t \<and> cache_frame s t \<and> holds_buf d t i b \<and>
    (\<forall>j x. holds_buf d s j x \<longrightarrow> holds_buf d t j x) \<and>
    cache_abs d t = (cache_abs d s)\<lparr>crefs := (crefs (cache_abs d s))(b := Suc (crefs (cache_abs d s) b)),
      clocked := insert b (clocked (cache_abs d s))\<rparr>"
proof (cases "cached d (bcache s) b")
  case (Some i)
  then have f: "buf_for d (bcache s) b i" using ok by (simp add: cached_Some cache_ok_def)
  note at = cache_abs_at [OF ok f]
  let ?r = "(bcache s (Buf i))\<lparr>brefcnt := brefcnt (bcache s (Buf i)) + 1\<rparr>"
  have sl: "slocked (slocks s (SBuf i)) = 0" using assms(3) at(3) by simp
  have u: "unat (brefcnt (bcache s (Buf i)) + 1) = Suc (crefs (cache_abs d s) b)"
    using bound at(2) by (simp add: unat_word_ariths)
  have "buf_ok d s i" using ok f by (auto simp: cache_ok_def buf_for_def)
  then have n: "new_buf d b (disk s b) (bcache s (Buf i)) ?r \<lparr>slocked = 1, slpid = pid (procs s p)\<rparr>"
    using f u by (auto simp: new_buf_def buf_ok_def buf_for_def Let_def)
  have "can_hold d s b i" using f by (simp add: can_hold_def)
  from set_buf_locked [OF ok p this n sl] bread_hit [OF ok p Some sl] show ?thesis
    by (simp add: u at(1) [symmetric])
next
  case None
  then have v: "cview (cache_abs d s) b = disk s b" "crefs (cache_abs d s) b = 0"
    by (simp_all add: cache_abs_def)
  then obtain j where "j < NBUF" "brefcnt (bcache s (Buf j)) = 0" using room None by auto
  from bread_miss [OF ok p None this] obtain i where i: "i < NBUF" "brefcnt (bcache s (Buf i)) = 0"
    "bread d b s = Ret i (set_buf i (loaded_buf d b s i) \<lparr>slocked = 1, slpid = pid (procs s p)\<rparr> s)"
    by blast
  have sl: "slocked (slocks s (SBuf i)) = 0" using ok i by (auto simp: cache_ok_def buf_ok_def Let_def)
  have n: "new_buf d b (disk s b) (bcache s (Buf i)) (loaded_buf d b s i)
      \<lparr>slocked = 1, slpid = pid (procs s p)\<rparr>"
    using ok by (simp add: new_buf_def loaded_buf_def cache_ok_def)
  have "can_hold d s b i" using None i by (simp add: can_hold_def)
  from set_buf_locked [OF ok p this n sl] i(3) v show ?thesis
    by (simp add: loaded_buf_def fun_upd_idem)
qed

lemma bread_contract:
  assumes ok: "cache_ok d s" and "b \<notin> clocked (cache_abs d s)"
    and room: "0 < crefs (cache_abs d s) b \<or> card {x. 0 < crefs (cache_abs d s) x} < NBUF"
    and "Suc (crefs (cache_abs d s) b) < 2 ^ 32"
  shows "\<exists>i t. bread d b s = Ret i t \<and> cache_ok d t \<and> cache_frame s t \<and> holds_buf d t i b \<and>
    (\<forall>j x. holds_buf d s j x \<longrightarrow> holds_buf d t j x) \<and>
    cache_abs d t = (cache_abs d s)\<lparr>crefs := (crefs (cache_abs d s))(b := Suc (crefs (cache_abs d s) b)),
      clocked := insert b (clocked (cache_abs d s))\<rparr>"
proof -
  obtain p where p: "curproc s = Some p" using ok by (auto simp: cache_ok_def)
  have "cached d (bcache s) b \<noteq> None" if "0 < crefs (cache_abs d s) b"
    using that by (auto simp: cache_abs_def split: option.splits)
  then have "cached d (bcache s) b \<noteq> None \<or> (\<exists>i < NBUF. brefcnt (bcache s (Buf i)) = 0)"
    using free_buffer [OF ok] room by auto
  then show ?thesis by (rule bread_any [OF ok p assms(2,4)])
qed

text \<open>What a client may do with a buffer whose lock it holds.\<close>

lemma holds_buf_facts:
  assumes "cache_ok d s" and "holds_buf d s i b"
  shows "buf_for d (bcache s) b i" "can_hold d s b i" "brefcnt (bcache s (Buf i)) \<noteq> 0"
    "bdata (bcache s (Buf i)) = cview (cache_abs d s) b" "b \<in> clocked (cache_abs d s)"
    "0 < crefs (cache_abs d s) b" "bvalid (bcache s (Buf i)) \<noteq> 0" "length (bdata (bcache s (Buf i))) = BSIZE"
    "bblockno (bcache s (Buf i)) = b"
proof -
  show f: "buf_for d (bcache s) b i" using assms(2) by (simp add: holds_buf_def)
  then show "can_hold d s b i" "bblockno (bcache s (Buf i)) = b" by (simp_all add: can_hold_def buf_for_def)
  have b: "buf_ok d s i" using assms(1) f by (auto simp: cache_ok_def buf_for_def)
  then show r: "brefcnt (bcache s (Buf i)) \<noteq> 0" "bvalid (bcache s (Buf i)) \<noteq> 0"
      "length (bdata (bcache s (Buf i))) = BSIZE"
    using assms(2) f by (auto simp: buf_ok_def Let_def holds_buf_def buf_for_def)
  show "bdata (bcache s (Buf i)) = cview (cache_abs d s) b" "b \<in> clocked (cache_abs d s)"
    "0 < crefs (cache_abs d s) b"
    using cache_abs_at [OF assms(1) f] assms(2) r(1) by (auto simp: holds_buf_def unat_gt_0)
qed

lemma holds_buf_one: "holds_buf d s i b \<Longrightarrow> holds_buf d s i c \<Longrightarrow> b = c"
  by (auto simp: holds_buf_def buf_for_def)

lemma set_data_contract:
  assumes ok: "cache_ok d s" and h: "holds_buf d s i b"
    and len: "length (f (cview (cache_abs d s) b)) = BSIZE"
  shows "\<exists>t. set_data i f s = Ret () t \<and> cache_ok d t \<and> cache_frame s t \<and> holds_buf d t = holds_buf d s \<and>
    cache_abs d t = (cache_abs d s)\<lparr>cview := (cview (cache_abs d s))(b := f (cview (cache_abs d s) b))\<rparr>"
proof -
  note hb = holds_buf_facts [OF ok h]
  let ?r = "(bcache s (Buf i))\<lparr>bdata := f (cview (cache_abs d s) b)\<rparr>" and ?k = "slocks s (SBuf i)"
  have n: "new_buf d b (disk s b) (bcache s (Buf i)) ?r ?k"
    using hb len by (simp add: new_buf_def buf_for_def)
  have sl: "slocked ?k \<noteq> 0" using h by (simp add: holds_buf_def)
  have "set_data i f s = Ret () (set_buf i ?r ?k s)"
    using hb(4) by (simp add: set_data_def set_buf_def)
  moreover have "holds_buf d (set_buf i ?r ?k s) = holds_buf d s"
    by (auto simp: holds_buf_def set_buf_def buf_for_def fun_eq_iff)
  moreover have "insert b (clocked (cache_abs d s)) = clocked (cache_abs d s)"
    "(crefs (cache_abs d s))(b := unat (brefcnt (bcache s (Buf i)))) = crefs (cache_abs d s)"
    using hb(5) cache_abs_at(2) [OF ok hb(1)] by auto
  ultimately show ?thesis
    using set_buf_ok [OF ok hb(2) n] set_buf_abs [OF ok hb(2) n] sl set_buf_frame [of s i ?r ?k]
    by simp
qed

lemma bwrite_contract:
  assumes ok: "cache_ok d s" and h: "holds_buf d s i b"
  shows "\<exists>t. bwrite i s = Ret () t \<and> cache_ok d t \<and> cache_frame s t \<and> holds_buf d t = holds_buf d s \<and>
    cache_abs d t = (cache_abs d s)\<lparr>cdisk := (cdisk (cache_abs d s))(b := cview (cache_abs d s) b),
      cwrites := cwrites (cache_abs d s) @ [(b, cview (cache_abs d s) b)]\<rparr>"
proof -
  note hb = holds_buf_facts [OF ok h]
  have u: "one_buf d (bcache s)" using ok by (simp add: cache_ok_def)
  let ?x = "cview (cache_abs d s) b"
  define c where "c = (bcache s)(Buf i := (bcache s (Buf i))\<lparr>bdisk := 0\<rparr>)"
  let ?t = "s\<lparr>disk := (disk s)(b := ?x), disk_writes := disk_writes s @ [(b, ?x)], bcache := c\<rparr>"
  obtain p where p: "curproc s = Some p" "slpid (slocks s (SBuf i)) = pid (procs s p)"
      "slocked (slocks s (SBuf i)) \<noteq> 0" "held s = {}"
    using h ok by (auto simp: holds_buf_def cache_ok_def)
  have run: "bwrite i s = Ret () ?t"
    using hb(4,9) holdingsleep_apply [OF p(4,1), of "SBuf i"] p
    by (simp add: bwrite_def prog_simps disk_rw_def c_def)
  have e: "bvalid (c x) = bvalid (bcache s x)" "bdev (c x) = bdev (bcache s x)"
      "bblockno (c x) = bblockno (bcache s x)" "brefcnt (c x) = brefcnt (bcache s x)"
      "bdata (c x) = bdata (bcache s x)" "bnext (c x) = bnext (bcache s x)" "bprev (c x) = bprev (bcache s x)" for x
    by (simp_all add: c_def)
  have f: "buf_for d c = buf_for d (bcache s)" by (simp add: buf_for_def fun_eq_iff e)
  have g: "cached d c x = cached d (bcache s) x" for x by (simp add: cached_def f)
  have "\<exists>xs. linked c xs" using ok linked_cong [of c "bcache s"] by (auto simp: cache_ok_def e)
  moreover have "buf_ok d ?t j" if j: "j < NBUF" for j
  proof -
    have "bblockno (bcache s (Buf j)) \<noteq> b" if "j \<noteq> i" "bdev (bcache s (Buf j)) = d"
      using u hb(1) j that by (auto simp: one_buf_def buf_for_def)
    moreover have "buf_ok d s j" using ok j by (simp add: cache_ok_def)
    ultimately show ?thesis using hb(3) by (auto simp: buf_ok_def Let_def e)
  qed
  moreover have "length ?x = BSIZE" using hb(4,8) by simp
  ultimately have "cache_ok d ?t" using ok by (auto simp: cache_ok_def one_buf_def f)
  moreover have "cache_frame s ?t" by (simp add: cache_frame_def)
  moreover have "holds_buf d ?t = holds_buf d s" by (simp add: holds_buf_def fun_eq_iff f)
  moreover have "cache_abs d ?t = (cache_abs d s)\<lparr>cdisk := (cdisk (cache_abs d s))(b := ?x),
      cwrites := cwrites (cache_abs d s) @ [(b, ?x)]\<rparr>"
    using cache_abs_at(4) [OF ok hb(1)]
    by (intro cstate.equality) (auto simp: cache_abs_def g e fun_eq_iff split: option.splits)
  ultimately show ?thesis using run by blast
qed

lemma unat_dec: "(x :: u32) \<noteq> 0 \<Longrightarrow> unat (x - 1) = unat x - 1"
  by (simp add: unat_minus_one)

text \<open>\<open>bpin\<close> and \<open>bunpin\<close> by the holder of the lock.\<close>

lemma bpin_contract:
  assumes ok: "cache_ok d s" and h: "holds_buf d s i b" and bound: "Suc (crefs (cache_abs d s) b) < 2 ^ 32"
  shows "\<exists>t. bpin i s = Ret () t \<and> cache_ok d t \<and> cache_frame s t \<and> holds_buf d t = holds_buf d s \<and>
    cache_abs d t = (cache_abs d s)\<lparr>crefs := (crefs (cache_abs d s))(b := Suc (crefs (cache_abs d s) b))\<rparr>"
proof -
  note hb = holds_buf_facts [OF ok h]
  let ?r = "(bcache s (Buf i))\<lparr>brefcnt := brefcnt (bcache s (Buf i)) + 1\<rparr>" and ?k = "slocks s (SBuf i)"
  have u: "unat (brefcnt (bcache s (Buf i)) + 1) = Suc (crefs (cache_abs d s) b)"
    using bound cache_abs_at(2) [OF ok hb(1)] by (simp add: unat_word_ariths)
  then have n: "new_buf d b (disk s b) (bcache s (Buf i)) ?r ?k"
    using hb by (auto simp: new_buf_def buf_for_def)
  have sl: "slocked ?k \<noteq> 0" "held s = {}" using h ok by (simp_all add: holds_buf_def cache_ok_def)
  have "bpin i s = Ret () (set_buf i ?r ?k s)" using sl(2) by (simp add: bpin_def prog_simps set_buf_def)
  moreover have "holds_buf d (set_buf i ?r ?k s) = holds_buf d s"
    by (auto simp: holds_buf_def set_buf_def buf_for_def fun_eq_iff)
  moreover have "insert b (clocked (cache_abs d s)) = clocked (cache_abs d s)"
    "(cview (cache_abs d s))(b := bdata (bcache s (Buf i))) = cview (cache_abs d s)"
    using hb(4,5) by auto
  ultimately show ?thesis
    using set_buf_ok [OF ok hb(2) n] set_buf_abs [OF ok hb(2) n] sl set_buf_frame [of s i ?r ?k] u
    by simp
qed

lemma bunpin_contract:
  assumes ok: "cache_ok d s" and h: "holds_buf d s i b" and refs: "1 < crefs (cache_abs d s) b"
  shows "\<exists>t. bunpin i s = Ret () t \<and> cache_ok d t \<and> cache_frame s t \<and> holds_buf d t = holds_buf d s \<and>
    cache_abs d t = (cache_abs d s)\<lparr>crefs := (crefs (cache_abs d s))(b := crefs (cache_abs d s) b - 1)\<rparr>"
proof -
  note hb = holds_buf_facts [OF ok h]
  let ?r = "(bcache s (Buf i))\<lparr>brefcnt := brefcnt (bcache s (Buf i)) - 1\<rparr>" and ?k = "slocks s (SBuf i)"
  have u: "unat (brefcnt (bcache s (Buf i)) - 1) = crefs (cache_abs d s) b - 1"
    using hb(3) cache_abs_at(2) [OF ok hb(1)] by (simp add: unat_dec)
  then have n: "new_buf d b (disk s b) (bcache s (Buf i)) ?r ?k"
    using hb refs by (auto simp: new_buf_def buf_for_def)
  have sl: "slocked ?k \<noteq> 0" "held s = {}" using h ok by (simp_all add: holds_buf_def cache_ok_def)
  have "bunpin i s = Ret () (set_buf i ?r ?k s)" using sl(2) by (simp add: bunpin_def prog_simps set_buf_def)
  moreover have "holds_buf d (set_buf i ?r ?k s) = holds_buf d s"
    by (auto simp: holds_buf_def set_buf_def buf_for_def fun_eq_iff)
  moreover have "insert b (clocked (cache_abs d s)) = clocked (cache_abs d s)"
    "(cview (cache_abs d s))(b := bdata (bcache s (Buf i))) = cview (cache_abs d s)"
    using hb(4,5) by auto
  ultimately show ?thesis
    using set_buf_ok [OF ok hb(2) n] set_buf_abs [OF ok hb(2) n] sl set_buf_frame [of s i ?r ?k] u
    by simp
qed

lemma woken_cache:
  "cache_ok d (woken ch s) = cache_ok d s" "cache_abs d (woken ch s) = cache_abs d s"
  "bcache (woken ch s) = bcache s" "holds_buf d (woken ch s) = holds_buf d s" "cache_frame s (woken ch s)"
proof -
  show "bcache (woken ch s) = bcache s" "cache_ok d (woken ch s) = cache_ok d s"
    "cache_abs d (woken ch s) = cache_abs d s"
    by (simp_all add: woken_def cache_ok_def buf_ok_def cache_abs_def cong: option.case_cong)
  have "procs (woken ch s) p = procs s p" if "curproc s = Some p" for p using that by (rule woken_self)
  then show "holds_buf d (woken ch s) = holds_buf d s" "cache_frame s (woken ch s)"
    by (auto simp: holds_buf_def fun_eq_iff cache_frame_def) (simp_all add: woken_def)
qed

text \<open>The state after \<open>brelse\<close>: the lock is free, and the last user moves the buffer to the front.\<close>

definition released :: "nat \<Rightarrow> 'z bio_state_scheme \<Rightarrow> 'z bio_state_scheme" where
  "released i s = woken (ChSleep (SBuf i))
     (set_buf i ((bcache s (Buf i))\<lparr>brefcnt := brefcnt (bcache s (Buf i)) - 1\<rparr>) \<lparr>slocked = 0, slpid = 0\<rparr> s)"

lemma brelse_run:
  assumes ok: "cache_ok d s" and h: "holds_buf d s i b"
  shows "brelse i s = Ret () (if brefcnt (bcache s (Buf i)) = 1
    then (released i s)\<lparr>bcache := pushed i (unlinked i (bcache (released i s)))\<rparr> else released i s)"
proof -
  obtain p where p: "curproc s = Some p" "slpid (slocks s (SBuf i)) = pid (procs s p)"
      "slocked (slocks s (SBuf i)) \<noteq> 0" "held s = {}"
    using h ok by (auto simp: holds_buf_def cache_ok_def)
  let ?t = "woken (ChSleep (SBuf i)) (s\<lparr>slocks := (slocks s)(SBuf i := \<lparr>slocked = 0, slpid = 0\<rparr>)\<rparr>)"
  have t: "released i s = ?t\<lparr>bcache := (bcache s)(Buf i := (bcache s (Buf i))\<lparr>brefcnt := brefcnt (bcache s (Buf i)) - 1\<rparr>)\<rparr>"
    by (simp add: released_def set_buf_def woken_def)
  have z: "brefcnt (bcache s (Buf i)) = 1 \<longleftrightarrow> brefcnt (bcache s (Buf i)) - 1 = 0" by auto
  show ?thesis
    using p holdingsleep_apply [OF p(4,1), of "SBuf i"] releasesleep_apply [OF p(4), of "SBuf i"] unfolding z
    by (simp add: brelse_def prog_simps t set_next_prev_def set_prev_next_def pushed_def unlinked_def Let_def
        woken_cache)
qed

lemma cache_frame_trans:
  assumes "cache_frame s t" and "cache_frame t u"
  shows "cache_frame s u"
proof -
  note c = cache_frame_curproc [OF assms(1)]
  have t: "t = s\<lparr>bcache := bcache t, slocks := slocks t, disk := disk t, disk_writes := disk_writes t,
     procs := procs t\<rparr>" using assms(1) by (simp add: cache_frame_def)
  have "u = t\<lparr>bcache := bcache u, slocks := slocks u, disk := disk u, disk_writes := disk_writes u,
     procs := procs u\<rparr>" using assms(2) by (simp add: cache_frame_def)
  then have "u = s\<lparr>bcache := bcache u, slocks := slocks u, disk := disk u, disk_writes := disk_writes u,
     procs := procs u\<rparr>" by (subst (asm) t) simp
  then show ?thesis using assms c by (auto simp: cache_frame_def)
qed

lemma brelse_contract:
  assumes ok: "cache_ok d s" and h: "holds_buf d s i b"
    and clean: "1 < crefs (cache_abs d s) b \<or> cview (cache_abs d s) b = cdisk (cache_abs d s) b"
  shows "\<exists>t. brelse i s = Ret () t \<and> cache_ok d t \<and> cache_frame s t \<and>
    (\<forall>j x. j \<noteq> i \<longrightarrow> holds_buf d s j x \<longrightarrow> holds_buf d t j x) \<and>
    cache_abs d t = (cache_abs d s)\<lparr>crefs := (crefs (cache_abs d s))(b := crefs (cache_abs d s) b - 1),
      clocked := clocked (cache_abs d s) - {b}\<rparr>"
proof -
  note hb = holds_buf_facts [OF ok h]
  let ?r = "(bcache s (Buf i))\<lparr>brefcnt := brefcnt (bcache s (Buf i)) - 1\<rparr>" and ?k = "\<lparr>slocked = 0, slpid = 0\<rparr>"
  have ref: "unat (brefcnt (bcache s (Buf i)) - 1) = crefs (cache_abs d s) b - 1"
    using hb(3) cache_abs_at(2) [OF ok hb(1)] by (simp add: unat_dec)
  have "cdisk (cache_abs d s) = disk s" by (simp add: cache_abs_def)
  then have n: "new_buf d b (disk s b) (bcache s (Buf i)) ?r ?k"
    using hb clean ref by (auto simp: new_buf_def buf_for_def)
  have view: "(cview (cache_abs d s))(b := bdata (bcache s (Buf i))) = cview (cache_abs d s)"
    using hb(4) by auto
  have rel: "cache_ok d (released i s)" "cache_frame s (released i s)"
      "cache_abs d (released i s) = (cache_abs d s)\<lparr>crefs := (crefs (cache_abs d s))(b := crefs (cache_abs d s) b - 1),
         clocked := clocked (cache_abs d s) - {b}\<rparr>"
      "\<forall>j x. j \<noteq> i \<longrightarrow> holds_buf d s j x \<longrightarrow> holds_buf d (released i s) j x"
    unfolding released_def woken_cache
    using set_buf_ok [OF ok hb(2) n] set_buf_abs [OF ok hb(2) n] ref view set_buf_holds [of d s _ _ i ?r ?k]
      cache_frame_trans [OF set_buf_frame woken_cache(5)] by auto
  obtain xs where "linked (bcache (released i s)) xs" using rel(1) by (auto simp: cache_ok_def)
  moreover from this have "i \<in> set xs" using hb(1) by (simp add: linked_def buf_for_def)
  ultimately obtain ys zs where "linked (bcache (released i s)) (ys @ i # zs)" by (metis split_list)
  from relinked [OF rel(1) moved_front_core moved_front_linked [OF this]]
  have mv: "cache_ok d ((released i s)\<lparr>bcache := pushed i (unlinked i (bcache (released i s)))\<rparr>)"
      "cache_abs d ((released i s)\<lparr>bcache := pushed i (unlinked i (bcache (released i s)))\<rparr>) = cache_abs d (released i s)"
      "buf_for d (pushed i (unlinked i (bcache (released i s)))) = buf_for d (bcache (released i s))"
    by simp_all
  have "cache_frame s ((released i s)\<lparr>bcache := c\<rparr>)" for c
    by (rule cache_frame_trans [OF rel(2)]) (simp add: cache_frame_def)
  then show ?thesis
    using brelse_run [OF ok h] rel mv by (auto simp: holds_buf_def)
qed

section \<open>The contract\<close>

text \<open>A block is given new contents, in the cache and on the disk.\<close>

definition written :: "cstate \<Rightarrow> u32 \<Rightarrow> u8 list \<Rightarrow> cstate" where
  "written A b x = A\<lparr>cview := (cview A)(b := x), cdisk := (cdisk A)(b := x), cwrites := cwrites A @ [(b, x)]\<rparr>"

text \<open>
  What a client of the cache relies on. The parameters are the cache's operations for one device and
  the abstraction of its state; the laws are total: each operation returns under its precondition.
\<close>

locale block_cache =
  fixes ok :: "'s \<Rightarrow> bool" and abs :: "'s \<Rightarrow> cstate" and handle :: "'s \<Rightarrow> nat \<Rightarrow> u32 \<Rightarrow> bool"
    and frame :: "'s \<Rightarrow> 's \<Rightarrow> bool" and nbuf :: nat
    and fetch :: "u32 \<Rightarrow> ('s, nat) prog" and data :: "nat \<Rightarrow> ('s, u8 list) prog"
    and set_to :: "nat \<Rightarrow> (u8 list \<Rightarrow> u8 list) \<Rightarrow> ('s, unit) prog"
    and store release :: "nat \<Rightarrow> ('s, unit) prog"
  assumes fetch_law: "ok s \<Longrightarrow> b \<notin> clocked (abs s) \<Longrightarrow>
      0 < crefs (abs s) b \<or> card {x. 0 < crefs (abs s) x} < nbuf \<Longrightarrow> Suc (crefs (abs s) b) < 2 ^ 32 \<Longrightarrow>
      \<exists>i t. fetch b s = Ret i t \<and> ok t \<and> frame s t \<and> handle t i b \<and> (\<forall>j x. handle s j x \<longrightarrow> handle t j x) \<and>
        abs t = (abs s)\<lparr>crefs := (crefs (abs s))(b := Suc (crefs (abs s) b)), clocked := insert b (clocked (abs s))\<rparr>"
    and data_law: "ok s \<Longrightarrow> handle s i b \<Longrightarrow> data i s = Ret (cview (abs s) b) s"
    and size_law: "ok s \<Longrightarrow> handle s i b \<Longrightarrow> length (cview (abs s) b) = BSIZE"
    and set_law: "ok s \<Longrightarrow> handle s i b \<Longrightarrow> length (f (cview (abs s) b)) = BSIZE \<Longrightarrow>
      \<exists>t. set_to i f s = Ret () t \<and> ok t \<and> frame s t \<and> handle t = handle s \<and>
        abs t = (abs s)\<lparr>cview := (cview (abs s))(b := f (cview (abs s) b))\<rparr>"
    and store_law: "ok s \<Longrightarrow> handle s i b \<Longrightarrow>
      \<exists>t. store i s = Ret () t \<and> ok t \<and> frame s t \<and> handle t = handle s \<and>
        abs t = (abs s)\<lparr>cdisk := (cdisk (abs s))(b := cview (abs s) b),
          cwrites := cwrites (abs s) @ [(b, cview (abs s) b)]\<rparr>"
    and release_law: "ok s \<Longrightarrow> handle s i b \<Longrightarrow> 1 < crefs (abs s) b \<or> cview (abs s) b = cdisk (abs s) b \<Longrightarrow>
      \<exists>t. release i s = Ret () t \<and> ok t \<and> frame s t \<and> (\<forall>j x. j \<noteq> i \<longrightarrow> handle s j x \<longrightarrow> handle t j x) \<and>
        abs t = (abs s)\<lparr>crefs := (crefs (abs s))(b := crefs (abs s) b - 1), clocked := clocked (abs s) - {b}\<rparr>"
    and clean_law: "ok s \<Longrightarrow> crefs (abs s) b = 0 \<Longrightarrow> cview (abs s) b = cdisk (abs s) b"
    and frame_trans: "frame s t \<Longrightarrow> frame t u \<Longrightarrow> frame s u"
    and handle_one: "handle s i b \<Longrightarrow> handle s i c \<Longrightarrow> b = c"

context block_cache
begin

text \<open>Two blocks are held at once, a block is overwritten and written out, and both are given back.\<close>

lemma fetch_two:
  assumes s: "ok s" and xy: "x \<noteq> y" "x \<notin> clocked (abs s)" "y \<notin> clocked (abs s)"
    and refs: "Suc (crefs (abs s) x) < 2 ^ 32" "Suc (crefs (abs s) y) < 2 ^ 32"
    and room: "card {b. 0 < crefs (abs s) b} < nbuf" "0 < crefs (abs s) y \<or> Suc (card {b. 0 < crefs (abs s) b}) < nbuf"
    and fin: "finite {b. 0 < crefs (abs s) b}"
  shows "\<exists>i j t u. fetch x s = Ret i t \<and> fetch y t = Ret j u \<and> ok u \<and> frame s t \<and> frame s u \<and>
    handle u i x \<and> handle u j y \<and> i \<noteq> j \<and>
    abs u = (abs s)\<lparr>crefs := (crefs (abs s))(x := Suc (crefs (abs s) x), y := Suc (crefs (abs s) y)),
      clocked := {x, y} \<union> clocked (abs s)\<rparr>"
proof -
  obtain i t where t: "fetch x s = Ret i t" "ok t" "frame s t" "handle t i x"
      "abs t = (abs s)\<lparr>crefs := (crefs (abs s))(x := Suc (crefs (abs s) x)), clocked := insert x (clocked (abs s))\<rparr>"
    using fetch_law [OF s xy(2) disjI2 [OF room(1)] refs(1)] by blast
  have "{b. 0 < crefs (abs t) b} = insert x {b. 0 < crefs (abs s) b}" by (auto simp: t(5))
  then have "card {b. 0 < crefs (abs t) b} \<le> Suc (card {b. 0 < crefs (abs s) b})"
    using fin by (simp add: card_insert_if)
  moreover have "crefs (abs t) y = crefs (abs s) y" using xy(1) by (simp add: t(5))
  ultimately have r: "0 < crefs (abs t) y \<or> card {b. 0 < crefs (abs t) b} < nbuf"
    using room(2) by linarith
  have "y \<notin> clocked (abs t)" "Suc (crefs (abs t) y) < 2 ^ 32" using xy refs by (auto simp: t(5))
  from fetch_law [OF t(2) this(1) r this(2)] obtain j u where
    u: "fetch y t = Ret j u" "ok u" "frame t u" "handle u j y" "\<forall>j x. handle t j x \<longrightarrow> handle u j x"
      "abs u = (abs t)\<lparr>crefs := (crefs (abs t))(y := Suc (crefs (abs t) y)), clocked := insert y (clocked (abs t))\<rparr>"
    by blast
  have "i \<noteq> j" using handle_one u(4,5) t(4) xy(1) by blast
  moreover have "abs u = (abs s)\<lparr>crefs := (crefs (abs s))(x := Suc (crefs (abs s) x), y := Suc (crefs (abs s) y)),
      clocked := {x, y} \<union> clocked (abs s)\<rparr>"
    using xy(1) unfolding u(6) t(5) by (auto intro!: cstate.equality)
  ultimately show ?thesis using t u frame_trans [OF t(3) u(3)] by blast
qed

lemma set_store:
  assumes "ok s" and "handle s i b" and "length (f (cview (abs s) b)) = BSIZE"
  shows "\<exists>t u. set_to i f s = Ret () t \<and> store i t = Ret () u \<and> ok u \<and> frame s u \<and> handle u = handle s \<and>
    abs u = written (abs s) b (f (cview (abs s) b))"
proof -
  obtain t where t: "set_to i f s = Ret () t" "ok t" "frame s t" "handle t = handle s"
      "abs t = (abs s)\<lparr>cview := (cview (abs s))(b := f (cview (abs s) b))\<rparr>"
    using set_law [where f = f, OF assms(1,2)] assms(3) by blast
  then have "handle t i b" using assms(2) by simp
  from store_law [OF t(2) this] obtain u where u: "store i t = Ret () u" "ok u" "frame t u" "handle u = handle t"
      "abs u = (abs t)\<lparr>cdisk := (cdisk (abs t))(b := cview (abs t) b), cwrites := cwrites (abs t) @ [(b, cview (abs t) b)]\<rparr>"
    by blast
  then show ?thesis using t frame_trans [OF t(3) u(3)] by (auto simp: written_def)
qed

lemma release_two:
  assumes s: "ok s" and h: "handle s i x" "handle s j y" and xy: "i \<noteq> j" "x \<noteq> y"
    and cx: "1 < crefs (abs s) x \<or> cview (abs s) x = cdisk (abs s) x"
    and cy: "1 < crefs (abs s) y \<or> cview (abs s) y = cdisk (abs s) y"
  shows "\<exists>t u. release i s = Ret () t \<and> release j t = Ret () u \<and> ok u \<and> frame s u \<and>
    abs u = (abs s)\<lparr>crefs := (crefs (abs s))(x := crefs (abs s) x - 1, y := crefs (abs s) y - 1),
      clocked := clocked (abs s) - {x, y}\<rparr>"
proof -
  obtain t where t: "release i s = Ret () t" "ok t" "frame s t" "handle t j y"
      "abs t = (abs s)\<lparr>crefs := (crefs (abs s))(x := crefs (abs s) x - 1), clocked := clocked (abs s) - {x}\<rparr>"
    using release_law [OF s h(1) cx] h(2) xy(1) by metis
  have "1 < crefs (abs t) y \<or> cview (abs t) y = cdisk (abs t) y" using cy xy(2) by (simp add: t(5))
  from release_law [OF t(2,4) this] obtain u where u: "release j t = Ret () u" "ok u" "frame t u"
      "abs u = (abs t)\<lparr>crefs := (crefs (abs t))(y := crefs (abs t) y - 1), clocked := clocked (abs t) - {y}\<rparr>"
    by blast
  have "abs u = (abs s)\<lparr>crefs := (crefs (abs s))(x := crefs (abs s) x - 1, y := crefs (abs s) y - 1),
      clocked := clocked (abs s) - {x, y}\<rparr>"
    unfolding u(4) t(5) using xy(2) by (auto intro!: cstate.equality)
  then show ?thesis using t u frame_trans [OF t(3) u(3)] by blast
qed

end

lemma cache_clean:
  assumes "cache_ok d s" and "crefs (cache_abs d s) b = 0"
  shows "cview (cache_abs d s) b = cdisk (cache_abs d s) b"
proof (cases "cached d (bcache s) b")
  case None
  then show ?thesis by (simp add: cache_abs_def)
next
  case (Some i)
  then have f: "buf_for d (bcache s) b i" using assms(1) by (simp add: cached_Some cache_ok_def)
  then have "buf_ok d s i" using assms(1) by (simp add: cache_ok_def buf_for_def)
  then show ?thesis
    using cache_abs_at [OF assms(1) f] assms(2) f
    by (simp add: buf_ok_def buf_for_def Let_def unat_eq_0) (simp add: cache_abs_def)
qed

interpretation bio: block_cache "cache_ok d" "cache_abs d" "holds_buf d" cache_frame NBUF
  "bread d" "\<lambda>i. getb (Buf i) bdata" set_data bwrite brelse for d
proof
  show "\<lbrakk>cache_ok d s; holds_buf d s i b\<rbrakk> \<Longrightarrow> getb (Buf i) bdata s = Ret (cview (cache_abs d s) b) s" for s i b
    by (simp add: holds_buf_facts(4))
  show "\<lbrakk>cache_ok d s; holds_buf d s i b\<rbrakk> \<Longrightarrow> length (cview (cache_abs d s) b) = BSIZE" for s i b
    using holds_buf_facts(4,8) [of d s i b] by simp
qed (assumption | rule bread_contract set_data_contract bwrite_contract brelse_contract cache_clean cache_frame_trans
    holds_buf_one)+

section \<open>What the cache guarantees\<close>

lemma bread_busy:
  assumes ok: "cache_ok d s" and p: "curproc s = Some p" and f: "buf_for d (bcache s) b i"
    and busy: "slocked (slocks s (SBuf i)) \<noteq> 0"
  shows "bread d b s = Switch (asleep p (ChSleep (SBuf i)) (s\<lparr>bcache := (bcache s)(Buf i :=
    (bcache s (Buf i))\<lparr>brefcnt := brefcnt (bcache s (Buf i)) + 1\<rparr>)\<rparr>))"
proof -
  have u: "one_buf d (bcache s)" and h: "held s = {}" using ok by (simp_all add: cache_ok_def)
  obtain xs where xs: "linked (bcache s) xs" using ok by (auto simp: cache_ok_def)
  let ?s = "s\<lparr>held := {LBcache}\<rparr>"
  let ?t = "s\<lparr>bcache := (bcache s)(Buf i := (bcache s (Buf i))\<lparr>brefcnt := brefcnt (bcache s (Buf i)) + 1\<rparr>)\<rparr>"
  have "scan_cached (NBUF + 1) d b (bnext (bcache ?s Head)) ?s = Ret (Some i) ?s"
    using linked_scans(1) [of ?s xs d b] xs find_cached [OF u, of xs b] cache_abs_at(4) [OF ok f]
    by (simp add: linked_def)
  moreover have "acquiresleep (SBuf i) (?t\<lparr>held := {}\<rparr>) = Switch (asleep p (ChSleep (SBuf i)) ?t)"
    using busy p sleep_asleep [of "?t\<lparr>held := {LSleep (SBuf i)}\<rparr>" p "LSleep (SBuf i)" "ChSleep (SBuf i)"]
    by (simp add: acquiresleep_def acquiresleep_loop_def prog_simps asleep_def)
  ultimately show ?thesis
    using h by (simp add: bread_def bget_def prog_simps)
qed

lemma bread_full:
  assumes ok: "cache_ok d s" and c: "cached d (bcache s) b = None"
    and full: "\<forall>i < NBUF. brefcnt (bcache s (Buf i)) \<noteq> 0"
  shows "bread d b s = Panic ''bget: no buffers''"
proof -
  have u: "one_buf d (bcache s)" and h: "held s = {}" using ok by (simp_all add: cache_ok_def)
  obtain xs where xs: "linked (bcache s) xs" using ok by (auto simp: cache_ok_def)
  let ?s = "s\<lparr>held := {LBcache}\<rparr>"
  have "scan_cached (NBUF + 1) d b (bnext (bcache ?s Head)) ?s = Ret None ?s"
    using linked_scans(1) [of ?s xs d b] xs find_cached [OF u, of xs b] c by (simp add: linked_def)
  moreover have "find (\<lambda>i. brefcnt (bcache s (Buf i)) = 0) (rev xs) = None"
    using full xs by (auto simp: find_None_iff linked_def)
  then have "scan_free (NBUF + 1) (bprev (bcache ?s Head)) ?s = Ret None ?s"
    using linked_scans(2) [of ?s xs] xs by simp
  ultimately show ?thesis using h by (simp add: bread_def bget_def prog_simps)
qed

text \<open>
  C5: \<open>bread\<close> in a process that holds no spinlock. If somebody has the block locked, the process sleeps
  on that lock with the buffer kept in memory. If all buffers are in use for other blocks, the kernel
  panics. Otherwise the call returns a buffer of the block, locked for the process and with one more
  user, whose data is the current contents of the block: those in memory if it was cached, those on the
  disk if not. The contents of all blocks, the other users and locks, the disk and the invariant of the
  cache are as before; in particular no block ever has two buffers, and a recycled buffer loses
  nothing.
\<close>

theorem bread_coherent:
  assumes "cache_ok d s" and "curproc s = Some p" and "Suc (crefs (cache_abs d s) b) < 2 ^ 32"
  shows "if b \<in> clocked (cache_abs d s)
         then \<exists>i u. bread d b s = Switch (asleep p (ChSleep (SBuf i)) u) \<and> cached d (bcache s) b = Some i \<and>
                bcache u = (bcache s)(Buf i := (bcache s (Buf i))\<lparr>brefcnt := brefcnt (bcache s (Buf i)) + 1\<rparr>)
         else if cached d (bcache s) b = None \<and> (\<forall>i < NBUF. brefcnt (bcache s (Buf i)) \<noteq> 0)
         then bread d b s = Panic ''bget: no buffers''
         else \<exists>i t. bread d b s = Ret i t \<and> cache_ok d t \<and> holds_buf d t i b \<and>
                bdata (bcache t (Buf i)) = cview (cache_abs d s) b \<and>
                cache_abs d t = (cache_abs d s)
                  \<lparr>crefs := (crefs (cache_abs d s))(b := Suc (crefs (cache_abs d s) b)),
                   clocked := insert b (clocked (cache_abs d s))\<rparr>"
proof (cases "b \<in> clocked (cache_abs d s)")
  case True
  then obtain i where c: "cached d (bcache s) b = Some i" "slocked (slocks s (SBuf i)) \<noteq> 0"
    by (auto simp: cache_abs_def split: option.splits)
  then have "buf_for d (bcache s) b i" using assms(1) by (simp add: cached_Some cache_ok_def)
  from bread_busy [OF assms(1,2) this c(2)] c(1) True show ?thesis by auto
next
  case False
  show ?thesis
  proof (cases "cached d (bcache s) b = None \<and> (\<forall>i < NBUF. brefcnt (bcache s (Buf i)) \<noteq> 0)")
    case True
    then show ?thesis using False bread_full [OF assms(1)] by auto
  next
    case nf: False
    then have "cached d (bcache s) b \<noteq> None \<or> (\<exists>i < NBUF. brefcnt (bcache s (Buf i)) = 0)" by auto
    from bread_any [OF assms(1,2) False assms(3) this] obtain i t where t: "bread d b s = Ret i t" "cache_ok d t" "holds_buf d t i b"
        "cache_abs d t = (cache_abs d s)\<lparr>crefs := (crefs (cache_abs d s))(b := Suc (crefs (cache_abs d s) b)),
          clocked := insert b (clocked (cache_abs d s))\<rparr>" by blast
    then have "bdata (bcache t (Buf i)) = cview (cache_abs d s) b"
      using holds_buf_facts(4) [OF t(2,3)] by simp
    then show ?thesis using False nf t by auto
  qed
qed

lemma buf_example_linked: "linked buf_example (rev [0..<NBUF])"
proof -
  have "distinct (rev [0..<NBUF])" "set (rev [0..<NBUF]) = {..<NBUF}" by auto
  moreover have "chain (\<lambda>b. bnext (buf_example b)) (Head # map Buf (rev [0..<NBUF]) @ [Head])"
      "chain (\<lambda>b. bprev (buf_example b)) (Head # map Buf (rev (rev [0..<NBUF])) @ [Head])"
    by (simp_all add: buf_example_def NBUF_def upt_rec)
  ultimately show ?thesis by (simp add: linked_def)
qed

lemma example_cache:
  assumes "bcache s = buf_example" and "slocks s = (\<lambda>_. \<lparr>slocked = 0, slpid = 0\<rparr>)"
    and "disk s = (\<lambda>_. replicate BSIZE 0)" and "held s = {}" and "curproc s = Some 0"
  shows "cache_ok 1 s" "crefs (cache_abs 1 s) b = 0" "clocked (cache_abs 1 s) = {}"
    "cached 1 (bcache s) b = None" "cview (cache_abs 1 s) b = replicate BSIZE 0" "brefcnt (bcache s (Buf i)) = 0"
proof -
  show n: "cached 1 (bcache s) b = None" for b
    unfolding assms(1) by (auto simp: cached_None buf_for_def buf_example_def)
  show "brefcnt (bcache s (Buf i)) = 0" by (simp add: assms(1) buf_example_def)
  have "one_buf 1 buf_example" by (simp add: one_buf_def buf_for_def buf_example_def)
  moreover have "buf_ok 1 s i" for i by (simp add: buf_ok_def assms buf_example_def)
  ultimately show "cache_ok 1 s" using buf_example_linked by (auto simp: cache_ok_def assms)
  show "crefs (cache_abs 1 s) b = 0" "clocked (cache_abs 1 s) = {}" "cview (cache_abs 1 s) b = replicate BSIZE 0"
    by (simp_all add: cache_abs_def n assms(3))
qed

lemma bio_example_fields:
  "bcache bio_example = buf_example" "slocks bio_example = (\<lambda>_. \<lparr>slocked = 0, slpid = 0\<rparr>)"
  "disk bio_example = (\<lambda>_. replicate BSIZE 0)" "held bio_example = {}" "curproc bio_example = Some 0"
  by (simp_all add: bio_example_defs)

lemmas cache_example = example_cache [OF bio_example_fields] bio_example_fields(5)

theorem bread_coherent_witness:
  "\<exists>i t. bread 1 7 bio_example = Ret i t \<and> bdata (bcache t (Buf i)) = replicate BSIZE 0"
proof -
  have "\<exists>i. i < NBUF" by (rule exI [of _ 0]) (simp add: NBUF_def)
  then have z: "(\<forall>i. \<not> i < NBUF) = False" by blast
  show ?thesis using bread_coherent [of 1 bio_example 0 7] by (auto simp: cache_example z)
qed

section \<open>Initialisation\<close>

definition binit_one :: "nat \<Rightarrow> 'z bio_state_scheme \<Rightarrow> 'z bio_state_scheme" where
  "binit_one i s = s\<lparr>held := held s - {LSleep (SBuf i)}, slocks := (slocks s)(SBuf i := \<lparr>slocked = 0, slpid = 0\<rparr>),
     bcache := pushed i (bcache s)\<rparr>"

lemma binit_buf_run: "binit_buf i s = Ret () (binit_one i s)"
  by (simp add: binit_buf_def prog_simps initsleeplock_def lock_init_def set_next_prev_def binit_one_def
      pushed_def Let_def)

lemma pushed_core: "core (pushed i c b) = core (c b)"
  by (simp add: pushed_def Let_def core_def)

text \<open>What the loop of \<open>binit\<close> keeps and what it sets up.\<close>

definition inited :: "nat list \<Rightarrow> 'z bio_state_scheme \<Rightarrow> 'z bio_state_scheme \<Rightarrow> bool" where
  "inited is s t \<longleftrightarrow> (\<forall>b. core (bcache t b) = core (bcache s b)) \<and>
     (\<forall>i \<in> set is. slocked (slocks t (SBuf i)) = 0) \<and> (\<forall>l. l \<notin> SBuf ` set is \<longrightarrow> slocks t l = slocks s l) \<and>
     disk t = disk s \<and> curproc t = curproc s \<and> held t \<subseteq> held s"

lemma binit_list:
  assumes "distinct is" and "links (bcache s) xs" and "distinct xs" and "set is \<inter> set xs = {}"
  shows "\<exists>t. block (map binit_buf is) s = Ret () t \<and> links (bcache t) (rev is @ xs) \<and> inited is s t"
  using assms
proof (induction "is" arbitrary: s xs)
  case Nil
  then show ?case by (simp add: inited_def)
next
  case (Cons i js)
  let ?u = "binit_one i s"
  have u: "links (bcache ?u) (i # xs)" "inited [i] s ?u"
    using pushed_links [OF Cons.prems(2,3)] Cons.prems(4) by (auto simp: binit_one_def pushed_core inited_def)
  have pre: "distinct js" "distinct (i # xs)" "set js \<inter> set (i # xs) = {}" using Cons.prems by auto
  from Cons.IH [OF pre(1) u(1) pre(2,3)] obtain t where t: "block (map binit_buf js) ?u = Ret () t"
      "links (bcache t) (rev js @ i # xs)" "inited js ?u t" by blast
  moreover have "inited (i # js) s t"
    using u(2) t(3) Cons.prems(1) unfolding inited_def by (auto simp: image_iff)
  ultimately show ?case by (auto simp: seqp_apply binit_buf_run [of i s])
qed

text \<open>
  C32: \<open>binit\<close> turns any buffer array into a proper cache. It returns with the \<open>NBUF\<close> buffers in a doubly
  linked list, most recently used first, and their locks free; and if the buffers are unused, as in
  zeroed memory, the cache satisfies its invariant for the disk in every process, and shows exactly
  what is on the disk.
\<close>

theorem binit_establishes:
  assumes "held s = {}" and "\<forall>i < NBUF. bdev (bcache s (Buf i)) \<noteq> d \<and> brefcnt (bcache s (Buf i)) = 0 \<and>
      length (bdata (bcache s (Buf i))) = BSIZE" and "\<forall>b. length (disk s b) = BSIZE"
  shows "\<exists>t. binit s = Ret () t \<and> linked (bcache t) (rev [0..<NBUF]) \<and> cache_ok d (t\<lparr>curproc := Some p\<rparr>) \<and>
           cview (cache_abs d t) = disk s \<and> (\<forall>b. crefs (cache_abs d t) b = 0) \<and> clocked (cache_abs d t) = {}"
proof -
  let ?u = "s\<lparr>held := {}, bcache := (bcache s)(Head := (bcache s Head)\<lparr>bprev := Head, bnext := Head\<rparr>)\<rparr>"
  have "links (bcache ?u) []" by (simp add: links_def)
  from binit_list [OF _ this, of "[0..<NBUF]"] obtain t where
    t: "block (map binit_buf [0..<NBUF]) ?u = Ret () t" "links (bcache t) (rev [0..<NBUF])" "inited [0..<NBUF] ?u t"
    by auto
  have run: "binit s = Ret () t"
    using assms(1) t(1) by (simp add: binit_def prog_simps lock_init_def)
  have l: "linked (bcache t) (rev [0..<NBUF])" using t(2) by (auto simp: linked_def links_def)
  have core: "core (bcache t (Buf i)) = core (bcache s (Buf i))" for i using t(3) by (simp add: inited_def)
  have e: "bdev (bcache t (Buf i)) \<noteq> d" "brefcnt (bcache t (Buf i)) = 0" "length (bdata (bcache t (Buf i))) = BSIZE"
    if "i < NBUF" for i
    using assms(2) that arg_cong [OF core, of bdev i] arg_cong [OF core, of brefcnt i] arg_cong [OF core, of bdata i]
    by (simp_all add: core_def)
  have n: "cached d (bcache t) b = None" for b using e by (auto simp: cached_None buf_for_def)
  have h: "disk t = disk s" "held t = {}" using t(3) by (auto simp: inited_def)
  have "buf_ok d (t\<lparr>curproc := Some p\<rparr>) i" if "i < NBUF" for i
    using e [OF that] t(3) that by (simp add: buf_ok_def Let_def inited_def)
  moreover have "one_buf d (bcache t)" using n by (simp add: one_buf_def cached_None)
  ultimately have "cache_ok d (t\<lparr>curproc := Some p\<rparr>)"
    using l h assms(3) by (auto simp: cache_ok_def)
  then show ?thesis using run l h by (auto simp: cache_abs_def n)
qed

theorem binit_establishes_witness:
  "\<exists>t. binit bio_example = Ret () t \<and> cview (cache_abs 1 t) 7 = replicate BSIZE 0"
  using binit_establishes [of bio_example 1 0]
  by (auto simp: cache_example bio_example_defs buf_example_def)

end
