(* ===== verification/Log.thy ===== *)
theory Log
  imports Bio
begin

text \<open>
  \<open>kernel/log.c\<close>: the redo log. The in-memory header keeps the numbers of the blocks that the
  current transaction changed; \<open>commit\<close> writes their contents to the log, then the header (the
  commit point), then the blocks at home, then an empty header.

  The C array \<open>log.lh.block\<close> has \<open>LOGSIZE\<close> elements. An access out of its range is undefined in
  C and a failing branch here.
\<close>

definition LOGSIZE :: nat where "LOGSIZE = 30"
definition MAXOPBLOCKS :: nat where "MAXOPBLOCKS = 10"

record log =
  lstart :: u32
  lsize :: u32
  loutstanding :: u32
  lcommitting :: u32
  ldev :: u32
  lh_n :: u32
  lh_block :: "u32 list"

record log_state = bio_state +
  log :: log

record superblock =
  sb_magic :: u32
  sb_size :: u32
  sb_nblocks :: u32
  sb_ninodes :: u32
  sb_nlog :: u32
  sb_logstart :: u32
  sb_inodestart :: u32
  sb_bmapstart :: u32

definition getl :: "(log \<Rightarrow> 'a) \<Rightarrow> ('z log_state_scheme, 'a) prog" where
  "getl f = gets (\<lambda>s. f (log s))"

definition setl :: "(log \<Rightarrow> log) \<Rightarrow> ('z log_state_scheme, unit) prog" where
  "setl f = modify (\<lambda>s. s\<lparr>log := f (log s)\<rparr>)"

text \<open>The number of iterations of \<open>for (i = 0; i < n; i++)\<close> for an \<open>int n\<close>.\<close>

definition count :: "u32 \<Rightarrow> nat" where
  "count n = nat (sint n)"

definition get_block :: "nat \<Rightarrow> ('z log_state_scheme, u32) prog" where
  "get_block i =
     bindp (getl lh_block) (\<lambda>bs. if i < length bs then ret (bs ! i) else undefined_behaviour)"

definition set_block :: "nat \<Rightarrow> u32 \<Rightarrow> ('z log_state_scheme, unit) prog" where
  "set_block i b =
     bindp (getl lh_block) (\<lambda>bs.
     if i < length bs then setl (\<lambda>l. l\<lparr>lh_block := bs[i := b]\<rparr>) else undefined_behaviour)"

definition install_one :: "bool \<Rightarrow> nat \<Rightarrow> ('z log_state_scheme, unit) prog" where
  "install_one recovering t =
     bindp (getl id) (\<lambda>l.
     bindp (bread (ldev l) (lstart l + of_nat t + 1)) (\<lambda>lbuf.
     bindp (get_block t) (\<lambda>home.
     bindp (bread (ldev l) home) (\<lambda>dbuf.
     bindp (getb (Buf lbuf) bdata) (\<lambda>d.
     block
      [set_data dbuf (\<lambda>_. d),
       bwrite dbuf,
       whenp (\<not> recovering) (bunpin dbuf),
       brelse lbuf,
       brelse dbuf])))))"

definition install_trans :: "bool \<Rightarrow> ('z log_state_scheme, unit) prog" where
  "install_trans recovering =
     bindp (getl lh_n) (\<lambda>n. block (map (install_one recovering) [0..<count n]))"

definition read_head :: "('z log_state_scheme, unit) prog" where
  "read_head =
     bindp (getl id) (\<lambda>l.
     bindp (bread (ldev l) (lstart l)) (\<lambda>b.
     bindp (getb (Buf b) bdata) (\<lambda>d.
     block
      [setl (\<lambda>l. l\<lparr>lh_n := get32 d 0\<rparr>),
       block (map (\<lambda>i. set_block i (get32 d (4 + 4 * i))) [0..<count (get32 d 0)]),
       brelse b])))"

definition write_head :: "('z log_state_scheme, unit) prog" where
  "write_head =
     bindp (getl id) (\<lambda>l.
     bindp (bread (ldev l) (lstart l)) (\<lambda>b.
     block
      [set_data b (\<lambda>d. put32 d 0 (lh_n l)),
       block (map (\<lambda>i. bindp (get_block i) (\<lambda>v. set_data b (\<lambda>d. put32 d (4 + 4 * i) v)))
              [0..<count (lh_n l)]),
       bwrite b,
       brelse b]))"

definition recover_from_log :: "('z log_state_scheme, unit) prog" where
  "recover_from_log =
     block
      [read_head,
       install_trans True,
       setl (\<lambda>l. l\<lparr>lh_n := 0\<rparr>),
       write_head]"

definition initlog :: "u32 \<Rightarrow> superblock \<Rightarrow> ('z log_state_scheme, unit) prog" where
  "initlog dev sb =
     (if 4 + 4 * LOGSIZE \<ge> BSIZE then panic ''initlog: too big logheader'' else
      block
       [lock_init LLog,
        setl (\<lambda>l. l\<lparr>lstart := sb_logstart sb\<rparr>),
        setl (\<lambda>l. l\<lparr>lsize := sb_nlog sb\<rparr>),
        setl (\<lambda>l. l\<lparr>ldev := dev\<rparr>),
        recover_from_log])"

definition begin_op_loop :: "('z log_state_scheme, unit) prog" where
  "begin_op_loop =
     bindp (getl id) (\<lambda>l.
     if lcommitting l \<noteq> 0 then sleep ChLog LLog
     else if sint (lh_n l) + (sint (loutstanding l) + 1) * int MAXOPBLOCKS > int LOGSIZE
     then sleep ChLog LLog
     else
     block
      [setl (\<lambda>l. l\<lparr>loutstanding := loutstanding l + 1\<rparr>),
       lock_release LLog])"

definition begin_op :: "('z log_state_scheme, unit) prog" where
  "begin_op = seqp (lock_acquire LLog) begin_op_loop"

definition begin_op_resume :: "('z log_state_scheme, unit) prog" where
  "begin_op_resume = seqp (sleep_resume LLog) begin_op_loop"

definition write_log_one :: "nat \<Rightarrow> ('z log_state_scheme, unit) prog" where
  "write_log_one t =
     bindp (getl id) (\<lambda>l.
     bindp (bread (ldev l) (lstart l + of_nat t + 1)) (\<lambda>dst.
     bindp (get_block t) (\<lambda>home.
     bindp (bread (ldev l) home) (\<lambda>src.
     bindp (getb (Buf src) bdata) (\<lambda>d.
     block
      [set_data dst (\<lambda>_. d),
       bwrite dst,
       brelse src,
       brelse dst])))))"

definition write_log :: "('z log_state_scheme, unit) prog" where
  "write_log = bindp (getl lh_n) (\<lambda>n. block (map write_log_one [0..<count n]))"

definition commit :: "('z log_state_scheme, unit) prog" where
  "commit =
     bindp (getl lh_n) (\<lambda>n.
     whenp (sint n > 0)
      (block
        [write_log,
         write_head,
         install_trans False,
         setl (\<lambda>l. l\<lparr>lh_n := 0\<rparr>),
         write_head]))"

definition end_op :: "('z log_state_scheme, unit) prog" where
  "end_op =
     seqp (lock_acquire LLog) (
     seqp (setl (\<lambda>l. l\<lparr>loutstanding := loutstanding l - 1\<rparr>)) (
     bindp (getl id) (\<lambda>l.
     if lcommitting l \<noteq> 0 then panic ''log.committing'' else
     let do_commit = (loutstanding l = 0) in
     seqp (if do_commit then setl (\<lambda>l. l\<lparr>lcommitting := 1\<rparr>) else wakeup ChLog) (
     seqp (lock_release LLog) (
     whenp do_commit
      (block
        [commit,
         lock_acquire LLog,
         setl (\<lambda>l. l\<lparr>lcommitting := 0\<rparr>),
         wakeup ChLog,
         lock_release LLog]))))))"

text \<open>The search of \<open>log_write\<close> for the block: the index where it is, or \<open>n\<close>.\<close>

fun absorb :: "nat \<Rightarrow> nat \<Rightarrow> u32 \<Rightarrow> ('z log_state_scheme, nat) prog" where
  "absorb 0 i b = ret i"
| "absorb (Suc k) i b = bindp (get_block i) (\<lambda>c. if c = b then ret i else absorb k (Suc i) b)"

definition log_write :: "nat \<Rightarrow> ('z log_state_scheme, unit) prog" where
  "log_write b =
     seqp (lock_acquire LLog) (
     bindp (getl id) (\<lambda>l.
     if sint (lh_n l) \<ge> int LOGSIZE \<or> sint (lh_n l) \<ge> sint (lsize l) - 1
     then panic ''too big a transaction''
     else if sint (loutstanding l) < 1 then panic ''log_write outside of trans''
     else
     bindp (getb (Buf b) bblockno) (\<lambda>bno.
     bindp (absorb (count (lh_n l)) 0 bno) (\<lambda>i.
     block
      [set_block i bno,
       whenp (int i = sint (lh_n l)) (block
        [bpin b,
         setl (\<lambda>l. l\<lparr>lh_n := lh_n l + 1\<rparr>)]),
       lock_release LLog]))))"

section \<open>An example state\<close>

definition log_example :: log_state where
  "log_example = bio_state.extend bio_example
     (log_state.fields \<lparr>lstart = 2, lsize = 30, loutstanding = 0, lcommitting = 0, ldev = 1, lh_n = 0,
        lh_block = replicate LOGSIZE 0\<rparr>)"

lemmas log_example_defs = log_example_def log_state.defs bio_example_defs

end
