(* ===== verification/Fs.thy ===== *)
theory Fs
  imports Log
begin

text \<open>
  \<open>kernel/fs.c\<close>: blocks, inodes, file contents, directories and path names on top of the log and
  the buffer cache. A \<open>struct inode *\<close> is an index into \<open>itable\<close>; where the C code returns a null
  pointer the result is \<open>None\<close>. On-disk structures are read and written at their byte offsets in the
  data of a buffer.

  \<open>readi\<close> and \<open>writei\<close> are called with user addresses, with kernel addresses of pages, and with the
  address of a local variable of the caller. The bytes of a local variable are passed as a value:
  \<open>readi\<close> returns the bytes it copied next to its result, and \<open>writei\<close> takes them in \<open>SLocal\<close>.
  Path names are the bytes of the C string before its NUL; the buffer for a path element is a
  character object of which \<open>DIRSIZ\<close> bytes are used.
\<close>

definition NINODE :: nat where "NINODE = 50"
definition ROOTDEV :: u32 where "ROOTDEV = 1"
definition ROOTINO :: u32 where "ROOTINO = 1"
definition FSMAGIC :: u32 where "FSMAGIC = 0x10203040"
definition NDIRECT :: nat where "NDIRECT = 12"
definition NINDIRECT :: nat where "NINDIRECT = BSIZE div 4"
definition MAXFILE :: nat where "MAXFILE = NDIRECT + NINDIRECT"
definition BPB :: nat where "BPB = BSIZE * 8"
definition IPB :: nat where "IPB = BSIZE div 64"
definition DIRSIZ :: nat where "DIRSIZ = 14"
definition T_DIR :: u16 where "T_DIR = 1"
definition T_FILE :: u16 where "T_FILE = 2"
definition T_DEVICE :: u16 where "T_DEVICE = 3"

record inode =
  idev :: u32
  inum :: u32
  iref :: u32
  ivalid :: u32
  itype :: u16
  imajor :: u16
  iminor :: u16
  inlink :: u16
  isize :: u32
  iaddrs :: "nat \<Rightarrow> u32"

record fs_state = log_state +
  sb :: superblock
  itable :: "nat \<Rightarrow> inode"

definition geti :: "nat \<Rightarrow> (inode \<Rightarrow> 'a) \<Rightarrow> ('z fs_state_scheme, 'a) prog" where
  "geti ip f = gets (\<lambda>s. f (itable s ip))"

definition seti :: "nat \<Rightarrow> (inode \<Rightarrow> inode) \<Rightarrow> ('z fs_state_scheme, unit) prog" where
  "seti ip f = modify (\<lambda>s. s\<lparr>itable := (itable s)(ip := f (itable s ip))\<rparr>)"

section \<open>Super block and disk blocks\<close>

definition IBLOCK :: "u32 \<Rightarrow> superblock \<Rightarrow> u32" where
  "IBLOCK i b = i div of_nat IPB + sb_inodestart b"

definition BBLOCK :: "u32 \<Rightarrow> superblock \<Rightarrow> u32" where
  "BBLOCK b q = b div of_nat BPB + sb_bmapstart q"

definition superblock_of :: "u8 list \<Rightarrow> superblock" where
  "superblock_of d =
     \<lparr>sb_magic = get32 d 0, sb_size = get32 d 4, sb_nblocks = get32 d 8, sb_ninodes = get32 d 12,
      sb_nlog = get32 d 16, sb_logstart = get32 d 20, sb_inodestart = get32 d 24,
      sb_bmapstart = get32 d 28\<rparr>"

definition readsb :: "u32 \<Rightarrow> ('z fs_state_scheme, unit) prog" where
  "readsb dev =
     bindp (bread dev 1) (\<lambda>b.
     bindp (getb (Buf b) bdata) (\<lambda>d.
     block
      [modify (\<lambda>s. s\<lparr>sb := superblock_of d\<rparr>),
       brelse b]))"

definition fsinit :: "u32 \<Rightarrow> ('z fs_state_scheme, unit) prog" where
  "fsinit dev =
     seqp (readsb dev) (
     bindp (gets sb) (\<lambda>q.
     if sb_magic q \<noteq> FSMAGIC then panic ''invalid file system'' else initlog dev q))"

definition bzero :: "u32 \<Rightarrow> u32 \<Rightarrow> ('z fs_state_scheme, unit) prog" where
  "bzero dev bno =
     bindp (bread dev bno) (\<lambda>b.
     block
      [set_data b (\<lambda>_. replicate BSIZE 0),
       log_write b,
       brelse b])"

text \<open>Bit \<open>bi\<close> of a bitmap block.\<close>

definition bmap_bit :: "u8 list \<Rightarrow> nat \<Rightarrow> bool" where
  "bmap_bit d bi = (d ! (bi div 8) AND push_bit (bi mod 8) 1 \<noteq> 0)"

definition set_bit8 :: "u8 list \<Rightarrow> nat \<Rightarrow> u8 list" where
  "set_bit8 d bi = d[bi div 8 := d ! (bi div 8) OR push_bit (bi mod 8) 1]"

definition clear_bit8 :: "u8 list \<Rightarrow> nat \<Rightarrow> u8 list" where
  "clear_bit8 d bi = d[bi div 8 := d ! (bi div 8) AND NOT (push_bit (bi mod 8) 1)]"

text \<open>The outer loop of \<open>balloc\<close> over the bitmap blocks, with their first bit numbers.\<close>

fun balloc_loop :: "u32 \<Rightarrow> nat list \<Rightarrow> ('z fs_state_scheme, u32) prog" where
  "balloc_loop dev [] = seqp (printf (''balloc: out of blocks'' @ [CHR 0x0A]) []) (ret 0)"
| "balloc_loop dev (b # bs) =
     bindp (gets sb) (\<lambda>q.
     bindp (bread dev (BBLOCK (of_nat b) q)) (\<lambda>bp.
     bindp (getb (Buf bp) bdata) (\<lambda>d.
     case find (\<lambda>bi. \<not> bmap_bit d bi) [0..<min BPB (unat (sb_size q) - b)] of
       Some bi \<Rightarrow>
         seqp (block
          [set_data bp (\<lambda>d. set_bit8 d bi),
           log_write bp,
           brelse bp,
           bzero dev (of_nat (b + bi))]) (
         ret (of_nat (b + bi)))
     | None \<Rightarrow> seqp (brelse bp) (balloc_loop dev bs))))"

definition balloc :: "u32 \<Rightarrow> ('z fs_state_scheme, u32) prog" where
  "balloc dev =
     bindp (gets sb) (\<lambda>q.
     balloc_loop dev (map (\<lambda>k. k * BPB) [0..<(unat (sb_size q) + BPB - 1) div BPB]))"

definition bfree :: "u32 \<Rightarrow> u32 \<Rightarrow> ('z fs_state_scheme, unit) prog" where
  "bfree dev b =
     bindp (gets sb) (\<lambda>q.
     bindp (bread dev (BBLOCK b q)) (\<lambda>bp.
     bindp (getb (Buf bp) bdata) (\<lambda>d.
     let bi = unat b mod BPB in
     if \<not> bmap_bit d bi then panic ''freeing free block'' else
     block
      [set_data bp (\<lambda>d. clear_bit8 d bi),
       log_write bp,
       brelse bp])))"

section \<open>Inodes\<close>

definition iinit :: "('z fs_state_scheme, unit) prog" where
  "iinit = block (lock_init LItable # map (\<lambda>i. initsleeplock (SInode i)) [0..<NINODE])"

text \<open>The fields of a \<open>struct dinode\<close> at slot \<open>k\<close> of a block.\<close>

definition put_dinode :: "u8 list \<Rightarrow> nat \<Rightarrow> inode \<Rightarrow> u8 list" where
  "put_dinode d k ip =
     (let o0 = 64 * k in
      put_bytes (put32 (put16 (put16 (put16 (put16 d o0 (itype ip)) (o0 + 2) (imajor ip))
        (o0 + 4) (iminor ip)) (o0 + 6) (inlink ip)) (o0 + 8) (isize ip))
        (o0 + 12) (concat (map (\<lambda>j. le_bytes 4 (iaddrs ip j)) [0..<13])))"

definition load_dinode :: "u8 list \<Rightarrow> nat \<Rightarrow> inode \<Rightarrow> inode" where
  "load_dinode d k ip =
     (let o0 = 64 * k in
      ip\<lparr>itype := get16 d o0, imajor := get16 d (o0 + 2), iminor := get16 d (o0 + 4),
        inlink := get16 d (o0 + 6), isize := get32 d (o0 + 8),
        iaddrs := (\<lambda>j. if j < 13 then get32 d (o0 + 12 + 4 * j) else iaddrs ip j)\<rparr>)"

text \<open>The scan of \<open>iget\<close>: the entry that holds the inode, or the first empty entry.\<close>

fun iget_scan :: "u32 \<Rightarrow> u32 \<Rightarrow> nat list \<Rightarrow> nat option \<Rightarrow> ('z fs_state_scheme, nat + nat option) prog"
  where
  "iget_scan dev n [] emp = ret (Inr emp)"
| "iget_scan dev n (ip # ips) emp =
     bindp (geti ip id) (\<lambda>r.
     if sint (iref r) > 0 \<and> idev r = dev \<and> inum r = n then ret (Inl ip)
     else iget_scan dev n ips (if emp = None \<and> iref r = 0 then Some ip else emp))"

definition iget :: "u32 \<Rightarrow> u32 \<Rightarrow> ('z fs_state_scheme, nat) prog" where
  "iget dev n =
     seqp (lock_acquire LItable) (
     bindp (iget_scan dev n [0..<NINODE] None) (\<lambda>r.
     case r of
       Inl ip \<Rightarrow>
         seqp (seti ip (\<lambda>r. r\<lparr>iref := iref r + 1\<rparr>)) (
         seqp (lock_release LItable) (
         ret ip))
     | Inr None \<Rightarrow> panic ''iget: no inodes''
     | Inr (Some ip) \<Rightarrow>
         seqp (seti ip (\<lambda>r. r\<lparr>idev := dev, inum := n, iref := 1, ivalid := 0\<rparr>)) (
         seqp (lock_release LItable) (
         ret ip))))"

fun ialloc_loop :: "u32 \<Rightarrow> u16 \<Rightarrow> nat list \<Rightarrow> ('z fs_state_scheme, nat option) prog" where
  "ialloc_loop dev ty [] = seqp (printf (''ialloc: no inodes'' @ [CHR 0x0A]) []) (ret None)"
| "ialloc_loop dev ty (n # ns) =
     bindp (gets sb) (\<lambda>q.
     bindp (bread dev (IBLOCK (of_nat n) q)) (\<lambda>bp.
     bindp (getb (Buf bp) bdata) (\<lambda>d.
     if get16 d (64 * (n mod IPB)) = 0 then
       seqp (block
        [set_data bp (\<lambda>d. put_bytes d (64 * (n mod IPB)) (replicate 64 0)),
         set_data bp (\<lambda>d. put16 d (64 * (n mod IPB)) ty),
         log_write bp,
         brelse bp]) (
       bindp (iget dev (of_nat n)) (\<lambda>ip. ret (Some ip)))
     else seqp (brelse bp) (ialloc_loop dev ty ns))))"

definition ialloc :: "u32 \<Rightarrow> u16 \<Rightarrow> ('z fs_state_scheme, nat option) prog" where
  "ialloc dev ty = bindp (gets sb) (\<lambda>q. ialloc_loop dev ty [1..<unat (sb_ninodes q)])"

definition iupdate :: "nat \<Rightarrow> ('z fs_state_scheme, unit) prog" where
  "iupdate ip =
     bindp (geti ip id) (\<lambda>r.
     bindp (gets sb) (\<lambda>q.
     bindp (bread (idev r) (IBLOCK (inum r) q)) (\<lambda>bp.
     block
      [set_data bp (\<lambda>d. put_dinode d (unat (inum r) mod IPB) r),
       log_write bp,
       brelse bp])))"

definition idup :: "nat \<Rightarrow> ('z fs_state_scheme, nat) prog" where
  "idup ip =
     seqp (block
      [lock_acquire LItable,
       seti ip (\<lambda>r. r\<lparr>iref := iref r + 1\<rparr>),
       lock_release LItable]) (
     ret ip)"

definition ilock :: "nat \<Rightarrow> ('z fs_state_scheme, unit) prog" where
  "ilock ip =
     bindp (geti ip iref) (\<lambda>n.
     if sint n < 1 then panic ''ilock'' else
     seqp (acquiresleep (SInode ip)) (
     bindp (geti ip id) (\<lambda>r.
     whenp (ivalid r = 0) (
       bindp (gets sb) (\<lambda>q.
       bindp (bread (idev r) (IBLOCK (inum r) q)) (\<lambda>bp.
       bindp (getb (Buf bp) bdata) (\<lambda>d.
       block
        [seti ip (load_dinode d (unat (inum r) mod IPB)),
         brelse bp,
         seti ip (\<lambda>r. r\<lparr>ivalid := 1\<rparr>),
         bindp (geti ip itype) (\<lambda>ty. if ty = 0 then panic ''ilock: no type'' else ret ())])))))))"

definition iunlock :: "nat \<Rightarrow> ('z fs_state_scheme, unit) prog" where
  "iunlock ip =
     bindp (holdingsleep (SInode ip)) (\<lambda>h.
     bindp (geti ip iref) (\<lambda>n.
     if \<not> h \<or> sint n < 1 then panic ''iunlock'' else releasesleep (SInode ip)))"

section \<open>Inode contents\<close>

definition bmap :: "nat \<Rightarrow> u32 \<Rightarrow> ('z fs_state_scheme, u32) prog" where
  "bmap ip bn =
     (if unat bn < NDIRECT then
        bindp (geti ip id) (\<lambda>r.
        if iaddrs r (unat bn) = 0 then
          bindp (balloc (idev r)) (\<lambda>addr.
          if addr = 0 then ret 0 else
          seqp (seti ip (\<lambda>r. r\<lparr>iaddrs := (iaddrs r)(unat bn := addr)\<rparr>)) (ret addr))
        else ret (iaddrs r (unat bn)))
      else
      let k = unat bn - NDIRECT in
      if k < NINDIRECT then
        bindp (geti ip id) (\<lambda>r.
        bindp (if iaddrs r NDIRECT = 0 then
                 bindp (balloc (idev r)) (\<lambda>addr.
                 if addr = 0 then ret 0 else
                 seqp (seti ip (\<lambda>r. r\<lparr>iaddrs := (iaddrs r)(NDIRECT := addr)\<rparr>)) (ret addr))
               else ret (iaddrs r NDIRECT)) (\<lambda>ind.
        if ind = 0 then ret 0 else
        bindp (bread (idev r) ind) (\<lambda>bp.
        bindp (getb (Buf bp) bdata) (\<lambda>d.
        bindp (if get32 d (4 * k) = 0 then
                 bindp (balloc (idev r)) (\<lambda>addr.
                 seqp (whenp (addr \<noteq> 0) (block
                  [set_data bp (\<lambda>d. put32 d (4 * k) addr),
                   log_write bp])) (ret addr))
               else ret (get32 d (4 * k))) (\<lambda>addr.
        seqp (brelse bp) (ret addr))))))
      else panic ''bmap: out of range'')"

definition itrunc :: "nat \<Rightarrow> ('z fs_state_scheme, unit) prog" where
  "itrunc ip =
     block
      [block (map (\<lambda>i.
         bindp (geti ip id) (\<lambda>r.
         whenp (iaddrs r i \<noteq> 0) (block
          [bfree (idev r) (iaddrs r i),
           seti ip (\<lambda>r. r\<lparr>iaddrs := (iaddrs r)(i := 0)\<rparr>)]))) [0..<NDIRECT]),
       bindp (geti ip id) (\<lambda>r.
         whenp (iaddrs r NDIRECT \<noteq> 0) (
           bindp (bread (idev r) (iaddrs r NDIRECT)) (\<lambda>bp.
           bindp (getb (Buf bp) bdata) (\<lambda>d.
           block
            [block (map (\<lambda>j. whenp (get32 d (4 * j) \<noteq> 0) (bfree (idev r) (get32 d (4 * j))))
                    [0..<NINDIRECT]),
             brelse bp,
             bfree (idev r) (iaddrs r NDIRECT),
             seti ip (\<lambda>r. r\<lparr>iaddrs := (iaddrs r)(NDIRECT := 0)\<rparr>)])))),
       seti ip (\<lambda>r. r\<lparr>isize := 0\<rparr>),
       iupdate ip]"

definition iput :: "nat \<Rightarrow> ('z fs_state_scheme, unit) prog" where
  "iput ip =
     block
      [lock_acquire LItable,
       bindp (geti ip id) (\<lambda>r.
         whenp (iref r = 1 \<and> ivalid r \<noteq> 0 \<and> inlink r = 0) (block
          [acquiresleep (SInode ip),
           lock_release LItable,
           itrunc ip,
           seti ip (\<lambda>r. r\<lparr>itype := 0\<rparr>),
           iupdate ip,
           seti ip (\<lambda>r. r\<lparr>ivalid := 0\<rparr>),
           releasesleep (SInode ip),
           lock_acquire LItable])),
       seti ip (\<lambda>r. r\<lparr>iref := iref r - 1\<rparr>),
       lock_release LItable]"

definition iunlockput :: "nat \<Rightarrow> ('z fs_state_scheme, unit) prog" where
  "iunlockput ip = block [iunlock ip, iput ip]"

record stat =
  st_dev :: u32
  st_ino :: u32
  st_type :: u16
  st_nlink :: u16
  st_size :: u64

definition stati :: "nat \<Rightarrow> ('z fs_state_scheme, stat) prog" where
  "stati ip = geti ip (\<lambda>r. \<lparr>st_dev = idev r, st_ino = inum r, st_type = itype r,
                            st_nlink = inlink r, st_size = ucast (isize r)\<rparr>)"

datatype iodst = DUser u64 | DKernel u64 | DLocal
datatype iosrc = SUser u64 | SKernel u64 | SLocal "u8 list"

definition copy_to :: "iodst \<Rightarrow> u8 list \<Rightarrow> ('z fs_state_scheme, int) prog" where
  "copy_to dst bs =
     (case dst of DUser a \<Rightarrow> either_copyout True a bs
      | DKernel a \<Rightarrow> either_copyout False a bs
      | DLocal \<Rightarrow> ret 0)"

definition copy_from :: "iosrc \<Rightarrow> nat \<Rightarrow> ('z fs_state_scheme, int \<times> u8 list) prog" where
  "copy_from src m =
     (case src of SUser a \<Rightarrow> either_copyin True a m
      | SKernel a \<Rightarrow> either_copyin False a m
      | SLocal bs \<Rightarrow> ret (0, take m bs))"

definition dst_add :: "iodst \<Rightarrow> nat \<Rightarrow> iodst" where
  "dst_add dst m =
     (case dst of DUser a \<Rightarrow> DUser (a + of_nat m) | DKernel a \<Rightarrow> DKernel (a + of_nat m) | DLocal \<Rightarrow> DLocal)"

definition src_add :: "iosrc \<Rightarrow> nat \<Rightarrow> iosrc" where
  "src_add src m =
     (case src of SUser a \<Rightarrow> SUser (a + of_nat m) | SKernel a \<Rightarrow> SKernel (a + of_nat m)
      | SLocal bs \<Rightarrow> SLocal (drop m bs))"

text \<open>
  The loops of \<open>readi\<close> and \<open>writei\<close>. Every round advances by at least one byte, so \<open>n\<close> rounds
  are enough for \<open>n\<close> bytes; the first argument counts the rounds left.
\<close>

primrec readi_loop ::
    "nat \<Rightarrow> nat \<Rightarrow> iodst \<Rightarrow> nat \<Rightarrow> nat \<Rightarrow> nat \<Rightarrow> u8 list \<Rightarrow> ('z fs_state_scheme, int \<times> u8 list) prog" where
  "readi_loop 0 ip dst off n tot acc = ret (int tot, acc)"
| "readi_loop (Suc k) ip dst off n tot acc =
     (if \<not> tot < n then ret (int tot, acc) else
      bindp (bmap ip (of_nat (off div BSIZE))) (\<lambda>addr.
      if addr = 0 then ret (int tot, acc) else
      bindp (geti ip idev) (\<lambda>dev.
      bindp (bread dev addr) (\<lambda>bp.
      bindp (getb (Buf bp) bdata) (\<lambda>d.
      let m = min (n - tot) (BSIZE - off mod BSIZE);
          bs = take m (drop (off mod BSIZE) d)
      in
      bindp (copy_to dst bs) (\<lambda>r.
      if r = - 1 then seqp (brelse bp) (ret (- 1, acc))
      else seqp (brelse bp)
             (readi_loop k ip (dst_add dst m) (off + m) n (tot + m) (acc @ bs))))))))"

definition readi :: "nat \<Rightarrow> iodst \<Rightarrow> u32 \<Rightarrow> u32 \<Rightarrow> ('z fs_state_scheme, int \<times> u8 list) prog" where
  "readi ip dst off n =
     bindp (geti ip isize) (\<lambda>sz.
     if off > sz \<or> off + n < off then ret (0, []) else
     let n' = (if off + n > sz then sz - off else n) in
     readi_loop (unat n') ip dst (unat off) (unat n') 0 [])"

text \<open>\<open>writei_loop\<close> returns \<open>tot\<close> and the final \<open>off\<close>.\<close>

primrec writei_loop ::
    "nat \<Rightarrow> nat \<Rightarrow> iosrc \<Rightarrow> nat \<Rightarrow> nat \<Rightarrow> nat \<Rightarrow> ('z fs_state_scheme, nat \<times> nat) prog" where
  "writei_loop 0 ip src off n tot = ret (tot, off)"
| "writei_loop (Suc k) ip src off n tot =
     (if \<not> tot < n then ret (tot, off) else
      bindp (bmap ip (of_nat (off div BSIZE))) (\<lambda>addr.
      if addr = 0 then ret (tot, off) else
      bindp (geti ip idev) (\<lambda>dev.
      bindp (bread dev addr) (\<lambda>bp.
      let m = min (n - tot) (BSIZE - off mod BSIZE) in
      bindp (copy_from src m) (\<lambda>(r, bs).
      seqp (set_data bp (\<lambda>d. put_bytes d (off mod BSIZE) bs)) (
      if r = - 1 then seqp (brelse bp) (ret (tot, off))
      else
      seqp (log_write bp) (
      seqp (brelse bp) (
      writei_loop k ip (src_add src m) (off + m) n (tot + m)))))))))"

definition writei :: "nat \<Rightarrow> iosrc \<Rightarrow> u32 \<Rightarrow> u32 \<Rightarrow> ('z fs_state_scheme, int) prog" where
  "writei ip src off n =
     bindp (geti ip isize) (\<lambda>sz.
     if off > sz \<or> off + n < off then ret (- 1)
     else if unat (off + n) > MAXFILE * BSIZE then ret (- 1)
     else
     bindp (writei_loop (unat n) ip src (unat off) (unat n) 0) (\<lambda>(tot, off').
     seqp (whenp (of_nat off' > sz) (seti ip (\<lambda>r. r\<lparr>isize := of_nat off'\<rparr>))) (
     seqp (iupdate ip) (
     ret (int tot)))))"

section \<open>Directories\<close>

definition namecmp :: "cobj \<Rightarrow> cobj \<Rightarrow> int" where
  "namecmp s t = strncmp s t DIRSIZ"

text \<open>A \<open>struct dirent\<close> in its 16 bytes.\<close>

definition de_inum :: "u8 list \<Rightarrow> u16" where
  "de_inum de = get16 de 0"

definition de_name :: "u8 list \<Rightarrow> cobj" where
  "de_name de = (\<lambda>i. de ! (2 + i))"

definition dirent :: "u16 \<Rightarrow> cobj \<Rightarrow> u8 list" where
  "dirent n nm = le_bytes 2 n @ map nm [0..<DIRSIZ]"

definition dir_offsets :: "u32 \<Rightarrow> nat list" where
  "dir_offsets sz = map (\<lambda>k. 16 * k) [0..<(unat sz + 15) div 16]"

fun dirlookup_loop :: "nat \<Rightarrow> cobj \<Rightarrow> nat list \<Rightarrow> ('z fs_state_scheme, (nat \<times> nat) option) prog" where
  "dirlookup_loop dp nm [] = ret None"
| "dirlookup_loop dp nm (off # offs) =
     bindp (readi dp DLocal (of_nat off) 16) (\<lambda>(r, de).
     if r \<noteq> 16 then panic ''dirlookup read''
     else if de_inum de = 0 then dirlookup_loop dp nm offs
     else if namecmp nm (de_name de) = 0 then
       bindp (geti dp idev) (\<lambda>dev.
       bindp (iget dev (ucast (de_inum de))) (\<lambda>ip. ret (Some (ip, off))))
     else dirlookup_loop dp nm offs)"

definition dirlookup :: "nat \<Rightarrow> cobj \<Rightarrow> ('z fs_state_scheme, (nat \<times> nat) option) prog" where
  "dirlookup dp nm =
     bindp (geti dp id) (\<lambda>r.
     if itype r \<noteq> T_DIR then panic ''dirlookup not DIR''
     else dirlookup_loop dp nm (dir_offsets (isize r)))"

text \<open>The search of \<open>dirlink\<close> for an empty entry: its offset, or the offset past the last one.\<close>

fun dirlink_loop :: "nat \<Rightarrow> nat \<Rightarrow> nat list \<Rightarrow> ('z fs_state_scheme, nat) prog" where
  "dirlink_loop dp off0 [] = ret off0"
| "dirlink_loop dp off0 (off # offs) =
     bindp (readi dp DLocal (of_nat off) 16) (\<lambda>(r, de).
     if r \<noteq> 16 then panic ''dirlink read''
     else if de_inum de = 0 then ret off
     else dirlink_loop dp (off + 16) offs)"

definition dirlink :: "nat \<Rightarrow> cobj \<Rightarrow> u32 \<Rightarrow> ('z fs_state_scheme, int) prog" where
  "dirlink dp nm n =
     bindp (dirlookup dp nm) (\<lambda>f.
     case f of
       Some (ip, _) \<Rightarrow> seqp (iput ip) (ret (- 1))
     | None \<Rightarrow>
         bindp (geti dp isize) (\<lambda>sz.
         bindp (dirlink_loop dp 0 (dir_offsets sz)) (\<lambda>off.
         bindp (writei dp (SLocal (dirent (ucast n) (strncpy (\<lambda>_. 0) nm (int DIRSIZ)))) (of_nat off) 16)
           (\<lambda>r. if r \<noteq> 16 then ret (- 1) else ret 0))))"

section \<open>Paths\<close>

definition slash :: u8 where "slash = 47"

definition skipelem :: "u8 list \<Rightarrow> cobj \<Rightarrow> (u8 list \<times> cobj) option" where
  "skipelem path nm =
     (let p = dropWhile (\<lambda>c. c = slash) path in
      if p = [] then None else
      let e = takeWhile (\<lambda>c. c \<noteq> slash) p;
          len = length e;
          nm' = (if len \<ge> DIRSIZ then (\<lambda>i. if i < DIRSIZ then e ! i else nm i)
                 else (\<lambda>i. if i < len then e ! i else if i = len then 0 else nm i))
      in Some (dropWhile (\<lambda>c. c = slash) (dropWhile (\<lambda>c. c \<noteq> slash) p), nm'))"

text \<open>\<open>skipelem\<close> shortens the path, so the loop of \<open>namex\<close> needs no more rounds than it has bytes.\<close>

primrec namex_loop ::
    "nat \<Rightarrow> nat \<Rightarrow> u8 list \<Rightarrow> bool \<Rightarrow> cobj \<Rightarrow> ('z fs_state_scheme, nat option \<times> cobj) prog" where
  "namex_loop 0 ip path nameip nm = (\<lambda>s. Diverge)"
| "namex_loop (Suc k) ip path nameip nm =
     (case skipelem path nm of
        None \<Rightarrow> if nameip then seqp (iput ip) (ret (None, nm)) else ret (Some ip, nm)
      | Some (path', nm') \<Rightarrow>
          seqp (ilock ip) (
          bindp (geti ip itype) (\<lambda>ty.
          if ty \<noteq> T_DIR then seqp (iunlockput ip) (ret (None, nm'))
          else if nameip \<and> path' = [] then seqp (iunlock ip) (ret (Some ip, nm'))
          else
          bindp (dirlookup ip nm') (\<lambda>f.
          case f of
            None \<Rightarrow> seqp (iunlockput ip) (ret (None, nm'))
          | Some (nxt, _) \<Rightarrow> seqp (iunlockput ip) (namex_loop k nxt path' nameip nm')))))"

definition namex :: "u8 list \<Rightarrow> bool \<Rightarrow> cobj \<Rightarrow> ('z fs_state_scheme, nat option \<times> cobj) prog" where
  "namex path nameip nm =
     bindp (if path \<noteq> [] \<and> hd path = slash then iget ROOTDEV ROOTINO
            else with_proc (\<lambda>i.
              bindp (getp i cwd) (\<lambda>c. case c of None \<Rightarrow> panic ''kerneltrap'' | Some d \<Rightarrow> idup d)))
       (\<lambda>ip. namex_loop (length path + 1) ip path nameip nm)"

text \<open>The local buffer of \<open>namei\<close> starts uninitialised; its bytes are written before they are read.\<close>

definition namei :: "u8 list \<Rightarrow> ('z fs_state_scheme, nat option) prog" where
  "namei path = bindp (namex path False (\<lambda>_. 0)) (\<lambda>(ip, _). ret ip)"

definition nameiparent :: "u8 list \<Rightarrow> cobj \<Rightarrow> ('z fs_state_scheme, nat option \<times> cobj) prog" where
  "nameiparent path nm = namex path True nm"

section \<open>An example state\<close>

definition inode0 :: inode where
  "inode0 = \<lparr>idev = 0, inum = 0, iref = 0, ivalid = 0, itype = 0, imajor = 0, iminor = 0, inlink = 0,
     isize = 0, iaddrs = (\<lambda>_. 0)\<rparr>"

definition fs_example :: fs_state where
  "fs_example = log_state.extend log_example (fs_state.fields
     \<lparr>sb_magic = FSMAGIC, sb_size = 2000, sb_nblocks = 1954, sb_ninodes = 200, sb_nlog = 30,
      sb_logstart = 2, sb_inodestart = 32, sb_bmapstart = 45\<rparr> (\<lambda>_. inode0))"

lemmas fs_example_defs = fs_example_def fs_state.defs log_example_defs

end
