(* ===== verification/Fsdata.thy ===== *)
theory Fsdata
  imports Fs
begin

text \<open>
  The data structures of the file system: objects inside a block, inodes on disk, the bitmap of free
  blocks, directory entries and path names.
\<close>

section \<open>Objects inside a block\<close>

text \<open>The \<open>n\<close> bytes at offset \<open>off\<close>.\<close>

definition bytes_at :: "nat \<Rightarrow> nat \<Rightarrow> u8 list \<Rightarrow> u8 list" where
  "bytes_at off n d = take n (drop off d)"

lemma get_bytes_at: "get16 d off = le_word (bytes_at off 2 d)" "get32 d off = le_word (bytes_at off 4 d)"
  by (simp_all add: get16_def get32_def bytes_at_def)

lemma length_slice: "off + n \<le> length d \<Longrightarrow> length (bytes_at off n d) = n"
  by (simp add: bytes_at_def)

lemma length_put_bytes: "off + length bs \<le> length d \<Longrightarrow> length (put_bytes d off bs) = length d"
  by (simp add: put_bytes_def)

lemma slice_inside:
  assumes "off + length bs \<le> length d" and "a + n \<le> length bs"
  shows "bytes_at (off + a) n (put_bytes d off bs) = bytes_at a n bs"
  using assms by (simp add: bytes_at_def put_bytes_def)

lemma slice_other:
  assumes "off + length bs \<le> length d" and "a + n \<le> off \<or> off + length bs \<le> a"
  shows "bytes_at a n (put_bytes d off bs) = bytes_at a n d"
proof (cases "a + n \<le> off")
  case True
  then show ?thesis using assms(1) by (intro nth_equalityI) (auto simp: bytes_at_def put_bytes_def nth_append)
next
  case False
  then have "off + length bs \<le> a" using assms(2) by simp
  then show ?thesis using assms(1) by (simp add: bytes_at_def put_bytes_def)
qed

lemma slice_all [simp]: "bytes_at 0 (length bs) bs = bs"
  by (simp add: bytes_at_def)

lemma slice_same: "off + length bs \<le> length d \<Longrightarrow> bytes_at off (length bs) (put_bytes d off bs) = bs"
  using slice_inside [of off bs d 0 "length bs"] by simp

lemma put_get:
  "off + 2 \<le> length d \<Longrightarrow> get16 (put16 d off v) off = v"
  "off + 4 \<le> length d \<Longrightarrow> get32 (put32 d off w) off = w"
  using slice_same [of off "le_bytes 2 v" d] slice_same [of off "le_bytes 4 w" d]
  by (simp_all add: get_bytes_at put16_def put32_def)

lemma put_slice_other:
  "off + 2 \<le> length d \<Longrightarrow> a + n \<le> off \<or> off + 2 \<le> a \<Longrightarrow> bytes_at a n (put16 d off v) = bytes_at a n d"
  "off + 4 \<le> length d \<Longrightarrow> a + n \<le> off \<or> off + 4 \<le> a \<Longrightarrow> bytes_at a n (put32 d off w) = bytes_at a n d"
  by (simp_all add: put16_def put32_def slice_other)

lemma length_put:
  "off + 2 \<le> length d \<Longrightarrow> length (put16 d off v) = length d"
  "off + 4 \<le> length d \<Longrightarrow> length (put32 d off w) = length d"
  by (simp_all add: put16_def put32_def length_put_bytes)

lemma slice_words:
  "j < n \<Longrightarrow> bytes_at (4 * j) 4 (concat (map (\<lambda>j. le_bytes 4 (f j)) [0..<n])) = le_bytes 4 (f j)"
proof (induction n)
  case 0
  then show ?case by simp
next
  case (Suc n)
  have l: "length (concat (map (\<lambda>j. le_bytes 4 (f j)) [0..<n])) = 4 * n" by (induction n) simp_all
  show ?case
  proof (cases "j = n")
    case True
    then show ?thesis by (simp add: bytes_at_def l)
  next
    case False
    then have "j < n" using Suc.prems by simp
    then show ?thesis using Suc.IH by (simp add: bytes_at_def l)
  qed
qed

section \<open>Inodes on disk\<close>

lemma put_dinode_parts:
  fixes ip :: inode
  assumes "64 * k + 64 \<le> length d"
  shows "length (put_dinode d k ip) = length d"
    "get16 (put_dinode d k ip) (64 * k) = itype ip"
    "get16 (put_dinode d k ip) (64 * k + 2) = imajor ip"
    "get16 (put_dinode d k ip) (64 * k + 4) = iminor ip"
    "get16 (put_dinode d k ip) (64 * k + 6) = inlink ip"
    "get32 (put_dinode d k ip) (64 * k + 8) = isize ip"
    "j < 13 \<Longrightarrow> get32 (put_dinode d k ip) (64 * k + 12 + 4 * j) = iaddrs ip j"
    "a + n \<le> 64 * k \<or> 64 * k + 64 \<le> a \<Longrightarrow> bytes_at a n (put_dinode d k ip) = bytes_at a n d"
proof -
  let ?w = "concat (map (\<lambda>j. le_bytes 4 (iaddrs ip j)) [0..<13])"
  have l: "length ?w = 52" by (simp add: length_concat comp_def map_replicate_const sum_list_replicate)
  note puts = put_dinode_def Let_def
  show "length (put_dinode d k ip) = length d"
    using assms by (simp add: puts length_put length_put_bytes l)
  show "get16 (put_dinode d k ip) (64 * k) = itype ip"
    "get16 (put_dinode d k ip) (64 * k + 2) = imajor ip"
    "get16 (put_dinode d k ip) (64 * k + 4) = iminor ip"
    "get16 (put_dinode d k ip) (64 * k + 6) = inlink ip"
    "get32 (put_dinode d k ip) (64 * k + 8) = isize ip"
    using assms
    by (simp_all add: puts get_bytes_at slice_other length_put l put_slice_other put_get [unfolded get_bytes_at])
  show "get32 (put_dinode d k ip) (64 * k + 12 + 4 * j) = iaddrs ip j" if "j < 13"
    using assms that slice_inside [of "64 * k + 12" ?w _ "4 * j" 4]
    by (simp add: puts get_bytes_at length_put l slice_words)
  show "bytes_at a n (put_dinode d k ip) = bytes_at a n d" if "a + n \<le> 64 * k \<or> 64 * k + 64 \<le> a"
    using assms that by (auto simp: puts slice_other length_put l put_slice_other)
qed

text \<open>
  C27: an inode that \<open>iupdate\<close> writes into its slot of an inode block is what \<open>ilock\<close> reads back from
  there: type, device numbers, link count, size and all 13 block addresses; and the other slots of
  the block keep their bytes.
\<close>

theorem dinode_roundtrip:
  assumes "length d = BSIZE" and "k < IPB"
  shows "load_dinode (put_dinode d k ip) k jp =
           jp\<lparr>itype := itype ip, imajor := imajor ip, iminor := iminor ip, inlink := inlink ip,
             isize := isize ip, iaddrs := (\<lambda>j. if j < 13 then iaddrs ip j else iaddrs jp j)\<rparr> \<and>
         length (put_dinode d k ip) = BSIZE \<and>
         (\<forall>k' \<noteq> k. load_dinode (put_dinode d k ip) k' jp = load_dinode d k' jp)"
proof -
  have fit: "64 * k + 64 \<le> length d" using assms by (simp add: BSIZE_def IPB_def)
  note p = put_dinode_parts [OF fit]
  have "load_dinode (put_dinode d k ip) k' jp = load_dinode d k' jp" if "k' \<noteq> k" for k'
  proof -
    have "64 * k' + 64 \<le> 64 * k \<or> 64 * k + 64 \<le> 64 * k'" using that by arith
    then have "bytes_at (64 * k' + a) n (put_dinode d k ip) = bytes_at (64 * k' + a) n d" if "a + n \<le> 64" for a n
      using that by (intro p(8)) auto
    from this [of 0] this [of 2] this [of 4] this [of 6] this [of 8] this [of "12 + _"] show ?thesis
      by (auto simp: load_dinode_def Let_def get_bytes_at fun_eq_iff add.assoc)
  qed
  moreover have "load_dinode (put_dinode d k ip) k jp =
      jp\<lparr>itype := itype ip, imajor := imajor ip, iminor := iminor ip, inlink := inlink ip,
        isize := isize ip, iaddrs := (\<lambda>j. if j < 13 then iaddrs ip j else iaddrs jp j)\<rparr>"
    unfolding load_dinode_def Let_def using p(2-6) by (auto simp: p(7) cong: if_cong)
  ultimately show ?thesis using assms(1) p(1) by simp
qed

theorem dinode_roundtrip_witness:
  "itype (load_dinode (put_dinode (replicate BSIZE 0) 3 (inode0\<lparr>itype := 2, isize := 7\<rparr>)) 3 inode0) = 2"
  using dinode_roundtrip [of "replicate BSIZE 0" 3 "inode0\<lparr>itype := 2, isize := 7\<rparr>" inode0]
  by (simp add: IPB_def BSIZE_def)

section \<open>The bitmap of free blocks\<close>

lemma bmap_bit_iff: "bmap_bit d b \<longleftrightarrow> bit (d ! (b div 8)) (b mod 8)"
proof -
  have "x AND push_bit n 1 \<noteq> 0 \<longleftrightarrow> bit x n" for x :: u8 and n
    using bit_iff_and_push_bit_not_eq_0 [of x n] by simp
  then show ?thesis by (simp add: bmap_bit_def)
qed

text \<open>
  The bitmap is a set of block numbers. Setting a bit as \<open>balloc\<close> does adds exactly that number,
  clearing it as \<open>bfree\<close> does removes exactly that number, all other bits and the size of the block stay.
\<close>

lemma bitmap_set:
  assumes "b < 8 * length d" and "c < 8 * length d"
  shows "(bmap_bit (set_bit8 d b) c \<longleftrightarrow> c = b \<or> bmap_bit d c) \<and>
         (bmap_bit (clear_bit8 d b) c \<longleftrightarrow> c \<noteq> b \<and> bmap_bit d c) \<and>
         length (set_bit8 d b) = length d \<and> length (clear_bit8 d b) = length d"
proof -
  have l: "b div 8 < length d" "c div 8 < length d" using assms by auto
  have m: "c mod 8 < 8" by simp
  show ?thesis
  proof (cases "c div 8 = b div 8")
    case True
    then have "c = b \<longleftrightarrow> c mod 8 = b mod 8" by (metis div_mult_mod_eq)
    then show ?thesis
      using l m True
      by (auto simp: bmap_bit_iff set_bit8_def clear_bit8_def bit_or_iff bit_and_iff bit_not_iff bit_push_bit_iff
          bit_exp_iff)
  next
    case False
    then show ?thesis using l by (auto simp: bmap_bit_iff set_bit8_def clear_bit8_def)
  qed
qed

section \<open>Path names\<close>

text \<open>The elements of a path: the maximal runs of bytes between slashes.\<close>

fun path_split :: "u8 list \<Rightarrow> u8 list \<Rightarrow> u8 list list" where
  "path_split e [] = [e]"
| "path_split e (c # cs) = (if c = slash then e # path_split [] cs else path_split (e @ [c]) cs)"

definition path_elems :: "u8 list \<Rightarrow> u8 list list" where
  "path_elems p = filter (\<lambda>e. e \<noteq> []) (path_split [] p)"

lemma path_split_noslash:
  "slash \<notin> set a \<Longrightarrow> path_split e (a @ cs) = path_split (e @ a) cs"
  by (induction a arbitrary: e) auto

lemma path_elems_slash [simp]: "path_elems (slash # cs) = path_elems cs"
  by (simp add: path_elems_def)

lemma path_elems_dropWhile [simp]: "path_elems (dropWhile (\<lambda>c. c = slash) p) = path_elems p"
  by (induction p) auto

lemma path_elems_Nil [simp]: "path_elems [] = []"
  by (simp add: path_elems_def)

lemma path_elems_Cons:
  assumes "e \<noteq> []" and "slash \<notin> set e" and "p = [] \<or> hd p = slash"
  shows "path_elems (e @ p) = e # path_elems p"
proof (cases p)
  case Nil
  then show ?thesis using assms by (simp add: path_elems_def path_split_noslash [of e "[]" "[]", simplified])
next
  case (Cons c cs)
  then show ?thesis using assms by (simp add: path_elems_def path_split_noslash)
qed

lemma cstr_from_list:
  assumes "0 \<notin> set e" and "\<And>j. j < length e \<Longrightarrow> j < i + n \<Longrightarrow> nm j = e ! j"
    and "length e < i + n \<Longrightarrow> nm (length e) = 0" and "i \<le> length e"
  shows "cstr_from nm i n = take n (drop i e)"
  using assms(2-)
proof (induction n arbitrary: i)
  case 0
  then show ?case by simp
next
  case (Suc n)
  show ?case
  proof (cases "i = length e")
    case True
    then show ?thesis using Suc.prems by simp
  next
    case False
    then have i: "i < length e" using Suc.prems(3) by simp
    then have "nm i = e ! i" "e ! i \<noteq> 0"
      using Suc.prems(1) [of i] assms(1) nth_mem [OF i] by (simp, metis)
    moreover have "cstr_from nm (Suc i) n = take n (drop (Suc i) e)"
      using Suc.prems i by (intro Suc.IH) auto
    ultimately show ?thesis using Cons_nth_drop_Suc [OF i] by (simp add: take_Suc_Cons [symmetric])
  qed
qed

text \<open>
  C28: \<open>skipelem\<close> takes the elements of a path one by one. It fails exactly when the path has no
  element left. Otherwise it returns a strictly shorter path, without leading slash, that has the
  remaining elements, and a name buffer that holds, as \<open>namecmp\<close> and \<open>strncpy\<close> read it, the first
  \<open>DIRSIZ\<close> bytes of the first element.
\<close>

theorem skipelem_elems:
  assumes "0 \<notin> set path"
  shows "case skipelem path nm of
           None \<Rightarrow> path_elems path = []
         | Some (path', nm') \<Rightarrow>
             path_elems path = hd (path_elems path) # path_elems path' \<and>
             cstr nm' DIRSIZ = take DIRSIZ (hd (path_elems path)) \<and>
             length path' < length path \<and> (path' = [] \<or> hd path' \<noteq> slash)"
proof -
  define p where "p = dropWhile (\<lambda>c. c = slash) path"
  define e where "e = takeWhile (\<lambda>c. c \<noteq> slash) p"
  define r where "r = dropWhile (\<lambda>c. c \<noteq> slash) p"
  have pe: "p = e @ r" by (simp add: e_def r_def)
  have elems: "path_elems path = path_elems p" by (simp add: p_def)
  show ?thesis
  proof (cases "p = []")
    case True
    then show ?thesis using elems by (simp add: skipelem_def p_def [symmetric] Let_def)
  next
    case False
    have "hd p \<noteq> slash" using False hd_dropWhile [of "\<lambda>c. c = slash" path] by (simp add: p_def)
    then have e: "e \<noteq> []" "slash \<notin> set e" using False
      by (auto simp: e_def dest: set_takeWhileD) (cases p; simp)
    have r: "r = [] \<or> hd r = slash" using hd_dropWhile [of "\<lambda>c. c \<noteq> slash" p] by (auto simp: r_def)
    define nm' where "nm' = (if length e \<ge> DIRSIZ then (\<lambda>i. if i < DIRSIZ then e ! i else nm i)
                 else (\<lambda>i. if i < length e then e ! i else if i = length e then 0 else nm i))"
    have run: "skipelem path nm = Some (dropWhile (\<lambda>c. c = slash) r, nm')"
      using False by (simp add: skipelem_def Let_def p_def [symmetric] e_def [symmetric] r_def [symmetric] nm'_def)
    have "set e \<subseteq> set path"
      unfolding e_def p_def by (auto dest!: set_takeWhileD set_dropWhileD)
    then have "0 \<notin> set e" using assms by auto
    then have "cstr nm' DIRSIZ = take DIRSIZ e"
      unfolding cstr_def by (subst cstr_from_list [of e]) (auto simp: nm'_def)
    moreover have "path_elems path = e # path_elems r"
      unfolding elems pe by (rule path_elems_Cons [OF e r])
    moreover have "length (dropWhile (\<lambda>c. c = slash) r) < length path"
    proof -
      have "length (dropWhile (\<lambda>c. c = slash) r) \<le> length r" "length p \<le> length path"
        by (simp_all add: length_dropWhile_le p_def)
      then show ?thesis using e(1) pe by (simp add: add.commute) (metis length_append length_greater_0_conv
          less_add_same_cancel2 less_le_trans order.strict_trans1)
    qed
    moreover have "dropWhile (\<lambda>c. c = slash) r = [] \<or> hd (dropWhile (\<lambda>c. c = slash) r) \<noteq> slash"
      using hd_dropWhile [of "\<lambda>c. c = slash" r] by auto
    ultimately show ?thesis by (simp add: run)
  qed
qed

theorem skipelem_elems_witness:
  "\<exists>p nm. skipelem [slash, 97, 98, slash, slash, 99] (\<lambda>_. 0) = Some (p, nm) \<and>
          cstr nm DIRSIZ = [97, 98] \<and> path_elems p = [[99]]"
  using skipelem_elems [of "[slash, 97, 98, slash, slash, 99]" "\<lambda>_. 0"]
  by (simp add: skipelem_def slash_def path_elems_def DIRSIZ_def)

end
