(* ===== verification/Crash.thy ===== *)
theory Crash
  imports Cache Fsdata
begin

text \<open>
  The redo log survives crashes. \<open>commit\<close> is run on the buffer cache by its contract, which gives the
  sequence of block writes it makes; a crash keeps a prefix of them on the disk, and recovery at the
  next boot turns every such disk into one that has either none or all of the transaction. A write of a
  single block is atomic.
\<close>

section \<open>The log header as bytes\<close>

definition put_head :: "u32 list \<Rightarrow> u8 list \<Rightarrow> u8 list" where
  "put_head hs d = fold (\<lambda>i d. put32 d (4 + 4 * i) (hs ! i)) [0..<length hs] (put32 d 0 (of_nat (length hs)))"

definition get_head :: "u8 list \<Rightarrow> u32 list" where
  "get_head d = map (\<lambda>i. get32 d (4 + 4 * i)) [0..<count (get32 d 0)]"

lemma put32_fold:
  assumes "4 + 4 * n \<le> length d"
  shows "length (fold (\<lambda>i d. put32 d (4 + 4 * i) (hs ! i)) [0..<n] d) = length d \<and>
    (\<forall>i < n. get32 (fold (\<lambda>i d. put32 d (4 + 4 * i) (hs ! i)) [0..<n] d) (4 + 4 * i) = hs ! i) \<and>
    (\<forall>a. a \<le> 0 \<or> 4 + 4 * n \<le> a \<longrightarrow> get32 (fold (\<lambda>i d. put32 d (4 + 4 * i) (hs ! i)) [0..<n] d) a = get32 d a)"
  using assms
proof (induction n)
  case 0
  then show ?case by simp
next
  case (Suc n)
  let ?d = "fold (\<lambda>i d. put32 d (4 + 4 * i) (hs ! i)) [0..<n] d"
  have ih: "length ?d = length d" "\<forall>i < n. get32 ?d (4 + 4 * i) = hs ! i"
      "\<forall>a. a \<le> 0 \<or> 4 + 4 * n \<le> a \<longrightarrow> get32 ?d a = get32 d a"
    using Suc by auto
  have l: "(4 + 4 * n) + 4 \<le> length ?d" using Suc.prems ih(1) by simp
  have o: "get32 (put32 ?d (4 + 4 * n) v) a = get32 ?d a" if "a + 4 \<le> 4 + 4 * n \<or> 4 + 4 * n + 4 \<le> a" for a v
    using put_slice_other(2) [OF l that] by (simp add: get_bytes_at)
  show ?case
    using ih l o put_get(2) [OF l] length_put(2) [OF l] by (auto simp: less_Suc_eq)
qed

lemma sint_of_nat_log: "n \<le> LOGSIZE \<Longrightarrow> sint (of_nat n :: u32) = int n"
  by (simp add: LOGSIZE_def signed_of_nat signed_take_bit_int_eq_self)

lemma count_of_nat: "n \<le> LOGSIZE \<Longrightarrow> count (of_nat n) = n"
  by (simp add: count_def sint_of_nat_log)

section \<open>The protocol on the disk\<close>

type_synonym blocks = "u32 \<Rightarrow> u8 list"

definition apply_writes :: "(u32 \<times> u8 list) list \<Rightarrow> blocks \<Rightarrow> blocks" where
  "apply_writes ws m = fold (\<lambda>(b, x) m. m(b := x)) ws m"

text \<open>Block \<open>t\<close> of the log that starts at \<open>start\<close>, and the blocks of a log with \<open>n\<close> entries.\<close>

definition log_slot :: "u32 \<Rightarrow> nat \<Rightarrow> u32" where
  "log_slot start t = start + of_nat t + 1"

definition log_area :: "u32 \<Rightarrow> nat \<Rightarrow> u32 set" where
  "log_area start n = insert start (log_slot start ` {..<n})"

text \<open>The writes of a transaction that sets the blocks \<open>hs\<close> to their contents in \<open>V\<close>.\<close>

definition txn_writes :: "u32 \<Rightarrow> u32 list \<Rightarrow> blocks \<Rightarrow> u8 list \<Rightarrow> u8 list \<Rightarrow> (u32 \<times> u8 list) list" where
  "txn_writes start hs V H H0 = map (\<lambda>t. (log_slot start t, V (hs ! t))) [0..<length hs] @ [(start, H)] @
     map (\<lambda>h. (h, V h)) hs @ [(start, H0)]"

text \<open>What recovery makes of a disk whose header lists \<open>hs\<close>.\<close>

definition redo :: "u32 \<Rightarrow> u32 list \<Rightarrow> blocks \<Rightarrow> blocks" where
  "redo start hs m = apply_writes (map (\<lambda>t. (hs ! t, m (log_slot start t))) [0..<length hs]) m"

lemma apply_writes_append: "apply_writes (xs @ ys) m = apply_writes ys (apply_writes xs m)"
  by (simp add: apply_writes_def)

lemma apply_writes_Cons [simp]: "apply_writes ((b, x) # ws) m = apply_writes ws (m(b := x))"
  and apply_writes_Nil [simp]: "apply_writes [] m = m"
  by (simp_all add: apply_writes_def)

lemma apply_writes_other: "b \<notin> fst ` set ws \<Longrightarrow> apply_writes ws m b = m b"
  by (induction ws arbitrary: m) (auto simp: apply_writes_def)

lemma apply_writes_homes: "apply_writes (map (\<lambda>h. (h, V h)) hs) m b = (if b \<in> set hs then V b else m b)"
  by (induction hs arbitrary: m) auto

lemma slot_inj: "log_slot start i = log_slot start j \<Longrightarrow> i < 2 ^ 32 \<Longrightarrow> j < 2 ^ 32 \<Longrightarrow> i = j"
proof -
  assume "log_slot start i = log_slot start j" "i < 2 ^ 32" "j < 2 ^ 32"
  then have "(of_nat i :: u32) = of_nat j" by (simp add: log_slot_def)
  then have "unat (of_nat i :: u32) = unat (of_nat j :: u32)" by simp
  then show "i = j" using \<open>i < 2 ^ 32\<close> \<open>j < 2 ^ 32\<close> by (simp add: unat_of_nat_32)
qed

lemma slot_not_start: "Suc i < 2 ^ 32 \<Longrightarrow> log_slot start i \<noteq> start"
proof
  assume i: "Suc i < 2 ^ 32" "log_slot start i = start"
  then have "(of_nat (Suc i) :: u32) = 0" by (simp add: log_slot_def algebra_simps)
  then have "unat (of_nat (Suc i) :: u32) = 0" by (simp only: unat_0)
  then show False using unat_of_nat_32 [OF i(1)] by simp
qed

lemma apply_writes_slots:
  assumes "n \<le> 2 ^ 32" and "t < n"
  shows "apply_writes (map (\<lambda>t. (log_slot start t, f t)) [0..<n]) m (log_slot start t) = f t"
  using assms
proof (induction n)
  case 0
  then show ?case by simp
next
  case (Suc n)
  show ?case
  proof (cases "t = n")
    case True
    then show ?thesis by (simp add: apply_writes_append)
  next
    case False
    then have "log_slot start t \<noteq> log_slot start n" using slot_inj [of start t n] Suc.prems by auto
    then show ?thesis using Suc False by (simp add: apply_writes_append)
  qed
qed

text \<open>
  What the protocol needs of the header: a list of block numbers that was encoded into a block is
  decoded from it.
\<close>

locale header_codec =
  fixes enc :: "u32 list \<Rightarrow> u8 list \<Rightarrow> u8 list" and dec :: "u8 list \<Rightarrow> u32 list" and cap :: nat
  assumes dec_enc: "length hs \<le> cap \<Longrightarrow> length d = BSIZE \<Longrightarrow> dec (enc hs d) = hs"
    and enc_length: "length hs \<le> cap \<Longrightarrow> length d = BSIZE \<Longrightarrow> length (enc hs d) = BSIZE"

context header_codec
begin

text \<open>A crash after any number of the writes, then recovery: all or nothing.\<close>

lemma redo_atomic:
  assumes empty: "dec (D start) = []" and n: "length hs < 2 ^ 32 - 1"
    and apart: "set hs \<inter> log_area start (length hs) = {}" and H: "dec H = hs" and H0: "dec H0 = []"
    and m_def: "m = apply_writes (take k (txn_writes start hs V H H0)) D"
  shows "(\<forall>b. b \<notin> log_area start (length hs) \<longrightarrow> redo start (dec (m start)) m b = D b) \<or>
    (\<forall>b. b \<notin> log_area start (length hs) \<longrightarrow>
       redo start (dec (m start)) m b = (if b \<in> set hs then V b else D b))"
proof -
  let ?n = "length hs" and ?A = "map (\<lambda>t. (log_slot start t, V (hs ! t))) [0..<length hs]"
  let ?B = "map (\<lambda>h. (h, V h)) hs"
  have st: "log_slot start t \<notin> set hs" if "t < ?n" for t using apart that by (auto simp: log_area_def)
  have st0: "start \<notin> set hs" using apart by (auto simp: log_area_def)
  have sl: "log_slot start t \<noteq> start" if "t < ?n" for t using that n by (intro slot_not_start) simp
  have out: "b \<notin> fst ` set (take j ?A)" if "b \<notin> log_area start ?n - {start}" for b j
    using that by (auto simp: log_area_def take_map dest!: in_set_takeD dest: sl)
  consider (slots) "k \<le> ?n" | (homes) "?n < k" "k \<le> 2 * ?n + 1" | (all) "2 * ?n + 1 < k" by linarith
  then show ?thesis
  proof cases
    case slots
    then have m: "m = apply_writes (take k ?A) D" by (simp add: m_def txn_writes_def)
    then have "m b = D b" if "b \<notin> log_area start ?n - {start}" for b
      using apply_writes_other [OF out [OF that]] by simp
    then show ?thesis using empty by (simp add: redo_def)
  next
    case homes
    then have "take k (txn_writes start hs V H H0) = ?A @ [(start, H)] @ take (k - Suc ?n) ?B"
      by (simp add: txn_writes_def take_Cons')
    then have m: "m b = (if b \<in> set (take (k - Suc ?n) hs) then V b else ((apply_writes ?A D)(start := H)) b)" for b
      by (simp add: m_def apply_writes_append take_map apply_writes_homes)
    have "m (log_slot start t) = V (hs ! t)" if "t < ?n" for t
      using st [OF that] sl [OF that] apply_writes_slots [of ?n t start "\<lambda>t. V (hs ! t)"] n that
      by (auto simp: m dest!: in_set_takeD)
    moreover have "m start = H" using st0 by (auto simp: m dest!: in_set_takeD)
    ultimately have "redo start (dec (m start)) m = apply_writes (map (\<lambda>t. (hs ! t, V (hs ! t))) [0..<?n]) m"
      unfolding redo_def using H by (intro arg_cong [of _ _ "\<lambda>w. apply_writes w m"]) simp
    also have "map (\<lambda>t. (hs ! t, V (hs ! t))) [0..<?n] = map (\<lambda>h. (h, V h)) hs"
      by (rule nth_equalityI) simp_all
    finally have r: "redo start (dec (m start)) m b = (if b \<in> set hs then V b else m b)" for b
      by (simp add: apply_writes_homes)
    have "m b = D b" if "b \<notin> log_area start ?n" "b \<notin> set hs" for b
      using that apply_writes_other [OF out, of b ?n D] by (auto simp: m log_area_def dest!: in_set_takeD)
    then show ?thesis using r by simp
  next
    case all
    then have "take k (txn_writes start hs V H H0) = ?A @ [(start, H)] @ ?B @ [(start, H0)]"
      by (simp add: txn_writes_def)
    then have m: "m = (\<lambda>b. if b = start then H0 else if b \<in> set hs then V b else apply_writes ?A D b)"
      by (auto simp: m_def apply_writes_append apply_writes_homes fun_eq_iff)
    have "m b = (if b \<in> set hs then V b else D b)" if "b \<notin> log_area start ?n" for b
      using that apply_writes_other [OF out, of b ?n D] by (auto simp: m log_area_def)
    then show ?thesis using H0 by (simp add: redo_def m)
  qed
qed

end

interpretation head: header_codec put_head get_head LOGSIZE
proof
  fix hs :: "u32 list" and d :: "u8 list"
  assume hs: "length hs \<le> LOGSIZE" and d: "length d = BSIZE"
  let ?d = "put32 d 0 (of_nat (length hs))"
  have l: "4 + 4 * length hs \<le> length ?d" using hs d by (simp add: LOGSIZE_def BSIZE_def length_put)
  note p = put32_fold [OF l, of hs]
  note c = count_of_nat [OF hs]
  have "get32 (put_head hs d) 0 = of_nat (length hs)"
    using p d by (simp add: put_head_def put_get BSIZE_def)
  then show "get_head (put_head hs d) = hs"
    using p by (intro nth_equalityI) (auto simp: get_head_def c put_head_def)
  show "length (put_head hs d) = BSIZE"
    using p d by (simp add: put_head_def length_put BSIZE_def)
qed

section \<open>The log code on the cache\<close>

lemma getl_apply [simp, prog_simps]: "getl f s = Ret (f (log s)) s"
  by (simp add: getl_def)

lemma setl_apply [simp, prog_simps]: "setl f s = Ret () (s\<lparr>log := f (log s)\<rparr>)"
  by (simp add: setl_def)

lemma get_block_apply: "i < length (lh_block (log s)) \<Longrightarrow> get_block i s = Ret (lh_block (log s) ! i) s"
  by (simp add: get_block_def prog_simps)

lemma cache_frame_log:
  assumes "cache_frame s t"
  shows "log t = log s"
proof -
  have "t = s\<lparr>bcache := bcache t, slocks := slocks t, disk := disk t, disk_writes := disk_writes t,
     procs := procs t\<rparr>" using assms by (simp add: cache_frame_def)
  from arg_cong [OF this, of log] show ?thesis by simp
qed

lemma set_log_cache [simp]:
  "cache_ok d (s\<lparr>log := l\<rparr>) = cache_ok d s" "cache_abs d (s\<lparr>log := l\<rparr>) = cache_abs d s"
  by (simp_all add: cache_ok_def buf_ok_def cache_abs_def cong: option.case_cong)

text \<open>Nothing is locked, there is a spare buffer, and the counts of users are far from overflow.\<close>

definition idle :: "u32 \<Rightarrow> 'z bio_state_scheme \<Rightarrow> bool" where
  "idle d s \<longleftrightarrow> cache_ok d s \<and> clocked (cache_abs d s) = {} \<and>
     card {b. 0 < crefs (cache_abs d s) b} < NBUF \<and> (\<forall>b. crefs (cache_abs d s) b < 2 ^ 31)"

lemma fetch_pair:
  assumes s: "idle d s" and xy: "x \<noteq> y"
    and room: "0 < crefs (cache_abs d s) y \<or> Suc (card {b. 0 < crefs (cache_abs d s) b}) < NBUF"
  shows "\<exists>i j t u. bread d x s = Ret i t \<and> bread d y t = Ret j u \<and> cache_ok d u \<and> cache_frame s t \<and> cache_frame s u \<and>
    holds_buf d u i x \<and> holds_buf d u j y \<and> i \<noteq> j \<and>
    cache_abs d u = (cache_abs d s)\<lparr>crefs := (crefs (cache_abs d s))(x := Suc (crefs (cache_abs d s) x),
      y := Suc (crefs (cache_abs d s) y)), clocked := {x, y}\<rparr>"
proof -
  have b: "Suc (crefs (cache_abs d s) b) < 2 ^ 32" for b
    using s less_imp_le_nat [of "crefs (cache_abs d s) b" "2 ^ 31"] by (auto simp: idle_def intro: le_less_trans)
  show ?thesis
    using bio.fetch_two [of d s x y] s xy room b crefs_finite [of d s] by (auto simp: idle_def)
qed

lemma write_log_one_run:
  assumes s: "idle d s" and d: "ldev (log s) = d" and t: "t < length (lh_block (log s))"
    and x: "x = lstart (log s) + of_nat t + 1" and h: "h = lh_block (log s) ! t"
    and xh: "x \<noteq> h" and refs: "0 < crefs (cache_abs d s) h"
  shows "\<exists>u. write_log_one t s = Ret () u \<and> cache_ok d u \<and> cache_frame s u \<and>
    cache_abs d u = written (cache_abs d s) x (cview (cache_abs d s) h)"
proof -
  let ?A = "cache_abs d s"
  obtain i j s1 s2 where s2: "bread d x s = Ret i s1" "bread d h s1 = Ret j s2" "cache_ok d s2"
      "cache_frame s s1" "cache_frame s s2" "holds_buf d s2 i x" "holds_buf d s2 j h" "i \<noteq> j"
      "cache_abs d s2 = ?A\<lparr>crefs := (crefs ?A)(x := Suc (crefs ?A x), h := Suc (crefs ?A h)), clocked := {x, h}\<rparr>"
    using fetch_pair [OF s xh disjI1 [OF refs]] by blast
  have "length (cview (cache_abs d s2) h) = BSIZE" using bio.size_law [OF s2(3,7)] .
  then obtain s3 s4 where s4: "set_data i (\<lambda>_. cview ?A h) s2 = Ret () s3" "bwrite i s3 = Ret () s4" "cache_ok d s4"
      "cache_frame s2 s4" "holds_buf d s4 = holds_buf d s2"
      "cache_abs d s4 = written (cache_abs d s2) x (cview ?A h)"
    using bio.set_store [OF s2(3,6), where f = "\<lambda>_. cview ?A h"] by (auto simp: s2(9))
  have clean: "1 < crefs (cache_abs d s4) h \<or> cview (cache_abs d s4) h = cdisk (cache_abs d s4) h"
      "1 < crefs (cache_abs d s4) x \<or> cview (cache_abs d s4) x = cdisk (cache_abs d s4) x"
    using refs xh by (simp_all add: s4(6) s2(9) written_def)
  have hold: "holds_buf d s4 j h" "holds_buf d s4 i x" using s2 s4(5) by simp_all
  obtain s5 s6 where s6: "brelse j s4 = Ret () s5" "brelse i s5 = Ret () s6" "cache_ok d s6" "cache_frame s4 s6"
      "cache_abs d s6 = (cache_abs d s4)\<lparr>crefs := (crefs (cache_abs d s4))(h := crefs (cache_abs d s4) h - 1,
         x := crefs (cache_abs d s4) x - 1), clocked := clocked (cache_abs d s4) - {h, x}\<rparr>"
    using bio.release_two [OF s4(3) hold s2(8) [symmetric] xh [symmetric] clean] by blast
  have "bdata (bcache s2 (Buf j)) = cview ?A h"
    using holds_buf_facts(4) [OF s2(3,7)] by (simp add: s2(9))
  then have "write_log_one t s = Ret () s6"
    using s2 s4 s6 d t x h cache_frame_log [OF s2(4)]
    by (simp add: write_log_one_def prog_simps get_block_apply)
  moreover have "cache_abs d s6 = written ?A x (cview ?A h)"
    using xh s by (simp add: s6(5) s4(6) s2(9) written_def idle_def fun_eq_iff)
  moreover have "cache_frame s s6" using cache_frame_trans s2(5) s4(4) s6(4) by blast
  ultimately show ?thesis using s6(3) by blast
qed

lemma whenp_unpin:
  assumes ok: "cache_ok d s" and h: "holds_buf d s i b" and refs: "r \<or> 1 < crefs (cache_abs d s) b"
  shows "\<exists>t. whenp (\<not> r) (bunpin i) s = Ret () t \<and> cache_ok d t \<and> cache_frame s t \<and> holds_buf d t = holds_buf d s \<and>
    cache_abs d t = (cache_abs d s)\<lparr>crefs := (crefs (cache_abs d s))
      (b := if r then crefs (cache_abs d s) b else crefs (cache_abs d s) b - 1)\<rparr>"
  using bunpin_contract [OF ok h] refs ok by (cases r) (auto simp: whenp_def)

lemma install_one_run:
  assumes s: "idle d s" and d: "ldev (log s) = d" and t: "t < length (lh_block (log s))"
    and x: "x = lstart (log s) + of_nat t + 1" and h: "h = lh_block (log s) ! t"
    and xh: "x \<noteq> h" and xrefs: "crefs (cache_abs d s) x = 0"
    and refs: "if r then Suc (card {b. 0 < crefs (cache_abs d s) b}) < NBUF else 0 < crefs (cache_abs d s) h"
  shows "\<exists>u. install_one r t s = Ret () u \<and> cache_ok d u \<and> cache_frame s u \<and>
    cache_abs d u = (written (cache_abs d s) h (cview (cache_abs d s) x))\<lparr>crefs := (crefs (cache_abs d s))
      (h := if r then crefs (cache_abs d s) h else crefs (cache_abs d s) h - 1)\<rparr>"
proof -
  let ?A = "cache_abs d s"
  have room: "0 < crefs ?A h \<or> Suc (card {b. 0 < crefs ?A b}) < NBUF" using refs by (auto split: if_splits)
  obtain i j s1 s2 where s2: "bread d x s = Ret i s1" "bread d h s1 = Ret j s2" "cache_ok d s2"
      "cache_frame s s1" "cache_frame s s2" "holds_buf d s2 i x" "holds_buf d s2 j h" "i \<noteq> j"
      "cache_abs d s2 = ?A\<lparr>crefs := (crefs ?A)(x := Suc (crefs ?A x), h := Suc (crefs ?A h)), clocked := {x, h}\<rparr>"
    using fetch_pair [OF s xh room] by blast
  have "length (cview (cache_abs d s2) x) = BSIZE" using bio.size_law [OF s2(3,6)] .
  then obtain s3 s4 where s4: "set_data j (\<lambda>_. cview ?A x) s2 = Ret () s3" "bwrite j s3 = Ret () s4" "cache_ok d s4"
      "cache_frame s2 s4" "holds_buf d s4 = holds_buf d s2"
      "cache_abs d s4 = written (cache_abs d s2) h (cview ?A x)"
    using bio.set_store [OF s2(3,7), where f = "\<lambda>_. cview ?A x"] by (auto simp: s2(9))
  have "r \<or> 1 < crefs (cache_abs d s4) h"
    using refs by (auto simp: s4(6) s2(9) written_def split: if_splits)
  moreover have h4: "holds_buf d s4 j h" using s2 s4(5) by simp
  ultimately obtain s5 where s5: "whenp (\<not> r) (bunpin j) s4 = Ret () s5" "cache_ok d s5" "cache_frame s4 s5"
      "holds_buf d s5 = holds_buf d s4" "cache_abs d s5 = (cache_abs d s4)\<lparr>crefs := (crefs (cache_abs d s4))
      (h := if r then crefs (cache_abs d s4) h else crefs (cache_abs d s4) h - 1)\<rparr>"
    using whenp_unpin [OF s4(3)] by blast
  have "cview ?A x = cdisk ?A x" using s xrefs cache_clean [of d s x] by (simp add: idle_def)
  then have clean: "1 < crefs (cache_abs d s5) x \<or> cview (cache_abs d s5) x = cdisk (cache_abs d s5) x"
      "1 < crefs (cache_abs d s5) h \<or> cview (cache_abs d s5) h = cdisk (cache_abs d s5) h"
    using xh by (simp_all add: s5(5) s4(6) s2(9) written_def)
  have hold: "holds_buf d s5 i x" "holds_buf d s5 j h" using s2 s4(5) s5(4) by simp_all
  obtain s6 s7 where s7: "brelse i s5 = Ret () s6" "brelse j s6 = Ret () s7" "cache_ok d s7" "cache_frame s5 s7"
      "cache_abs d s7 = (cache_abs d s5)\<lparr>crefs := (crefs (cache_abs d s5))(x := crefs (cache_abs d s5) x - 1,
         h := crefs (cache_abs d s5) h - 1), clocked := clocked (cache_abs d s5) - {x, h}\<rparr>"
    using bio.release_two [OF s5(2) hold s2(8) xh clean] by blast
  have "bdata (bcache s2 (Buf i)) = cview ?A x"
    using holds_buf_facts(4) [OF s2(3,6)] by (simp add: s2(9))
  then have "install_one r t s = Ret () s7"
    using s2 s4 s5(1) s7 d t x h cache_frame_log [OF s2(4)]
    by (simp add: install_one_def prog_simps get_block_apply)
  moreover have "cache_abs d s7 = (written ?A h (cview ?A x))\<lparr>crefs := (crefs ?A)
      (h := if r then crefs ?A h else crefs ?A h - 1)\<rparr>"
    using xh s refs by (simp add: s7(5) s5(5) s4(6) s2(9) written_def idle_def fun_eq_iff)
  moreover have "cache_frame s s7" using cache_frame_trans s2(5) s4(4) s5(3) s7(4) by blast
  ultimately show ?thesis using s7(3) by blast
qed

text \<open>The loop of \<open>write_head\<close> edits one buffer.\<close>

lemma set_data_apply: "set_data i f s = Ret () (s\<lparr>bcache := (bcache s)(Buf i := (bcache s (Buf i))
    \<lparr>bdata := f (bdata (bcache s (Buf i)))\<rparr>)\<rparr>)"
  by (simp add: set_data_def)

lemma put_loop:
  assumes "\<forall>i \<in> set is. i < length (lh_block (log s))"
  shows "block (map (\<lambda>i. bindp (get_block i) (\<lambda>v. set_data b (\<lambda>d. put32 d (4 + 4 * i) v))) is) s =
    set_data b (fold (\<lambda>i d. put32 d (4 + 4 * i) (lh_block (log s) ! i)) is) s"
  using assms
proof (induction "is" arbitrary: s)
  case Nil
  then show ?case by (simp add: set_data_apply)
next
  case (Cons i js)
  let ?s = "s\<lparr>bcache := (bcache s)(Buf b := (bcache s (Buf b))\<lparr>bdata :=
      put32 (bdata (bcache s (Buf b))) (4 + 4 * i) (lh_block (log s) ! i)\<rparr>)\<rparr>"
  have "get_block i s = Ret (lh_block (log s) ! i) s" using Cons.prems by (intro get_block_apply) simp
  then show ?case
    using Cons.IH [of ?s] Cons.prems by (simp add: seqp_apply bindp_apply set_data_apply)
qed

lemma head_loop:
  assumes "hs = take (length hs) (lh_block (log s))"
  shows "seqp (set_data b (\<lambda>d. put32 d 0 (of_nat (length hs))))
     (block (map (\<lambda>i. bindp (get_block i) (\<lambda>v. set_data b (\<lambda>d. put32 d (4 + 4 * i) v))) [0..<length hs])) s =
    set_data b (put_head hs) s"
proof -
  let ?d = "put32 (bdata (bcache s (Buf b))) 0 (of_nat (length hs))"
  let ?s = "s\<lparr>bcache := (bcache s)(Buf b := (bcache s (Buf b))\<lparr>bdata := ?d\<rparr>)\<rparr>"
  have hl: "length hs \<le> length (lh_block (log s))" by (subst assms) simp
  have "lh_block (log s) ! i = hs ! i" if "i < length hs" for i
    using arg_cong [OF assms, of "\<lambda>l. l ! i"] that by simp
  then have "fold (\<lambda>i d. put32 d (4 + 4 * i) (lh_block (log s) ! i)) [0..<length hs] ?d =
      put_head hs (bdata (bcache s (Buf b)))"
    unfolding put_head_def by (intro fold_cong) auto
  then show ?thesis
    using put_loop [of "[0..<length hs]" ?s b] hl by (simp add: seqp_apply set_data_apply)
qed

lemma write_head_run:
  assumes s: "idle d s" and d: "ldev (log s) = d" and x: "x = lstart (log s)" and refs: "crefs (cache_abs d s) x = 0"
    and n: "lh_n (log s) = of_nat (length hs)" "hs = take (length hs) (lh_block (log s))" "length hs \<le> LOGSIZE"
  shows "\<exists>u. write_head s = Ret () u \<and> cache_ok d u \<and> cache_frame s u \<and>
    cache_abs d u = written (cache_abs d s) x (put_head hs (cview (cache_abs d s) x))"
proof -
  let ?A = "cache_abs d s"
  have c: "card {b. 0 < crefs ?A b} < NBUF" "x \<notin> clocked ?A" "Suc (crefs ?A x) < 2 ^ 32"
    using s refs by (simp_all add: idle_def)
  obtain i s1 where s1: "bread d x s = Ret i s1" "cache_ok d s1" "cache_frame s s1" "holds_buf d s1 i x"
      "cache_abs d s1 = ?A\<lparr>crefs := (crefs ?A)(x := Suc (crefs ?A x)), clocked := insert x (clocked ?A)\<rparr>"
    using bread_contract [of d s x] s c by (auto simp: idle_def)
  have len: "length (cview ?A x) = BSIZE" using bio.size_law [OF s1(2,4)] by (simp add: s1(5))
  then obtain s2 s3 where s3: "set_data i (put_head hs) s1 = Ret () s2" "bwrite i s2 = Ret () s3" "cache_ok d s3"
      "cache_frame s1 s3" "holds_buf d s3 = holds_buf d s1"
      "cache_abs d s3 = written (cache_abs d s1) x (put_head hs (cview ?A x))"
    using bio.set_store [OF s1(2,4), where f = "put_head hs"] head.enc_length [OF n(3) len] by (auto simp: s1(5))
  have "1 < crefs (cache_abs d s3) x \<or> cview (cache_abs d s3) x = cdisk (cache_abs d s3) x"
    by (simp add: s3(6) written_def)
  moreover have "holds_buf d s3 i x" using s1(4) s3(5) by simp
  ultimately obtain s4 where s4: "brelse i s3 = Ret () s4" "cache_ok d s4" "cache_frame s3 s4"
      "cache_abs d s4 = (cache_abs d s3)\<lparr>crefs := (crefs (cache_abs d s3))(x := crefs (cache_abs d s3) x - 1),
        clocked := clocked (cache_abs d s3) - {x}\<rparr>"
    using brelse_contract [OF s3(3)] by blast
  have "log s1 = log s" using cache_frame_log [OF s1(3)] .
  then have "write_head s = Ret () s4"
    using s1(1) s3(1,2) s4(1) d x n count_of_nat [OF n(3)] head_loop [of hs s1 i]
    by (auto simp: write_head_def prog_simps split: outcome.splits)
  moreover have "cache_abs d s4 = written ?A x (put_head hs (cview ?A x))"
    using s by (simp add: s4(4) s3(6) s1(5) written_def idle_def fun_eq_iff)
  moreover have "cache_frame s s4" using cache_frame_trans s1(3) s3(4) s4(3) by blast
  ultimately show ?thesis using s4(2) by blast
qed

section \<open>The loops\<close>

definition writtens :: "(u32 \<times> u8 list) list \<Rightarrow> cstate \<Rightarrow> cstate" where
  "writtens ws A = A\<lparr>cview := apply_writes ws (cview A), cdisk := apply_writes ws (cdisk A),
     cwrites := cwrites A @ ws\<rparr>"

lemma writtens_Nil [simp]: "writtens [] A = A"
  by (simp add: writtens_def)

lemma writtens_snoc: "written (writtens ws A) b x = writtens (ws @ [(b, x)]) A"
  by (simp add: writtens_def written_def apply_writes_append)

lemma writtens_append: "writtens ys (writtens xs A) = writtens (xs @ ys) A"
  by (simp add: writtens_def apply_writes_append)

lemma block_snoc: "block (xs @ [m]) s = seqp (block xs) m s"
  by (induction xs arbitrary: s) (simp_all add: seqp_apply split: outcome.splits)

lemma idle_refs:
  assumes "idle d s" and "cache_ok d t" and "clocked (cache_abs d t) = {}"
    and "\<And>b. crefs (cache_abs d t) b \<le> crefs (cache_abs d s) b"
  shows "idle d t" and "card {b. 0 < crefs (cache_abs d t) b} \<le> card {b. 0 < crefs (cache_abs d s) b}"
proof -
  have "{b. 0 < crefs (cache_abs d t) b} \<subseteq> {b. 0 < crefs (cache_abs d s) b}"
    using assms(4) by (auto intro: less_le_trans)
  then show c: "card {b. 0 < crefs (cache_abs d t) b} \<le> card {b. 0 < crefs (cache_abs d s) b}"
    by (rule card_mono [OF crefs_finite])
  have "crefs (cache_abs d t) b < 2 ^ 31" for b
    by (rule le_less_trans [OF assms(4)]) (use assms(1) in \<open>simp add: idle_def\<close>)
  then show "idle d t" using assms(1-3) c by (simp add: idle_def)
qed

lemma log_block_nth:
  assumes "hs = take (length hs) (lh_block (log s))" and "t < length hs"
  shows "lh_block (log s) ! t = hs ! t" and "t < length (lh_block (log s))"
proof -
  show "lh_block (log s) ! t = hs ! t" using arg_cong [OF assms(1), of "\<lambda>l. l ! t"] assms(2) by simp
  have "length hs \<le> length (lh_block (log s))" by (subst assms(1)) simp
  then show "t < length (lh_block (log s))" using assms(2) by simp
qed

lemma slot_home:
  assumes "set hs \<inter> log_area start (length hs) = {}" and "t < length hs" and "h \<in> set hs"
  shows "log_slot start t \<noteq> h"
  using assms by (auto simp: log_area_def)

lemma write_log_loop:
  assumes s: "idle d s" and d: "ldev (log s) = d" and hs: "hs = take (length hs) (lh_block (log s))"
    and apart: "set hs \<inter> log_area (lstart (log s)) (length hs) = {}"
    and refs: "\<forall>h \<in> set hs. 0 < crefs (cache_abs d s) h" and j: "j \<le> length hs"
  shows "\<exists>u. block (map write_log_one [0..<j]) s = Ret () u \<and> cache_ok d u \<and> cache_frame s u \<and>
    cache_abs d u = writtens (map (\<lambda>t. (log_slot (lstart (log s)) t, cview (cache_abs d s) (hs ! t))) [0..<j])
      (cache_abs d s)"
  using j
proof (induction j)
  case 0
  then show ?case using s by (simp add: idle_def)
next
  case (Suc j)
  let ?A = "cache_abs d s" and ?start = "lstart (log s)"
  let ?w = "map (\<lambda>t. (log_slot ?start t, cview ?A (hs ! t))) [0..<j]"
  obtain u where u: "block (map write_log_one [0..<j]) s = Ret () u" "cache_ok d u" "cache_frame s u"
      "cache_abs d u = writtens ?w ?A" using Suc by auto
  have jl: "j < length hs" using Suc.prems by simp
  have l: "log u = log s" using cache_frame_log [OF u(3)] .
  have iu: "idle d u" using idle_refs(1) [OF s u(2)] s by (simp add: u(4) writtens_def idle_def)
  have home: "hs ! j \<in> set hs" using jl by simp
  have "log_slot ?start t \<noteq> hs ! j" if "t < j" for t using slot_home [OF apart _ home, of t] that jl by simp
  then have "hs ! j \<notin> fst ` set ?w" by force
  then have v: "cview (cache_abs d u) (hs ! j) = cview ?A (hs ! j)"
    by (simp add: u(4) writtens_def apply_writes_other)
  obtain v where "write_log_one j u = Ret () v" "cache_ok d v" "cache_frame u v"
      "cache_abs d v = written (cache_abs d u) (log_slot ?start j) (cview ?A (hs ! j))"
    using write_log_one_run [OF iu, of j "log_slot ?start j" "hs ! j"] l d log_block_nth [OF hs jl]
      slot_home [OF apart jl home] refs home v
    by (auto simp: log_slot_def u(4) writtens_def)
  then show ?case
    using u cache_frame_trans [OF u(3)] by (auto simp: block_snoc seqp_apply writtens_snoc)
qed

lemma install_loop:
  assumes s: "idle d s" and d: "ldev (log s) = d" and hs: "hs = take (length hs) (lh_block (log s))"
    and apart: "set hs \<inter> log_area (lstart (log s)) (length hs) = {}"
    and slots: "\<forall>t < length hs. crefs (cache_abs d s) (log_slot (lstart (log s)) t) = 0"
    and refs: "if r then Suc (card {b. 0 < crefs (cache_abs d s) b}) < NBUF
               else distinct hs \<and> (\<forall>h \<in> set hs. 0 < crefs (cache_abs d s) h)"
    and j: "j \<le> length hs"
  shows "\<exists>u. block (map (install_one r) [0..<j]) s = Ret () u \<and> cache_ok d u \<and> cache_frame s u \<and>
    cache_abs d u = (writtens (map (\<lambda>t. (hs ! t, cview (cache_abs d s) (log_slot (lstart (log s)) t))) [0..<j])
      (cache_abs d s))\<lparr>crefs := (\<lambda>b. if \<not> r \<and> b \<in> set (take j hs) then crefs (cache_abs d s) b - 1
        else crefs (cache_abs d s) b)\<rparr>"
  using j
proof (induction j)
  case 0
  then show ?case using s by (simp add: idle_def)
next
  case (Suc j)
  let ?A = "cache_abs d s" and ?start = "lstart (log s)"
  let ?w = "map (\<lambda>t. (hs ! t, cview ?A (log_slot ?start t))) [0..<j]"
  let ?c = "\<lambda>j b. if \<not> r \<and> b \<in> set (take j hs) then crefs ?A b - 1 else crefs ?A b"
  obtain u where u: "block (map (install_one r) [0..<j]) s = Ret () u" "cache_ok d u" "cache_frame s u"
      "cache_abs d u = (writtens ?w ?A)\<lparr>crefs := ?c j\<rparr>" using Suc by auto
  have jl: "j < length hs" using Suc.prems by simp
  have l: "log u = log s" using cache_frame_log [OF u(3)] .
  have iu: "idle d u" and cu: "card {b. 0 < crefs (cache_abs d u) b} \<le> card {b. 0 < crefs ?A b}"
    using idle_refs [OF s u(2)] s by (simp_all add: u(4) writtens_def idle_def)
  have home: "hs ! j \<in> set hs" using jl by simp
  let ?x = "log_slot ?start j"
  have "hs ! t \<noteq> ?x" if "t < j" for t using slot_home [OF apart jl, of "hs ! t"] that jl by auto
  then have "?x \<notin> fst ` set ?w" by force
  then have v: "cview (cache_abs d u) ?x = cview ?A ?x" by (simp add: u(4) writtens_def apply_writes_other)
  have fresh: "hs ! j \<notin> set (take j hs)" if "\<not> r"
    using refs that jl by (auto simp: distinct_conv_nth in_set_conv_nth)
  have x0: "crefs (cache_abs d u) ?x = 0" using slots jl by (simp add: u(4))
  have ru: "if r then Suc (card {b. 0 < crefs (cache_abs d u) b}) < NBUF else 0 < crefs (cache_abs d u) (hs ! j)"
    using refs cu fresh home by (auto simp: u(4))
  obtain v where w: "install_one r j u = Ret () v" "cache_ok d v" "cache_frame u v"
      "cache_abs d v = (written (cache_abs d u) (hs ! j) (cview ?A ?x))\<lparr>crefs := (crefs (cache_abs d u))
        (hs ! j := if r then crefs (cache_abs d u) (hs ! j) else crefs (cache_abs d u) (hs ! j) - 1)\<rparr>"
    using install_one_run [OF iu, of j ?x "hs ! j" r] l d log_block_nth [OF hs jl]
      slot_home [OF apart jl home] v x0 ru by (auto simp: log_slot_def)
  have c: "(?c j)(hs ! j := if r then ?c j (hs ! j) else ?c j (hs ! j) - 1) = ?c (Suc j)"
    using fresh jl by (auto simp: fun_eq_iff take_Suc_conv_app_nth)
  have "cache_abs d v = (writtens (?w @ [(hs ! j, cview ?A ?x)]) ?A)\<lparr>crefs := ?c (Suc j)\<rparr>"
    unfolding w(4) u(4) c [symmetric]
    by (simp add: written_def writtens_def apply_writes_append)
  then show ?case
    using u(1) w cache_frame_trans [OF u(3) w(3)] by (auto simp: block_snoc seqp_apply)
qed

section \<open>Committing a transaction\<close>

text \<open>
  The state in which \<open>commit\<close> is called: no operation is outstanding, the blocks \<open>hs\<close> of the transaction are
  pinned in the cache, apart from each other and from the log.
\<close>

definition txn_ready :: "u32 list \<Rightarrow> 'z log_state_scheme \<Rightarrow> bool" where
  "txn_ready hs s \<longleftrightarrow>
     (let d = ldev (log s); A = cache_abs d s in
      idle d s \<and> hs = take (length hs) (lh_block (log s)) \<and> lh_n (log s) = of_nat (length hs) \<and>
      length hs \<le> LOGSIZE \<and> distinct hs \<and> set hs \<inter> log_area (lstart (log s)) (length hs) = {} \<and>
      crefs A = (\<lambda>b. if b \<in> set hs then 1 else 0))"

definition commit_writes :: "u32 list \<Rightarrow> 'z log_state_scheme \<Rightarrow> (u32 \<times> u8 list) list" where
  "commit_writes hs s =
     (let start = lstart (log s); V = cview (cache_abs (ldev (log s)) s); H = put_head hs (V start)
      in txn_writes start hs V H (put_head [] H))"

lemma write_log_head:
  assumes r: "txn_ready hs s" and d: "d = ldev (log s)"
  shows "\<exists>t. seqp write_log write_head s = Ret () t \<and> idle d t \<and> log t = log s \<and> cache_frame s t \<and>
    cache_abs d t = writtens (map (\<lambda>t. (log_slot (lstart (log s)) t, cview (cache_abs d s) (hs ! t))) [0..<length hs] @
      [(lstart (log s), put_head hs (cview (cache_abs d s) (lstart (log s))))]) (cache_abs d s)"
proof -
  let ?A = "cache_abs d s" and ?start = "lstart (log s)"
  let ?w = "map (\<lambda>t. (log_slot ?start t, cview ?A (hs ! t))) [0..<length hs]"
  have s: "idle d s" "hs = take (length hs) (lh_block (log s))" "lh_n (log s) = of_nat (length hs)"
      "length hs \<le> LOGSIZE" "set hs \<inter> log_area ?start (length hs) = {}"
      "crefs ?A = (\<lambda>b. if b \<in> set hs then 1 else 0)"
    using r by (simp_all add: txn_ready_def d Let_def)
  obtain u where u: "block (map write_log_one [0..<length hs]) s = Ret () u" "cache_ok d u" "cache_frame s u"
      "cache_abs d u = writtens ?w ?A"
    using write_log_loop [OF s(1) d [symmetric] s(2,5), of "length hs"] s(6) by auto
  have l: "log u = log s" using cache_frame_log [OF u(3)] .
  have iu: "idle d u" using idle_refs(1) [OF s(1) u(2)] s(1) by (simp add: u(4) writtens_def idle_def)
  have "log_slot ?start t \<noteq> ?start" if "t < length hs" for t
    using that s(4) by (intro slot_not_start) (simp add: LOGSIZE_def)
  then have "?start \<notin> fst ` set ?w" by force
  then have v: "cview (cache_abs d u) ?start = cview ?A ?start"
    by (simp add: u(4) writtens_def apply_writes_other)
  have "?start \<notin> set hs" using s(5) by (auto simp: log_area_def)
  then have "crefs (cache_abs d u) ?start = 0" using s(6) by (simp add: u(4) writtens_def)
  then obtain t where t: "write_head u = Ret () t" "cache_ok d t" "cache_frame u t"
      "cache_abs d t = written (cache_abs d u) ?start (put_head hs (cview ?A ?start))"
    using write_head_run [OF iu, of ?start hs] l d s(2-4) v by auto
  have "idle d t" using idle_refs(1) [OF s(1) t(2)] s(1) by (simp add: t(4) u(4) writtens_def written_def idle_def)
  then show ?thesis
    using u(1) t cache_frame_trans [OF u(3) t(3)] cache_frame_log [OF t(3)] l s(3,4)
    by (simp add: seqp_apply bindp_apply write_log_def count_of_nat u(4) writtens_snoc)
qed

lemma commit_install:
  assumes r: "txn_ready hs s" and d: "d = ldev (log s)"
  defines "V \<equiv> cview (cache_abs d s)" and "start \<equiv> lstart (log s)"
  shows "\<exists>t u. seqp write_log write_head s = Ret () t \<and> install_trans False t = Ret () u \<and> cache_ok d u \<and>
    log u = log s \<and> cache_abs d u = (writtens (map (\<lambda>t. (log_slot start t, V (hs ! t))) [0..<length hs] @
      [(start, put_head hs (V start))] @ map (\<lambda>h. (h, V h)) hs) (cache_abs d s))\<lparr>crefs := (\<lambda>_. 0)\<rparr>"
proof -
  let ?A = "cache_abs d s"
  let ?w = "map (\<lambda>t. (log_slot start t, V (hs ! t))) [0..<length hs] @ [(start, put_head hs (V start))]"
  have s: "idle d s" "hs = take (length hs) (lh_block (log s))" "lh_n (log s) = of_nat (length hs)"
      "length hs \<le> LOGSIZE" "distinct hs" "set hs \<inter> log_area start (length hs) = {}"
      "crefs ?A = (\<lambda>b. if b \<in> set hs then 1 else 0)"
    using r by (simp_all add: txn_ready_def d Let_def start_def)
  obtain t where t: "seqp write_log write_head s = Ret () t" "idle d t" "log t = log s" "cache_frame s t"
      "cache_abs d t = writtens ?w ?A" using write_log_head [OF r d] by (auto simp: V_def start_def)
  have st: "log_slot start k \<noteq> start" "log_slot start k \<notin> set hs" if "k < length hs" for k
    using that s(4,6) slot_not_start [of k start] by (auto simp: log_area_def LOGSIZE_def)
  have slot: "cview (cache_abs d t) (log_slot start k) = V (hs ! k)" "crefs (cache_abs d t) (log_slot start k) = 0"
    if "k < length hs" for k
    using that st [OF that] s(4,7) apply_writes_slots [of "length hs" k start "\<lambda>t. V (hs ! t)"]
    by (simp_all add: t(5) writtens_def apply_writes_append LOGSIZE_def)
  let ?x = "map (\<lambda>k. (hs ! k, cview (cache_abs d t) (log_slot start k))) [0..<length hs]"
  have x: "?x = map (\<lambda>h. (h, V h)) hs" by (rule nth_equalityI) (simp_all add: slot)
  have refs: "if False then Suc (card {b. 0 < crefs (cache_abs d t) b}) < NBUF
      else distinct hs \<and> (\<forall>h \<in> set hs. 0 < crefs (cache_abs d t) h)"
    using s(5,7) by (simp add: t(5) writtens_def)
  obtain u where u: "block (map (install_one False) [0..<length hs]) t = Ret () u" "cache_ok d u" "cache_frame t u"
      "cache_abs d u = (writtens ?x (cache_abs d t))\<lparr>crefs := (\<lambda>b. if \<not> False \<and> b \<in> set (take (length hs) hs)
        then crefs (cache_abs d t) b - 1 else crefs (cache_abs d t) b)\<rparr>"
    using install_loop [OF t(2), of hs False "length hs"] t(3) d s(2,6) slot(2) refs
    by (auto simp: start_def)
  have "cache_abs d u = (writtens (?w @ map (\<lambda>h. (h, V h)) hs) ?A)\<lparr>crefs := (\<lambda>_. 0)\<rparr>"
    unfolding u(4) unfolding x unfolding t(5) using s(7) by (simp add: writtens_def apply_writes_append fun_eq_iff)
  moreover have "install_trans False t = Ret () u"
    using u(1) t(3) s(3,4) by (simp add: install_trans_def prog_simps count_of_nat)
  ultimately show ?thesis using t(1,3) u(2) cache_frame_log [OF u(3)] by auto
qed

lemma commit_run:
  assumes r: "txn_ready hs s" and ne: "hs \<noteq> []" and d: "d = ldev (log s)"
  shows "\<exists>t. commit s = Ret () t \<and> cache_ok d t \<and> log t = (log s)\<lparr>lh_n := 0\<rparr> \<and>
    cache_abs d t = (writtens (commit_writes hs s) (cache_abs d s))\<lparr>crefs := (\<lambda>_. 0)\<rparr>"
proof -
  let ?A = "cache_abs d s" and ?start = "lstart (log s)"
  let ?V = "cview ?A" let ?H = "put_head hs (?V ?start)"
  let ?w = "map (\<lambda>t. (log_slot ?start t, ?V (hs ! t))) [0..<length hs] @ [(?start, ?H)] @ map (\<lambda>h. (h, ?V h)) hs"
  have s: "idle d s" "lh_n (log s) = of_nat (length hs)" "length hs \<le> LOGSIZE" "?start \<notin> set hs"
    using r by (auto simp: txn_ready_def d Let_def log_area_def)
  obtain t u where u: "seqp write_log write_head s = Ret () t" "install_trans False t = Ret () u" "cache_ok d u"
      "log u = log s" "cache_abs d u = (writtens ?w ?A)\<lparr>crefs := (\<lambda>_. 0)\<rparr>"
    using commit_install [OF r d] by blast
  let ?u = "u\<lparr>log := (log s)\<lparr>lh_n := 0\<rparr>\<rparr>"
  have "idle d ?u" using idle_refs(1) [OF s(1), of ?u] s(1) u(3) by (simp add: u(5) writtens_def idle_def)
  moreover have "cview (cache_abs d u) ?start = ?H"
    using s(4) by (simp add: u(5) writtens_def apply_writes_append apply_writes_homes)
  moreover have "crefs (cache_abs d u) ?start = 0" by (simp add: u(5))
  ultimately obtain v where v: "write_head ?u = Ret () v" "cache_ok d v" "cache_frame ?u v"
      "cache_abs d v = written (cache_abs d u) ?start (put_head [] ?H)"
    using write_head_run [of d ?u ?start "[]"] d by auto
  have "commit s = Ret () v"
    using u v(1) s(2,3) ne unfolding seqp_apply
    by (auto simp: commit_def prog_simps sint_of_nat_log split: outcome.splits)
  moreover have "cache_abs d v = (writtens (commit_writes hs s) ?A)\<lparr>crefs := (\<lambda>_. 0)\<rparr>"
    unfolding v(4) u(5) commit_writes_def Let_def txn_writes_def d [symmetric]
    by (simp add: written_def writtens_def apply_writes_append)
  ultimately show ?thesis using v(2) cache_frame_log [OF v(3)] by auto
qed

section \<open>Recovery\<close>

definition good_head :: "u32 list \<Rightarrow> u8 list \<Rightarrow> bool" where
  "good_head hs d \<longleftrightarrow> get_head d = hs \<and> get32 d 0 = of_nat (length hs) \<and> length hs \<le> LOGSIZE"

lemma put_head_good: "length hs \<le> LOGSIZE \<Longrightarrow> length d = BSIZE \<Longrightarrow> good_head hs (put_head hs d)"
  using head.dec_enc [of hs d] put32_fold [of "length hs" "put32 d 0 (of_nat (length hs))" hs]
  by (simp add: good_head_def put_head_def put_get BSIZE_def LOGSIZE_def length_put)

lemma set_block_loop:
  assumes "n \<le> length (lh_block (log s))"
  shows "block (map (\<lambda>i. set_block i (f i)) [0..<n]) s =
    Ret () (s\<lparr>log := (log s)\<lparr>lh_block := map f [0..<n] @ drop n (lh_block (log s))\<rparr>\<rparr>)"
  using assms
proof (induction n)
  case 0
  then show ?case by simp
next
  case (Suc n)
  let ?l = "lh_block (log s)"
  have "drop n ?l = ?l ! n # drop (Suc n) ?l" using Suc.prems by (simp add: Cons_nth_drop_Suc)
  then have "(map f [0..<n] @ drop n ?l)[n := f n] = map f [0..<Suc n] @ drop (Suc n) ?l"
    by (simp add: list_update_append)
  then show ?case using Suc by (simp add: block_snoc seqp_apply set_block_def prog_simps)
qed

lemma cdisk_abs [simp]: "cdisk (cache_abs d s) = disk s"
  by (simp add: cache_abs_def)

text \<open>A machine that has booted: the cache is empty and shows the disk.\<close>

definition booted :: "'z log_state_scheme \<Rightarrow> bool" where
  "booted s \<longleftrightarrow> (let d = ldev (log s) in cache_ok d s \<and> clocked (cache_abs d s) = {} \<and>
     crefs (cache_abs d s) = (\<lambda>_. 0)) \<and> length (lh_block (log s)) = LOGSIZE"

lemma booted_facts:
  assumes "booted s" and "d = ldev (log s)"
  shows "idle d s" "cview (cache_abs d s) = cdisk (cache_abs d s)" "crefs (cache_abs d s) = (\<lambda>_. 0)"
proof -
  show c: "crefs (cache_abs d s) = (\<lambda>_. 0)" using assms by (simp add: booted_def Let_def)
  then show "idle d s" using assms by (simp add: booted_def Let_def idle_def NBUF_def)
  show "cview (cache_abs d s) = cdisk (cache_abs d s)"
    using assms c cache_clean [of d s] by (auto simp: booted_def Let_def fun_eq_iff)
qed

lemma read_head_run:
  assumes b: "booted s" and d: "d = ldev (log s)" and h: "good_head hs (disk s (lstart (log s)))"
  shows "\<exists>t. read_head s = Ret () t \<and> cache_ok d t \<and> cache_abs d t = cache_abs d s \<and>
    log t = (log s)\<lparr>lh_n := of_nat (length hs), lh_block := hs @ drop (length hs) (lh_block (log s))\<rparr>"
proof -
  let ?A = "cache_abs d s" and ?start = "lstart (log s)"
  note bf = booted_facts [OF b d]
  obtain i s1 where s1: "bread d ?start s = Ret i s1" "cache_ok d s1" "cache_frame s s1" "holds_buf d s1 i ?start"
      "cache_abs d s1 = ?A\<lparr>crefs := (crefs ?A)(?start := Suc (crefs ?A ?start)), clocked := insert ?start (clocked ?A)\<rparr>"
    using bread_contract [of d s ?start] bf by (auto simp: idle_def)
  have l: "log s1 = log s" using cache_frame_log [OF s1(3)] .
  have data: "bdata (bcache s1 (Buf i)) = disk s ?start"
    using holds_buf_facts(4) [OF s1(2,4)] by (simp add: s1(5) bf(2))
  let ?l = "(log s)\<lparr>lh_n := of_nat (length hs), lh_block := hs @ drop (length hs) (lh_block (log s))\<rparr>"
  let ?s2 = "s1\<lparr>log := ?l\<rparr>"
  have n: "count (get32 (disk s ?start) 0) = length hs" "get32 (disk s ?start) 0 = of_nat (length hs)"
      "map (\<lambda>i. get32 (disk s ?start) (4 + 4 * i)) [0..<length hs] = hs"
    using h by (auto simp: good_head_def get_head_def count_of_nat)
  have "length hs \<le> length (lh_block (log s))" using b h by (simp add: booted_def good_head_def)
  then have loop: "block (map (\<lambda>i. set_block i (get32 (disk s ?start) (4 + 4 * i))) [0..<length hs])
      (s1\<lparr>log := (log s)\<lparr>lh_n := of_nat (length hs)\<rparr>\<rparr>) = Ret () ?s2"
    by (subst set_block_loop) (simp_all add: n(3))
  have "holds_buf d ?s2 i ?start" using s1(4) by (simp add: holds_buf_def)
  moreover have "1 < crefs (cache_abs d ?s2) ?start \<or> cview (cache_abs d ?s2) ?start = cdisk (cache_abs d ?s2) ?start"
    using bf(2) by (simp add: s1(5))
  ultimately obtain t where t: "brelse i ?s2 = Ret () t" "cache_ok d t" "cache_frame ?s2 t"
      "cache_abs d t = (cache_abs d ?s2)\<lparr>crefs := (crefs (cache_abs d ?s2))(?start := crefs (cache_abs d ?s2) ?start - 1),
        clocked := clocked (cache_abs d ?s2) - {?start}\<rparr>"
    using brelse_contract [of d ?s2 i ?start] s1(2) by auto
  have "read_head s = Ret () t"
    using s1(1) l data loop t(1) d n by (simp add: read_head_def prog_simps)
  moreover have "clocked ?A = {}" using bf(1) by (simp add: idle_def)
  then have "cache_abs d t = ?A" using bf(3) by (simp add: t(4) s1(5) fun_eq_iff)
  ultimately show ?thesis using t(2) cache_frame_log [OF t(3)] by auto
qed

lemma recover_run:
  assumes b: "booted s" and d: "d = ldev (log s)" and h: "good_head hs (disk s (lstart (log s)))"
    and apart: "set hs \<inter> log_area (lstart (log s)) (length hs) = {}"
  shows "\<exists>t x. recover_from_log s = Ret () t \<and> cache_ok d t \<and> lh_n (log t) = 0 \<and>
    disk t = (redo (lstart (log s)) hs (disk s))(lstart (log s) := put_head [] x)"
proof -
  let ?A = "cache_abs d s" and ?start = "lstart (log s)"
  note bf = booted_facts [OF b d]
  obtain t where t: "read_head s = Ret () t" "cache_ok d t" "cache_abs d t = ?A"
      "log t = (log s)\<lparr>lh_n := of_nat (length hs), lh_block := hs @ drop (length hs) (lh_block (log s))\<rparr>"
    using read_head_run [OF b d h] by blast
  have it: "idle d t" using bf t by (simp add: idle_def)
  let ?w = "map (\<lambda>k. (hs ! k, disk s (log_slot ?start k))) [0..<length hs]"
  obtain u where u: "block (map (install_one True) [0..<length hs]) t = Ret () u" "cache_ok d u" "cache_frame t u"
      "cache_abs d u = (writtens ?w ?A)\<lparr>crefs := (\<lambda>b. crefs ?A b)\<rparr>"
    using install_loop [OF it, of hs True "length hs"] t(3,4) d apart bf by (auto simp: NBUF_def)
  let ?u = "u\<lparr>log := (log u)\<lparr>lh_n := 0\<rparr>\<rparr>"
  have lu: "log u = log t" using cache_frame_log [OF u(3)] .
  have "idle d ?u" using idle_refs(1) [OF it, of ?u] u(2) it by (simp add: u(4) t(3) writtens_def idle_def)
  moreover have "crefs (cache_abs d u) ?start = 0" using bf(3) by (simp add: u(4))
  ultimately obtain v x where v: "write_head ?u = Ret () v" "cache_ok d v" "cache_frame ?u v"
      "cache_abs d v = written (cache_abs d u) ?start (put_head [] x)"
    using write_head_run [of d ?u ?start "[]"] d lu t(4) by auto
  have "recover_from_log s = Ret () v"
    using t(1,4) u(1) v(1) lu h
    by (simp add: recover_from_log_def prog_simps install_trans_def count_of_nat good_head_def)
  moreover have "disk v = (redo ?start hs (disk s))(?start := put_head [] x)"
    using arg_cong [OF v(4), of cdisk] by (simp add: u(4) written_def writtens_def redo_def)
  ultimately show ?thesis using v(2) cache_frame_log [OF v(3)] by auto
qed

lemma cache_view_length:
  assumes "cache_ok d s"
  shows "length (cview (cache_abs d s) b) = BSIZE"
proof (cases "cached d (bcache s) b")
  case None
  then show ?thesis using assms by (simp add: cache_abs_def cache_ok_def)
next
  case (Some i)
  then have "i < NBUF" using assms by (simp add: cached_Some cache_ok_def buf_for_def)
  then show ?thesis using assms Some by (simp add: cache_abs_def cache_ok_def buf_ok_def Let_def)
qed

section \<open>Crash safety\<close>

lemma apply_writes_cases: "apply_writes ws m b = m b \<or> (b, apply_writes ws m b) \<in> set ws"
  by (induction ws rule: rev_induct) (auto simp: apply_writes_append split: if_splits)

lemma crash_header:
  assumes "good_head [] (D start)" and "good_head hs H" and "good_head [] H0"
    and "set hs \<inter> log_area start (length hs) = {}"
  shows "\<exists>g. (g = [] \<or> g = hs) \<and> good_head g (apply_writes (take k (txn_writes start hs V H H0)) D start)"
proof -
  have "start \<notin> set hs" using assms(4) by (auto simp: log_area_def)
  moreover have "start \<noteq> log_slot start t" if "t < length hs" for t
    using that assms(2) slot_not_start [of t start] by (auto simp: good_head_def LOGSIZE_def)
  ultimately have "v = H \<or> v = H0" if "(start, v) \<in> set (take k (txn_writes start hs V H H0))" for v
    using set_take_subset [THEN subsetD, OF that] by (auto simp: txn_writes_def)
  then show ?thesis
    using apply_writes_cases [of "take k (txn_writes start hs V H H0)" D start] assms(1-3) by metis
qed

text \<open>
  C1: transactions are atomic with respect to crashes. Let the log on the disk be empty and let \<open>commit\<close>
  run for a transaction of the blocks \<open>hs\<close>. The call returns, and it makes a certain sequence of block
  writes. Let the machine crash after any number \<open>k\<close> of these writes, and boot from the disk as it is
  then. Then recovery returns as well, and outside the log the disk has either exactly its contents from
  before the transaction, or exactly those with all the blocks of the transaction. In the end, without
  a crash, all of them are there.
\<close>

theorem commit_crash_atomic:
  assumes r: "txn_ready hs s" and ne: "hs \<noteq> []"
    and empty: "good_head [] (disk s (lstart (log s)))"
    and boot: "booted b" "lstart (log b) = lstart (log s)"
    and crash: "disk b = apply_writes (take k (commit_writes hs s)) (disk s)"
  shows "\<exists>t u. commit s = Ret () t \<and> disk_writes t = disk_writes s @ commit_writes hs s \<and>
    disk t = apply_writes (commit_writes hs s) (disk s) \<and>
    recover_from_log b = Ret () u \<and>
    ((\<forall>x. x \<notin> log_area (lstart (log s)) (length hs) \<longrightarrow> disk u x = disk s x) \<or>
     (\<forall>x. x \<notin> log_area (lstart (log s)) (length hs) \<longrightarrow>
        disk u x = (if x \<in> set hs then cview (cache_abs (ldev (log s)) s) x else disk s x)))"
proof -
  define start where "start = lstart (log s)"
  define d where "d = ldev (log s)"
  define H where "H = put_head hs (cview (cache_abs d s) start)"
  let ?V = "cview (cache_abs d s)" and ?H0 = "put_head [] H"
  have W: "commit_writes hs s = txn_writes start hs ?V H ?H0"
    by (simp add: commit_writes_def Let_def H_def start_def d_def)
  have s: "length hs \<le> LOGSIZE" "set hs \<inter> log_area start (length hs) = {}" "idle d s"
    using r by (simp_all add: txn_ready_def Let_def start_def d_def)
  obtain t where t: "commit s = Ret () t"
      "cache_abs d t = (writtens (commit_writes hs s) (cache_abs d s))\<lparr>crefs := (\<lambda>_. 0)\<rparr>"
    using commit_run [OF r ne d_def] by blast
  have dt: "disk t = apply_writes (commit_writes hs s) (disk s)" "disk_writes t = disk_writes s @ commit_writes hs s"
    using arg_cong [OF t(2), of cdisk] arg_cong [OF t(2), of cwrites]
    by (simp_all add: writtens_def) (simp add: cache_abs_def)
  have len: "length (?V start) = BSIZE" using s(3) cache_view_length by (auto simp: idle_def)
  have gH: "good_head hs H" "good_head [] ?H0"
    using put_head_good [OF s(1) len] head.enc_length [OF s(1) len] put_head_good [of "[]" H]
    by (simp_all add: H_def)
  obtain g where g: "g = [] \<or> g = hs" "good_head g (disk b start)"
    using crash_header [of "disk s" start hs H ?H0 k ?V] empty gH s crash
    unfolding W start_def [symmetric] by auto
  have ga: "set g \<inter> log_area start (length g) = {}" using g(1) s(2) by auto
  obtain u x where u: "recover_from_log b = Ret () u" "disk u = (redo start g (disk b))(start := put_head [] x)"
    using recover_run [OF boot(1) refl, of g] g(2) ga boot(2) by (auto simp: start_def)
  have gd: "g = get_head (disk b start)" using g(2) by (simp add: good_head_def)
  have n: "length hs < 2 ^ 32 - 1" using s(1) by (simp add: LOGSIZE_def)
  have "(\<forall>x. x \<notin> log_area start (length hs) \<longrightarrow> redo start g (disk b) x = disk s x) \<or>
     (\<forall>x. x \<notin> log_area start (length hs) \<longrightarrow> redo start g (disk b) x = (if x \<in> set hs then ?V x else disk s x))"
    unfolding gd
    by (rule head.redo_atomic [OF _ n s(2), where H = H and ?H0.0 = ?H0 and k = k])
      (use empty gH crash in \<open>simp_all add: W good_head_def start_def\<close>)
  moreover have "disk u x = redo start g (disk b) x" if "x \<notin> log_area start (length hs)" for x
    using that by (auto simp: u(2) log_area_def)
  ultimately show ?thesis using t(1) dt u(1) by (auto simp: start_def d_def)
qed

text \<open>A transaction of one block, and a crash when its log entry and the header are on the disk.\<close>

definition txn_example :: log_state where
  "txn_example = (set_buf 0 ((bcache log_example (Buf 0))\<lparr>bvalid := 1, bdev := 1, bblockno := 100, brefcnt := 1,
       bdata := replicate BSIZE 7\<rparr>) \<lparr>slocked = 0, slpid = 0\<rparr> log_example)
     \<lparr>log := (log log_example)\<lparr>lh_n := 1, lh_block := 100 # replicate 29 0\<rparr>\<rparr>"

definition crash_example :: log_state where
  "crash_example = log_example\<lparr>disk := apply_writes (take 2 (commit_writes [100] txn_example)) (disk txn_example)\<rparr>"

lemma log_example_fields:
  "bcache log_example = buf_example" "slocks log_example = (\<lambda>_. \<lparr>slocked = 0, slpid = 0\<rparr>)"
  "disk log_example = (\<lambda>_. replicate BSIZE 0)" "held log_example = {}" "curproc log_example = Some 0"
  "log log_example = \<lparr>lstart = 2, lsize = 30, loutstanding = 0, lcommitting = 0, ldev = 1, lh_n = 0,
        lh_block = replicate LOGSIZE 0\<rparr>"
  by (simp_all add: log_example_defs)

lemma log_area_example: "log_area 2 1 = {2, 3}"
  by (auto simp: log_area_def log_slot_def)

lemma txn_example_ok:
  "txn_ready [100] txn_example" "cview (cache_abs 1 txn_example) 100 = replicate BSIZE 7"
  "disk txn_example = (\<lambda>_. replicate BSIZE 0)" "cview (cache_abs 1 txn_example) 2 = replicate BSIZE 0"
proof -
  note ex = example_cache [OF log_example_fields(1-5)]
  let ?r = "(bcache log_example (Buf 0))\<lparr>bvalid := 1, bdev := 1, bblockno := 100, brefcnt := 1,
       bdata := replicate BSIZE 7\<rparr>"
  have c: "can_hold 1 log_example 100 0" using ex(4,6) by (simp add: can_hold_def NBUF_def)
  have n: "new_buf 1 100 (disk log_example 100) (bcache log_example (Buf 0)) ?r \<lparr>slocked = 0, slpid = 0\<rparr>"
    by (simp add: new_buf_def)
  note ok = set_buf_ok [OF ex(1) c n] and abs = set_buf_abs [OF ex(1) c n]
  have refs: "crefs (cache_abs 1 txn_example) = (\<lambda>b. if b = 100 then 1 else 0)"
    by (auto simp: txn_example_def abs ex fun_eq_iff)
  have "idle 1 txn_example"
    using ok by (simp add: idle_def refs) (simp add: txn_example_def abs ex NBUF_def)
  then show "txn_ready [100] txn_example"
    using refs by (simp add: txn_ready_def txn_example_def log_example_fields(6) LOGSIZE_def log_area_example
        [simplified])
  show "cview (cache_abs 1 txn_example) 100 = replicate BSIZE 7" "cview (cache_abs 1 txn_example) 2 = replicate BSIZE 0"
    by (simp_all add: txn_example_def abs ex)
  show "disk txn_example = (\<lambda>_. replicate BSIZE 0)"
    by (simp add: txn_example_def set_buf_def log_example_fields)
qed

lemma zero_head: "good_head [] (replicate BSIZE 0)"
  by (simp add: good_head_def get_head_def get32_def BSIZE_def count_def min_def)

lemma crash_example_booted: "booted crash_example"
proof -
  note ex = example_cache [OF log_example_fields(1-5)]
  have l: "ldev (log txn_example) = 1" "lstart (log txn_example) = 2"
    by (simp_all add: txn_example_def log_example_fields)
  have "length (put_head [100] (replicate BSIZE 0)) = BSIZE"
    by (rule head.enc_length) (simp_all add: LOGSIZE_def)
  then have len: "length (disk crash_example b) = BSIZE" for b
    by (simp add: crash_example_def commit_writes_def txn_writes_def l txn_example_ok Let_def)
  have c: "bcache crash_example = buf_example" "slocks crash_example = slocks log_example"
      "held crash_example = {}" "curproc crash_example = Some 0" "log crash_example = log log_example"
    by (simp_all add: crash_example_def log_example_fields)
  have n: "cached 1 (bcache crash_example) b = None" for b using ex(4) by (simp add: c log_example_fields)
  have "cache_ok 1 crash_example"
    using ex(1) len by (auto simp: cache_ok_def c log_example_fields buf_ok_def buf_example_def)
  then show ?thesis
    by (simp add: booted_def c log_example_fields) (simp add: cache_abs_def n)
qed

theorem commit_crash_atomic_witness:
  "\<exists>t u. commit txn_example = Ret () t \<and> recover_from_log crash_example = Ret () u \<and>
     (disk u 100 = replicate BSIZE 0 \<or> disk u 100 = replicate BSIZE 7)"
proof -
  have l: "ldev (log txn_example) = 1" "lstart (log txn_example) = 2" "lstart (log crash_example) = 2"
    by (simp_all add: txn_example_def crash_example_def log_example_fields)
  have dk: "disk crash_example = apply_writes (take 2 (commit_writes [100] txn_example)) (disk txn_example)"
    by (simp add: crash_example_def)
  have "(100 :: u32) \<notin> log_area 2 1" unfolding log_area_example by simp
  then show ?thesis
    using commit_crash_atomic [OF txn_example_ok(1) _ _ crash_example_booted _ dk] zero_head
    by (fastforce simp: l txn_example_ok)
qed

end
