(* ===== verification/Txn.thy ===== *)
theory Txn
  imports Crash
begin

text \<open>
  The reservation of log space. Every file system call runs as an operation between \<open>begin_op\<close> and
  \<open>end_op\<close>, and \<open>begin_op\<close> admits it only if the log has room for \<open>MAXOPBLOCKS\<close> blocks for each operation
  that runs. The theory follows the log through any interleaving of operations.
\<close>

section \<open>What leaves the log alone\<close>

definition klog :: "log \<Rightarrow> ('z log_state_scheme, 'a) prog \<Rightarrow> bool" where
  "klog l m \<longleftrightarrow> keeps (\<lambda>s. log s = l) m"

lemma klog_intros:
  "klog l m \<Longrightarrow> (\<And>a. klog l (f a)) \<Longrightarrow> klog l (bindp m f)"
  "klog l p \<Longrightarrow> klog l n \<Longrightarrow> klog l (seqp p n)"
  "klog l p \<Longrightarrow> klog l (whenp b p)"
  "klog l (gets g)" "klog l (ret x)" "klog l (panic msg)"
  "(b \<Longrightarrow> klog l k) \<Longrightarrow> (\<not> b \<Longrightarrow> klog l k') \<Longrightarrow> klog l (if b then k else k')"
  unfolding klog_def by (simp_all add: keeps_intros)

lemma klog_block: "(\<And>m. m \<in> set ms \<Longrightarrow> klog l m) \<Longrightarrow> klog l (block ms)"
  by (induction ms) (auto intro!: klog_intros)

lemma klog_option: "klog l m \<Longrightarrow> (\<And>a. klog l (f a)) \<Longrightarrow> klog l (case x of None \<Rightarrow> m | Some a \<Rightarrow> f a)"
  by (cases x) auto

lemma klog_prims:
  "klog l (lock_acquire k)" "klog l (lock_release k)" "klog l (getb b f)" "klog l (setb b g)" "klog l (setsl m h)"
  "klog l (getp i q)" "klog l (setp i u)" "klog l myproc" "klog l (getl v)" "klog l (set_data j w)"
  "klog l (get_block n)"
  by (auto simp: klog_def keeps_def lock_acquire_Ret lock_release_Ret set_data_def get_block_def bindp_eq_Ret
      undefined_behaviour_def split: if_splits)

lemma klog_with_proc: "(\<And>i. klog l (f i)) \<Longrightarrow> klog l (with_proc f)"
  unfolding with_proc_def by (intro klog_intros klog_prims klog_option)

lemma klog_sched: "klog l sched"
  by (auto simp: klog_def keeps_def sched_def with_proc_def bindp_eq_Ret split: option.splits if_splits)

lemma klog_sleep: "klog l (sleep ch k)"
  unfolding sleep_def by (auto intro!: klog_intros klog_prims klog_with_proc klog_sched)

lemma klog_wakeup: "klog l (wakeup ch)"
  unfolding wakeup_def wakeup_slot_def by (auto intro!: klog_intros klog_prims klog_block)

lemmas klog_rules = klog_intros klog_prims klog_with_proc klog_sleep klog_wakeup klog_option

lemma klog_sleeplock: "klog l (acquiresleep k)" "klog l (releasesleep k)" "klog l (holdingsleep k)"
  by (auto simp: acquiresleep_def acquiresleep_loop_def releasesleep_def holdingsleep_def intro!: klog_rules)

lemma klog_scans: "klog l (scan_cached n dev bno b)" "klog l (scan_free n b)"
proof -
  have diverge: "klog l (\<lambda>s. Diverge)" "klog l (Ret x)" for x :: "nat option"
    by (simp_all add: klog_def keeps_def)
  show "klog l (scan_cached n dev bno b)"
    by (induction n dev bno b rule: scan_cached.induct) (auto intro!: klog_rules diverge)
  show "klog l (scan_free n b)"
    by (induction n b rule: scan_free.induct) (auto intro!: klog_rules diverge)
qed

lemma klog_disk_rw: "klog l (disk_rw i w)"
  by (auto simp: disk_rw_def klog_def keeps_def bindp_eq_Ret seqp_eq_Ret)

lemma klog_bio: "klog l (bread dev bno)" "klog l (bwrite i)" "klog l (brelse i)" "klog l (bpin i)" "klog l (bunpin i)"
  by (auto simp: bread_def bget_def bwrite_def brelse_def bpin_def bunpin_def set_next_prev_def set_prev_next_def
      intro!: klog_rules klog_sleeplock klog_scans klog_disk_rw)

lemma klog_commit_parts: "klog l write_log" "klog l write_head" "klog l (install_trans r)"
  by (auto simp: write_log_def write_log_one_def write_head_def install_trans_def install_one_def
      intro!: klog_rules klog_bio klog_block)

lemma commit_log:
  assumes "commit s = Ret x t"
  shows "log t = (if sint (lh_n (log s)) > 0 then (log s)\<lparr>lh_n := 0\<rparr> else log s)"
proof (cases "sint (lh_n (log s)) > 0")
  case True
  then obtain s1 s2 s3 where s: "write_log s = Ret () s1" "write_head s1 = Ret () s2" "install_trans False s2 = Ret () s3"
      "write_head (s3\<lparr>log := (log s3)\<lparr>lh_n := 0\<rparr>\<rparr>) = Ret () t"
    using assms by (auto simp: commit_def run_eq_Ret)
  have "log s1 = log s" "log s2 = log s1" "log s3 = log s2"
      "log t = log (s3\<lparr>log := (log s3)\<lparr>lh_n := 0\<rparr>\<rparr>)"
    using klog_commit_parts s unfolding klog_def keeps_def by metis+
  then show ?thesis using True by simp
next
  case False
  then show ?thesis using assms by (simp add: commit_def run_eq_Ret)
qed


section \<open>Operations in any order\<close>

text \<open>
  The states of the log under any interleaving of operations: for each operation that runs, the list has how
  many \<open>log_write\<close> calls it has left of its \<open>MAXOPBLOCKS\<close>. Anything that leaves the log alone may happen between.
\<close>

inductive log_run :: "log_state \<Rightarrow> nat list \<Rightarrow> bool" where
  start: "lcommitting (log s) = 0 \<Longrightarrow> loutstanding (log s) = 0 \<Longrightarrow> lh_n (log s) = 0 \<Longrightarrow>
    length (lh_block (log s)) = LOGSIZE \<Longrightarrow> log_run s []"
| begin_op: "log_run s bs \<Longrightarrow> begin_op s = Ret () t \<Longrightarrow> log_run t (MAXOPBLOCKS # bs)"
| resume: "log_run s bs \<Longrightarrow> begin_op_resume s = Ret () t \<Longrightarrow> log_run t (MAXOPBLOCKS # bs)"
| log_write: "log_run s bs \<Longrightarrow> i < length bs \<Longrightarrow> bs ! i = Suc k \<Longrightarrow> log_write b s = Ret () t \<Longrightarrow>
    log_run t (bs[i := k])"
| end_op: "log_run s bs \<Longrightarrow> i < length bs \<Longrightarrow> end_op s = Ret () t \<Longrightarrow> log_run t (take i bs @ drop (Suc i) bs)"
| other: "log_run s bs \<Longrightarrow> log t = log s \<Longrightarrow> log_run t bs"

definition log_inv :: "log \<Rightarrow> nat list \<Rightarrow> bool" where
  "log_inv l bs \<longleftrightarrow> (\<exists>n. lcommitting l = 0 \<and> loutstanding l = of_nat (length bs) \<and> lh_n l = of_nat n \<and>
     n + sum_list bs \<le> LOGSIZE \<and> (\<forall>k\<in>set bs. k \<le> MAXOPBLOCKS) \<and> length bs * MAXOPBLOCKS \<le> LOGSIZE \<and> length (lh_block l) = LOGSIZE)"


fun absorb_at :: "nat \<Rightarrow> nat \<Rightarrow> u32 \<Rightarrow> u32 list \<Rightarrow> nat" where
  "absorb_at 0 i b xs = i"
| "absorb_at (Suc k) i b xs = (if xs ! i = b then i else absorb_at k (Suc i) b xs)"

lemma absorb_apply:
  "i + k \<le> length (lh_block (log s)) \<Longrightarrow> absorb k i b s = Ret (absorb_at k i b (lh_block (log s))) s"
  by (induction k arbitrary: i) (simp_all add: bindp_apply get_block_apply)

lemma absorb_at_le: "absorb_at k i b xs \<le> i + k"
  by (induction k arbitrary: i) (auto, metis add_Suc)

lemma absorb_at_new: "(\<forall>j<k. xs ! (i + j) \<noteq> b) \<Longrightarrow> absorb_at k i b xs = i + k"
proof (induction k arbitrary: i)
  case (Suc k)
  have "xs ! i \<noteq> b" using Suc.prems by (metis add.right_neutral zero_less_Suc)
  moreover have "\<forall>j<k. xs ! (Suc i + j) \<noteq> b" using Suc.prems by (metis Suc_mono add_Suc add_Suc_right)
  ultimately show ?case using Suc.IH [of "Suc i"] by simp
qed simp

text \<open>An operation that has blocks left has room in the log.\<close>

lemma budget_room:
  fixes n :: nat
  assumes "n + sum_list bs \<le> m" "i < length bs" "bs ! i = Suc k"
  shows "n < m" "n + sum_list (bs[i := k]) < m" "0 < length bs"
proof -
  have "sum_list bs = Suc (sum_list (bs[i := k]))" using assms(2,3) elem_le_sum_list [of i bs] by (simp add: sum_list_update)
  then show "n < m" "n + sum_list (bs[i := k]) < m" "0 < length bs" using assms by auto
qed

lemma log_invE:
  assumes "log_inv l bs"
  obtains n where "lcommitting l = 0" "loutstanding l = of_nat (length bs)" "lh_n l = of_nat n"
      "n + sum_list bs \<le> LOGSIZE" "\<forall>k\<in>set bs. k \<le> MAXOPBLOCKS" "length bs * MAXOPBLOCKS \<le> LOGSIZE"
      "length (lh_block l) = LOGSIZE" "sint (loutstanding l) = int (length bs)" "sint (lh_n l) = int n"
proof -
  obtain n where "lcommitting l = 0" "loutstanding l = of_nat (length bs)" "lh_n l = of_nat n"
      "n + sum_list bs \<le> LOGSIZE" "\<forall>k\<in>set bs. k \<le> MAXOPBLOCKS" "length bs * MAXOPBLOCKS \<le> LOGSIZE"
      "length (lh_block l) = LOGSIZE"
    using assms by (auto simp: log_inv_def)
  moreover from this have "length bs \<le> LOGSIZE" "n \<le> LOGSIZE" by (simp_all add: MAXOPBLOCKS_def LOGSIZE_def)
  ultimately show thesis using that by (simp add: sint_of_nat_log)
qed

lemma begin_loop_inv:
  assumes inv: "log_inv (log s) bs" and run: "begin_op_loop s = Ret () t"
  shows "log_inv (log t) (MAXOPBLOCKS # bs)"
proof -
  obtain n where n: "lcommitting (log s) = 0" "loutstanding (log s) = of_nat (length bs)" "lh_n (log s) = of_nat n"
      "n + sum_list bs \<le> LOGSIZE" "\<forall>k\<in>set bs. k \<le> MAXOPBLOCKS" "length (lh_block (log s)) = LOGSIZE"
      "sint (loutstanding (log s)) = int (length bs)" "sint (lh_n (log s)) = int n"
    using inv by (auto elim!: log_invE)
  have t: "log t = (log s)\<lparr>loutstanding := loutstanding (log s) + 1\<rparr>"
      and room: "\<not> int n + (int (length bs) + 1) * int MAXOPBLOCKS > int LOGSIZE"
    using run n(1,7,8)
    by (auto simp: begin_op_loop_def bindp_apply sleep_no_Ret run_eq_Ret lock_release_Ret split: if_splits)
  have "sum_list bs \<le> length bs * MAXOPBLOCKS" using n(5) by (induction bs) auto
  moreover have "n + Suc (length bs) * MAXOPBLOCKS \<le> LOGSIZE" using room 
    by (simp add: algebra_simps del: of_nat_add of_nat_mult flip: of_nat_add of_nat_mult)
  ultimately show ?thesis using t n by (auto simp: log_inv_def intro!: exI [of _ n])
qed

lemma klog_sleep_resume: "klog l (sleep_resume k)"
  unfolding sleep_resume_def by (auto intro!: klog_rules klog_block)

lemma begin_op_inv:
  assumes inv: "log_inv (log s) bs" and run: "begin_op s = Ret () t \<or> begin_op_resume s = Ret () t"
  shows "log_inv (log t) (MAXOPBLOCKS # bs)"
proof -
  obtain u where "lock_acquire LLog s = Ret () u \<or> sleep_resume LLog s = Ret () u" "begin_op_loop u = Ret () t"
    using run by (auto simp: begin_op_def begin_op_resume_def seqp_eq_Ret)
  moreover from this have "log u = log s"
    using klog_prims(1) klog_sleep_resume unfolding klog_def keeps_def by metis
  ultimately show ?thesis using begin_loop_inv inv by metis
qed

lemma log_write_run:
  assumes n: "lh_n (log s) = of_nat n" "n < LOGSIZE" "length (lh_block (log s)) = LOGSIZE"
    and out: "sint (loutstanding (log s)) \<ge> 1" and lock: "LLog \<notin> held s" "LBcache \<notin> held s"
    and j: "j = absorb_at n 0 b (lh_block (log s))" and b: "b = bblockno (bcache s (Buf i))"
  shows "log_write i s =
    (if int n < sint (lsize (log s)) - 1 
     then Ret () (s\<lparr>log := (log s)\<lparr>lh_block := (lh_block (log s))[j := b], lh_n := of_nat (if j = n then Suc n else n)\<rparr>,
       bcache := if j = n then (bcache s)(Buf i := (bcache s (Buf i))\<lparr>brefcnt := brefcnt (bcache s (Buf i)) + 1\<rparr>) else bcache s\<rparr>)
     else Panic ''too big a transaction'')"
proof -
  let ?s = "s\<lparr>held := insert LLog (held s)\<rparr>"
  have c: "sint (lh_n (log s)) = int n" "count (lh_n (log s)) = n" using n by (simp_all add: sint_of_nat_log count_of_nat)
  have a: "absorb n 0 b ?s = Ret j ?s" "j \<le> n" using absorb_apply [of 0 n ?s b] absorb_at_le [of n 0] n j by auto
  have "j < LOGSIZE" using a n by simp
  then show ?thesis using c n out lock a
    by (auto simp: log_write_def prog_simps seqp_apply bindp_apply b set_block_def bpin_def)
qed

lemma log_write_inv:
  assumes inv: "log_inv (log s) bs" and i: "i < length bs" "bs ! i = Suc k" and run: "log_write b s = Ret () t"
  shows "log_inv (log t) (bs[i := k])"
proof -
  obtain n where n: "lcommitting (log s) = 0" "loutstanding (log s) = of_nat (length bs)" "lh_n (log s) = of_nat n"
      "n + sum_list bs \<le> LOGSIZE" "\<forall>k\<in>set bs. k \<le> MAXOPBLOCKS" "length bs * MAXOPBLOCKS \<le> LOGSIZE"
      "length (lh_block (log s)) = LOGSIZE" "sint (loutstanding (log s)) = int (length bs)" "sint (lh_n (log s)) = int n"
    using inv by (auto elim!: log_invE)
  note room = budget_room [OF n(4) i]
  let ?s = "s\<lparr>held := insert LLog (held s)\<rparr>" and ?b = "bblockno (bcache s (Buf b))"
  define j where "j = absorb_at n 0 ?b (lh_block (log s))"
  have a: "absorb n 0 ?b ?s = Ret j ?s" using absorb_apply [of 0 n ?s ?b] n room(1) by (simp add: j_def)
  have j: "j < length (lh_block (log s))" 
    using absorb_at_le [of n 0 ?b "lh_block (log s)"] room(1) n(7) by (simp add: j_def)
  have "LLog \<notin> held s" using run by (auto simp: log_write_def seqp_eq_Ret lock_acquire_Ret)
  then have "block [set_block j ?b, whenp (j = n) (block [bpin b, setl (\<lambda>l. l\<lparr>lh_n := lh_n l + 1\<rparr>)]),
      lock_release LLog] ?s = Ret () t"
    using run a n(9) n(3) room(1) by (simp add: log_write_def seqp_apply bindp_apply count_of_nat split: if_splits)
  then have "log t = (log s)\<lparr>lh_block := (lh_block (log s))[j := ?b], lh_n := of_nat (if j = n then Suc n else n)\<rparr>"
    using j n(3) by (cases "j = n") (auto simp: set_block_def bpin_def run_eq_Ret lock_acquire_Ret lock_release_Ret)
  moreover have "\<forall>m\<in>set (bs[i := k]). m \<le> MAXOPBLOCKS"
    using n(5) i by (metis Suc_leD insertE nth_mem set_update_subset_insert subsetD)
  ultimately show ?thesis using n room
    by (auto simp: log_inv_def intro!: exI [of _ "if j = n then Suc n else n"])
qed

lemma removed_entry:
  fixes bs :: "nat list"
  assumes "i < length bs"
  shows "set (take i bs @ drop (Suc i) bs) \<subseteq> set bs" "sum_list (take i bs @ drop (Suc i) bs) \<le> sum_list bs"
    "Suc (length (take i bs @ drop (Suc i) bs)) = length bs"
proof -
  have "bs = take i bs @ bs ! i # drop (Suc i) bs" using assms by (simp add: id_take_nth_drop)
  then have "sum_list bs = sum_list (take i bs @ bs ! i # drop (Suc i) bs)" by simp
  then show "sum_list (take i bs @ drop (Suc i) bs) \<le> sum_list bs" by simp
qed (use assms in \<open>auto dest: in_set_takeD in_set_dropD\<close>)

lemma wakeup_log: "wakeup ch s = Ret x t \<Longrightarrow> log t = log s"
  using klog_wakeup unfolding klog_def keeps_def by metis

lemma end_op_log:
  assumes c: "lcommitting (log s) = 0" and run: "end_op s = Ret () t"
  shows "log t = (if loutstanding (log s) = 1
    then (log s)\<lparr>loutstanding := 0, lh_n := if sint (lh_n (log s)) > 0 then 0 else lh_n (log s)\<rparr>
    else (log s)\<lparr>loutstanding := loutstanding (log s) - 1\<rparr>)"
proof (cases "loutstanding (log s) = 1")
  case True
  then obtain v w where u: "commit (s\<lparr>log := (log s)\<lparr>loutstanding := 0, lcommitting := 1\<rparr>\<rparr>) = Ret () v"
      "wakeup ChLog (v\<lparr>held := insert LLog (held v), log := (log v)\<lparr>lcommitting := 0\<rparr>\<rparr>) = Ret () w" "log t = log w"
    using run c by (auto simp: end_op_def run_eq_Ret lock_acquire_Ret lock_release_Ret Let_def)
  then show ?thesis using commit_log [OF u(1)] wakeup_log [OF u(2)] True c by simp
next
  case False
  then obtain w where "wakeup ChLog (s\<lparr>held := insert LLog (held s),
        log := (log s)\<lparr>loutstanding := loutstanding (log s) - 1\<rparr>\<rparr>) = Ret () w" "log t = log w"
    using run c by (auto simp: end_op_def run_eq_Ret lock_acquire_Ret lock_release_Ret Let_def)
  then show ?thesis using wakeup_log False by fastforce
qed

lemma end_op_inv:
  assumes inv: "log_inv (log s) bs" and i: "i < length bs" and run: "end_op s = Ret () t"
  shows "log_inv (log t) (take i bs @ drop (Suc i) bs)"
proof -
  obtain n where n: "lcommitting (log s) = 0" "loutstanding (log s) = of_nat (length bs)" "lh_n (log s) = of_nat n"
      "n + sum_list bs \<le> LOGSIZE" "\<forall>k\<in>set bs. k \<le> MAXOPBLOCKS" "length bs * MAXOPBLOCKS \<le> LOGSIZE"
      "length (lh_block (log s)) = LOGSIZE" "sint (loutstanding (log s)) = int (length bs)" "sint (lh_n (log s)) = int n"
    using inv by (auto elim!: log_invE)
  note r = removed_entry [OF i]
  have one: "loutstanding (log s) = 1 \<longleftrightarrow> length bs = 1" 
  proof
    assume "loutstanding (log s) = 1"
    then show "length bs = 1" using n(8) by simp
  qed (simp add: n(2))
  define m where "m = (if length bs = 1 then 0 else n)"
  have "lh_n (log t) = of_nat m \<and> lcommitting (log t) = 0 \<and> loutstanding (log t) = of_nat (length bs - 1) \<and>
      lh_block (log t) = lh_block (log s)"
    using end_op_log [OF n(1) run] one n(1-3,9) i by (cases "length bs") (simp_all add: m_def)
  moreover have "length (take i bs @ drop (Suc i) bs) = length bs - 1" using r(3) by simp
  moreover have "m + sum_list (take i bs @ drop (Suc i) bs) \<le> LOGSIZE" using n(4) r(2) by (simp add: m_def)
  moreover have "(length bs - 1) * MAXOPBLOCKS \<le> LOGSIZE" using n(6) by (simp add: diff_mult_distrib)
  moreover have "\<forall>k\<in>set (take i bs @ drop (Suc i) bs). k \<le> MAXOPBLOCKS" using n(5) r(1) by blast
  ultimately show ?thesis using n(7) unfolding log_inv_def by (intro exI [of _ m]) simp
qed

lemma log_run_inv: "log_run s bs \<Longrightarrow> log_inv (log s) bs"
proof (induction rule: log_run.induct)
  case (start s)
  then show ?case by (auto simp: log_inv_def LOGSIZE_def intro!: exI [of _ 0])
qed (simp_all add: begin_op_inv log_write_inv end_op_inv)

section \<open>The size of the log on the disk\<close>

text \<open>One operation that fills a log of \<open>LOGSIZE\<close> blocks, one of which is the header: after two rounds of other
  operations it has written 29 blocks.\<close>

definition reserved_log :: "nat \<Rightarrow> log" where
  "reserved_log n = \<lparr>lstart = 2, lsize = 30, loutstanding = 3, lcommitting = 0, ldev = 1, lh_n = of_nat n,
     lh_block = map of_nat [0..<n] @ replicate (LOGSIZE - n) 0\<rparr>"

definition budgets :: "nat \<Rightarrow> nat list" where
  "budgets n = [10 - (n - 20), 10 - min 10 (n - 10), 10 - min 10 n]"

lemma budgets_step:
  assumes "n < 30"
  obtains i k where "i < length (budgets n)" "budgets n ! i = Suc k" "budgets (Suc n) = (budgets n)[i := k]"
proof -
  consider "n < 10" | "10 \<le> n" "n < 20" | "20 \<le> n" by linarith
  then show thesis
  proof cases
    case 1 then show thesis by (intro that [of 2 "9 - n"]) (auto simp: budgets_def numeral_2_eq_2)
  next
    case 2 then show thesis by (intro that [of 1 "19 - n"]) (auto simp: budgets_def)
  next
    case 3 then show thesis using assms by (intro that [of 0 "29 - n"]) (auto simp: budgets_def)
  qed
qed

lemma begin_step:
  assumes run: "log_run s bs" and s: "log s = (reserved_log 0)\<lparr>loutstanding := of_nat k\<rparr>" and k: "k < 3"
    and t: "log t = (reserved_log 0)\<lparr>loutstanding := of_nat (Suc k)\<rparr>"
  shows "log_run t (MAXOPBLOCKS # bs)"
proof -
  let ?s = "s\<lparr>held := {}\<rparr>" and ?t = "s\<lparr>held := {}, log := (reserved_log 0)\<lparr>loutstanding := of_nat (Suc k)\<rparr>\<rparr>"
  have "log_run ?s bs" using run by (rule log_run.other) simp
  moreover have "k = 0 \<or> k = 1 \<or> k = 2" using k by auto
  then have "begin_op ?s = Ret () ?t"
    by (auto simp: s begin_op_def begin_op_loop_def seqp_apply bindp_apply reserved_log_def LOGSIZE_def MAXOPBLOCKS_def)
  ultimately have "log_run ?t (MAXOPBLOCKS # bs)" by (rule log_run.begin_op)
  then show ?thesis by (rule log_run.other) (simp add: t)
qed

lemma log_write_new:
  assumes "n < 29" "log s = reserved_log n" "held s = {}" "bblockno (bcache s (Buf 0)) = of_nat n"
  obtains t where "log_write 0 s = Ret () t" "log t = reserved_log (Suc n)"
proof -
  have len: "length (lh_block (log s)) = LOGSIZE" using assms(1,2) by (simp add: reserved_log_def LOGSIZE_def)
  have "absorb_at n 0 (of_nat n) (lh_block (log s)) = 0 + n"
  proof (rule absorb_at_new, intro allI impI)
    fix j assume "j < n"
    then show "lh_block (log s) ! (0 + j) \<noteq> of_nat n"
      using assms(1,2) by (simp add: reserved_log_def nth_append word_of_nat_eq_iff take_bit_nat_eq_self)
  qed
  then have j: "n = absorb_at n 0 (of_nat n) (lh_block (log s))" by simp
  have "(lh_block (log s))[n := of_nat n] = lh_block (reserved_log (Suc n))"
    using assms(1,2) by (simp add: reserved_log_def LOGSIZE_def list_update_append Suc_diff_Suc [symmetric])
  then show thesis using log_write_run [OF _ _ len _ _ _ j assms(4) [symmetric]] that assms(1-3)
    by (simp add: reserved_log_def LOGSIZE_def)
qed

lemma reserved_reachable: "n < 30 \<Longrightarrow> log s = reserved_log n \<Longrightarrow> log_run s (budgets n)"
proof (induction n arbitrary: s)
  case 0
  let ?l = "\<lambda>k. s\<lparr>log := (reserved_log 0)\<lparr>loutstanding := of_nat k\<rparr>\<rparr>"
  have "log_run (?l 0) []" by (rule log_run.start) (simp_all add: reserved_log_def)
  then have "log_run (?l 1) [MAXOPBLOCKS]" by (rule begin_step [where k = 0]) simp_all
  then have "log_run (?l 2) [MAXOPBLOCKS, MAXOPBLOCKS]" by (rule begin_step [where k = 1]) simp_all
  then have "log_run s [MAXOPBLOCKS, MAXOPBLOCKS, MAXOPBLOCKS]"
    by (rule begin_step [where k = 2]) (simp_all add: 0 reserved_log_def)
  then show ?case by (simp add: budgets_def MAXOPBLOCKS_def)
next
  case (Suc n)
  let ?s = "s\<lparr>log := reserved_log n, held := {}, bcache := \<lambda>b. (bcache s b)\<lparr>bblockno := of_nat n\<rparr>\<rparr>"
  obtain t where t: "log_write 0 ?s = Ret () t" "log t = reserved_log (Suc n)"
    by (rule log_write_new [of n ?s]) (use Suc.prems in auto)
  obtain i k where i: "i < length (budgets n)" "budgets n ! i = Suc k" "budgets (Suc n) = (budgets n)[i := k]"
    using Suc.prems by (auto intro: budgets_step [of n])
  have "log_run t (budgets (Suc n))" unfolding i(3) using Suc.IH [of ?s] Suc.prems i(1,2) t(1)
    by (intro log_run.log_write [of ?s]) simp_all
  then show ?case by (rule log_run.other) (simp add: Suc.prems t)
qed

text \<open>C6: an operation that has a block left of its reservation can log one, whatever other operations do, if the log
  on the disk holds \<open>LOGSIZE\<close> blocks beside its header.\<close>

theorem log_write_reserved:
  assumes "log_run s bs" "i < length bs" "bs ! i = Suc k" "sint (lsize (log s)) > int LOGSIZE"
    "LLog \<notin> held s" "LBcache \<notin> held s"
  shows "\<exists>t. log_write b s = Ret () t"
proof -
  obtain n where n: "lh_n (log s) = of_nat n" "n + sum_list bs \<le> LOGSIZE" "length (lh_block (log s)) = LOGSIZE"
      "sint (loutstanding (log s)) = int (length bs)"
    using log_run_inv [OF assms(1)] by (auto elim!: log_invE)
  note room = budget_room [OF n(2) assms(2,3)]
  show ?thesis using log_write_run [OF n(1) room(1) n(3) _ assms(5,6) refl refl, of b] n room assms(4)
    by simp
qed


lemma log_write_reserved_witness:
  "\<exists>t. log_write 0 (log_example\<lparr>log := (log log_example)\<lparr>lsize := 31, loutstanding := 1\<rparr>\<rparr>) = Ret () t"
proof (rule log_write_reserved)
  let ?s = "log_example\<lparr>log := (log log_example)\<lparr>lsize := 31\<rparr>\<rparr>"
  have "log_run ?s []" by (rule log_run.start) (simp_all add: log_example_fields(6))
  moreover have "begin_op ?s = Ret () (log_example\<lparr>log := (log log_example)\<lparr>lsize := 31, loutstanding := 1\<rparr>\<rparr>)"
    by (simp add: log_example_fields begin_op_def begin_op_loop_def seqp_apply bindp_apply LOGSIZE_def MAXOPBLOCKS_def)
  ultimately show "log_run (log_example\<lparr>log := (log log_example)\<lparr>lsize := 31, loutstanding := 1\<rparr>\<rparr>) [MAXOPBLOCKS]"
    by (rule log_run.begin_op)
  show "[MAXOPBLOCKS] ! 0 = Suc 9" by (simp add: MAXOPBLOCKS_def)
qed (simp_all add: log_example_fields LOGSIZE_def)

text \<open>C33: the log that mkfs makes has \<open>LOGSIZE\<close> blocks with the header, and there the reservation promises one block
  more than there is.\<close>

theorem log_write_short:
  "\<exists>s bs i k. log_run s bs \<and> lsize (log s) = of_nat LOGSIZE \<and> i < length bs \<and> bs ! i = Suc k \<and>
     held s = {} \<and> (\<forall>b. log_write b s = Panic ''too big a transaction'')"
proof -
  let ?s = "log_example\<lparr>log := reserved_log 29\<rparr>"
  have "log_run ?s (budgets 29)" by (rule reserved_reachable) simp_all
  moreover have "log_write b ?s = Panic ''too big a transaction''" for b
    by (simp add: log_write_def seqp_apply bindp_apply reserved_log_def log_example_fields LOGSIZE_def)
  moreover have "budgets 29 ! 0 = Suc 0" "length (budgets 29) = 3" by (simp_all add: budgets_def)
  ultimately show ?thesis
    by (intro exI [of _ ?s] exI [of _ "budgets 29"] exI [of _ 0]) (simp add: reserved_log_def LOGSIZE_def log_example_fields)
qed

end
