(* ===== verification/Contents.thy ===== *)
theory Contents
  imports Txn Fsdata
begin

text \<open>
  The contents of files. An inode and the block contents that the buffer cache shows define the bytes of a file;
  \<open>readi\<close> returns them, and \<open>dirlookup\<close> searches the directory entries in them.
\<close>

section \<open>Clients of the cache\<close>

context block_cache
begin

text \<open>A block is fetched, looked at and given back.\<close>

lemma fetch_clean:
  assumes s: "ok s" "b \<notin> clocked (abs s)" and room: "card {x. 0 < crefs (abs s) x} < nbuf" and small: "Suc (crefs (abs s) b) < 2 ^ 32"
  obtains i t where "fetch b s = Ret i t" "ok t" "frame s t" "handle t i b" "data i t = Ret (cview (abs s) b) t"
    "length (cview (abs s) b) = BSIZE" "1 < crefs (abs t) b \<or> cview (abs t) b = cdisk (abs t) b"
    "abs t = (abs s)\<lparr>crefs := (crefs (abs s))(b := Suc (crefs (abs s) b)), clocked := insert b (clocked (abs s))\<rparr>"
proof -
  obtain i t where t: "fetch b s = Ret i t" "ok t" "frame s t" "handle t i b"
      "abs t = (abs s)\<lparr>crefs := (crefs (abs s))(b := Suc (crefs (abs s) b)), clocked := insert b (clocked (abs s))\<rparr>"
    using fetch_law [OF s disjI2 [OF room] small] by blast
  have "1 < crefs (abs t) b \<or> cview (abs t) b = cdisk (abs t) b"
    using clean_law [OF s(1), of b] by (cases "crefs (abs s) b = 0") (auto simp: t(5))
  moreover have "data i t = Ret (cview (abs s) b) t" "length (cview (abs s) b) = BSIZE"
    using data_law [OF t(2,4)] size_law [OF t(2,4)] by (simp_all add: t(5))
  ultimately show thesis using that t by blast
qed

lemma release_back:
  assumes t: "ok t" "handle t i b" "1 < crefs (abs t) b \<or> cview (abs t) b = cdisk (abs t) b" and b: "b \<notin> clocked A"
    and abs: "abs t = A\<lparr>crefs := (crefs A)(b := Suc (crefs A b)), clocked := insert b (clocked A)\<rparr>"
  obtains u where "release i t = Ret () u" "ok u" "frame t u" "abs u = A"
proof -
  obtain u where u: "release i t = Ret () u" "ok u" "frame t u"
      "abs u = (abs t)\<lparr>crefs := (crefs (abs t))(b := crefs (abs t) b - 1), clocked := clocked (abs t) - {b}\<rparr>"
    using release_law [OF t] by blast
  have "abs u = A" unfolding u(4) abs using b by (auto intro!: cstate.equality)
  then show thesis using that u by blast
qed

end

section \<open>The bytes of a file\<close>

text \<open>The address of block \<open>k\<close> of a file, directly from the inode or from its indirect block.\<close>

definition file_block :: "cstate \<Rightarrow> inode \<Rightarrow> nat \<Rightarrow> u32" where
  "file_block A r k = (if k < NDIRECT then iaddrs r k else get32 (cview A (iaddrs r NDIRECT)) (4 * (k - NDIRECT)))"

definition file_byte :: "cstate \<Rightarrow> inode \<Rightarrow> nat \<Rightarrow> u8" where
  "file_byte A r i = cview A (file_block A r (i div BSIZE)) ! (i mod BSIZE)"

definition contents :: "cstate \<Rightarrow> inode \<Rightarrow> u8 list" where
  "contents A r = map (file_byte A r) [0..<unat (isize r)]"

text \<open>The first \<open>n\<close> bytes have blocks, and nobody else has them locked.\<close>

definition has_block :: "cstate \<Rightarrow> inode \<Rightarrow> nat \<Rightarrow> bool" where
  "has_block A r k \<longleftrightarrow> k < MAXFILE \<and> file_block A r k \<noteq> 0 \<and> file_block A r k \<notin> clocked A \<and>
     (NDIRECT \<le> k \<longrightarrow> iaddrs r NDIRECT \<noteq> 0 \<and> iaddrs r NDIRECT \<notin> clocked A)"

definition has_blocks :: "cstate \<Rightarrow> inode \<Rightarrow> nat \<Rightarrow> bool" where
  "has_blocks A r n \<longleftrightarrow> (\<forall>i<n. has_block A r (i div BSIZE))"

text \<open>The cache has a buffer for one more block.\<close>

definition room :: "cstate \<Rightarrow> bool" where
  "room A \<longleftrightarrow> card {b. 0 < crefs A b} < NBUF \<and> (\<forall>b. Suc (crefs A b) < 2 ^ 32)"

definition same_cache :: "u32 \<Rightarrow> 'z fs_state_scheme \<Rightarrow> 'z fs_state_scheme \<Rightarrow> bool" where
  "same_cache d s t \<longleftrightarrow> cache_ok d t \<and> cache_frame s t \<and> cache_abs d t = cache_abs d s"

lemma frame_fields:
  fixes s :: "'z fs_state_scheme"
  assumes "cache_frame s t"
  shows "itable t = itable s" "sb t = sb s" "log t = log s" "mem t = mem s"
proof -
  have t: "t = s\<lparr>bcache := bcache t, slocks := slocks t, disk := disk t, disk_writes := disk_writes t, procs := procs t\<rparr>"
    using assms by (simp add: cache_frame_def)
  show "itable t = itable s" using arg_cong [OF t, of itable] by simp
  show "sb t = sb s" using arg_cong [OF t, of sb] by simp
  show "log t = log s" using arg_cong [OF t, of log] by simp
  show "mem t = mem s" using arg_cong [OF t, of mem] by simp
qed

lemma same_cache_trans: "same_cache d s t \<Longrightarrow> same_cache d t u \<Longrightarrow> same_cache d s u"
  using cache_frame_trans by (auto simp: same_cache_def)

lemma same_cache_refl: "cache_ok d s \<Longrightarrow> same_cache d s s"
  by (simp add: same_cache_def)

lemma same_cacheD:
  assumes "same_cache d s t"
  shows "cache_ok d t" "cache_abs d t = cache_abs d s" "itable t = itable s" "sb t = sb s"
  using assms frame_fields [of s t] by (simp_all add: same_cache_def)

definition my_pt :: "'z proc_state_scheme \<Rightarrow> u64" where
  "my_pt s = pagetable (procs s (the (curproc s)))"

lemma my_pt_frame:
  assumes "cache_frame s t" "curproc s \<noteq> None"
  shows "my_pt t = my_pt s"
  using assms cache_frame_curproc [OF assms(1)] by (auto simp: my_pt_def cache_frame_def)

lemma cache_mem:
  "cache_ok d (s\<lparr>mem := m\<rparr>) = cache_ok d s" "cache_abs d (s\<lparr>mem := m\<rparr>) = cache_abs d s"
  "holds_buf d (s\<lparr>mem := m\<rparr>) = holds_buf d s"
  by (simp_all add: cache_ok_def buf_ok_def cache_abs_def holds_buf_def fun_eq_iff cong: option.case_cong)

lemma cache_frame_mem:
  assumes "cache_frame s t"
  shows "cache_frame (s\<lparr>mem := m\<rparr>) (t\<lparr>mem := m\<rparr>)"
proof -
  have t: "t = s\<lparr>bcache := bcache t, slocks := slocks t, disk := disk t, disk_writes := disk_writes t, procs := procs t\<rparr>"
    using assms by (simp add: cache_frame_def)
  have "t\<lparr>mem := m\<rparr> = s\<lparr>mem := m, bcache := bcache t, slocks := slocks t, disk := disk t, disk_writes := disk_writes t, procs := procs t\<rparr>"
    by (subst t) simp
  then show ?thesis using assms by (simp add: cache_frame_def)
qed

text \<open>\<open>bread\<close> and \<open>brelse\<close> around a change of memory.\<close>

lemma read_block:
  fixes s :: "'z fs_state_scheme"
  assumes "cache_ok d s" "b \<notin> clocked (cache_abs d s)" "room (cache_abs d s)"
  obtains i t where "bread d b s = Ret i t" "bdata (bcache t (Buf i)) = cview (cache_abs d s) b" "cache_frame s t" 
    "length (cview (cache_abs d s) b) = BSIZE" "\<forall>m. \<exists>u. brelse i (t\<lparr>mem := m\<rparr>) = Ret () u \<and> same_cache d (s\<lparr>mem := m\<rparr>) u"
proof -
  have r: "card {x. 0 < crefs (cache_abs d s) x} < NBUF" "Suc (crefs (cache_abs d s) b) < 2 ^ 32"
    using assms(3) by (simp_all add: room_def)
  obtain i t where t: "bread d b s = Ret i t" "cache_ok d t" "cache_frame s t" "holds_buf d t i b"
      "getb (Buf i) bdata t = Ret (cview (cache_abs d s) b) t" "length (cview (cache_abs d s) b) = BSIZE"
      "1 < crefs (cache_abs d t) b \<or> cview (cache_abs d t) b = cdisk (cache_abs d t) b"
      "cache_abs d t = (cache_abs d s)\<lparr>crefs := (crefs (cache_abs d s))(b := Suc (crefs (cache_abs d s) b)),
         clocked := insert b (clocked (cache_abs d s))\<rparr>"
    by (rule bio.fetch_clean [OF assms(1,2) r])
  have "\<exists>u. brelse i (t\<lparr>mem := m\<rparr>) = Ret () u \<and> same_cache d (s\<lparr>mem := m\<rparr>) u" for m
  proof -
    obtain u where u: "brelse i (t\<lparr>mem := m\<rparr>) = Ret () u" "cache_ok d u" "cache_frame (t\<lparr>mem := m\<rparr>) u" "cache_abs d u = cache_abs d s"
      by (rule bio.release_back [of d "t\<lparr>mem := m\<rparr>" i b "cache_abs d s"]) (use t assms(2) in \<open>simp_all add: cache_mem\<close>)
    then show ?thesis using cache_frame_trans [OF cache_frame_mem [OF t(3)] u(3)] by (simp add: same_cache_def cache_mem)
  qed
  then show thesis using that t by simp
qed

lemma bmap_mapped:
  fixes s :: "'z fs_state_scheme"
  assumes ok: "cache_ok d s" "room (cache_abs d s)" and d: "idev (itable s ip) = d"
    and k: "has_block (cache_abs d s) (itable s ip) k"
  obtains u where "bmap ip (of_nat k) s = Ret (file_block (cache_abs d s) (itable s ip) k) u" "same_cache d s u"
proof -
  let ?A = "cache_abs d s" and ?r = "itable s ip"
  have u: "unat (of_nat k :: u32) = k"
    using k by (simp add: unat_of_nat has_block_def MAXFILE_def NDIRECT_def NINDIRECT_def BSIZE_def)
  show thesis
  proof (cases "k < NDIRECT")
    case True
    then have "bmap ip (of_nat k) s = Ret (file_block ?A ?r k) s"
      using k u by (simp add: bmap_def geti_def bindp_apply has_block_def file_block_def)
    then show thesis using that same_cache_refl [OF ok(1)] by blast
  next
    case False
    then have b: "iaddrs ?r NDIRECT \<noteq> 0" "iaddrs ?r NDIRECT \<notin> clocked ?A" "k - NDIRECT < NINDIRECT"
        "get32 (cview ?A (iaddrs ?r NDIRECT)) (4 * (k - NDIRECT)) \<noteq> 0"
      using k by (auto simp: has_block_def file_block_def MAXFILE_def)
    obtain i t where t: "bread d (iaddrs ?r NDIRECT) s = Ret i t" "bdata (bcache t (Buf i)) = cview ?A (iaddrs ?r NDIRECT)"
        "cache_frame s t" "\<forall>m. \<exists>u. brelse i (t\<lparr>mem := m\<rparr>) = Ret () u \<and> same_cache d (s\<lparr>mem := m\<rparr>) u"
      by (rule read_block [OF ok(1) b(2) ok(2)]) blast
    have "t\<lparr>mem := mem s\<rparr> = t" using frame_fields(4) [OF t(3)] by simp
    then obtain v where v: "brelse i t = Ret () v" "same_cache d s v" using t(4) [rule_format, of "mem s"] by auto
    have "bmap ip (of_nat k) s = Ret (file_block ?A ?r k) v"
      using b t(1,2) v(1) False u d by (simp add: bmap_def geti_def bindp_apply seqp_apply Let_def file_block_def)
    then show thesis using that v(2) by blast
  qed
qed

section \<open>Reading\<close>

lemma div_mod_within:
  fixes x :: nat
  assumes "x mod b + j < b"
  shows "(x + j) div b = x div b" "(x + j) mod b = x mod b + j"
proof -
  have e: "x + j = b * (x div b) + (x mod b + j)" by simp
  have "(b * q + r) div b = q" "(b * q + r) mod b = r" if "r < b" for q r using that by simp_all
  from this [OF assms, of "x div b"] show "(x + j) div b = x div b" "(x + j) mod b = x mod b + j"
    unfolding e [symmetric] .
qed

text \<open>The part of a block that one round of \<open>readi\<close> copies.\<close>

lemma block_bytes:
  assumes "length (cview A (file_block A r (off div BSIZE))) = BSIZE" "off mod BSIZE + m \<le> BSIZE"
  shows "take m (drop (off mod BSIZE) (cview A (file_block A r (off div BSIZE)))) = map (file_byte A r) [off..<off + m]"
proof (rule nth_equalityI)
  fix j assume "j < length (take m (drop (off mod BSIZE) (cview A (file_block A r (off div BSIZE)))))"
  then have j: "j < m" by simp
  have "(off + j) div BSIZE = off div BSIZE" "(off + j) mod BSIZE = off mod BSIZE + j"
    using j assms(2) by (auto intro!: div_mod_within)
  then show "take m (drop (off mod BSIZE) (cview A (file_block A r (off div BSIZE)))) ! j = map (file_byte A r) [off..<off + m] ! j"
    using j assms by (simp add: file_byte_def)
qed (use assms in simp)

text \<open>Where the bytes go: user memory, kernel memory, or a local variable.\<close>

fun dst_ok :: "iodst \<Rightarrow> u64 \<Rightarrow> memory \<Rightarrow> bool" where
  "dst_ok (DUser a) pt m \<longleftrightarrow> pt_wf KERNBASE m pt \<and> user_ok m pt"
| "dst_ok _ pt m \<longleftrightarrow> True"

fun takes :: "iodst \<Rightarrow> u64 \<Rightarrow> memory \<Rightarrow> nat \<Rightarrow> bool" where
  "takes (DUser a) pt m n \<longleftrightarrow> umapped m pt a n"
| "takes _ pt m n \<longleftrightarrow> True"

fun gives :: "iodst \<Rightarrow> u64 \<Rightarrow> memory \<Rightarrow> memory \<Rightarrow> u8 list \<Rightarrow> bool" where
  "gives (DUser a) pt m m' bs \<longleftrightarrow> uwrote pt m m' a bs"
| "gives (DKernel a) pt m m' bs \<longleftrightarrow> m' = write_bytes m a bs"
| "gives DLocal pt m m' bs \<longleftrightarrow> m' = m"

lemma takes_add: "takes dst pt m (n + k) \<longleftrightarrow> takes dst pt m n \<and> takes (dst_add dst n) pt m k"
  by (cases dst) (simp_all add: dst_add_def umapped_add)

lemma takes_0: "takes dst pt m 0"
  by (cases dst) (simp_all add: umapped_def)

lemma gives_Nil: "gives dst pt m m []"
  by (cases dst) (simp_all add: uwrote_Nil write_bytes_def fun_eq_iff)

lemma write_bytes_append:
  assumes "length xs + length ys < 2 ^ 64"
  shows "write_bytes (write_bytes m a xs) (a + of_nat (length xs)) ys = write_bytes m a (xs @ ys)"
proof
  fix x :: u64
  note R = unat_diff_range [OF assms, of "x - a"]
  have d: "x - (a + of_nat (length xs)) = (x - a) - of_nat (length xs)" by simp
  show "write_bytes (write_bytes m a xs) (a + of_nat (length xs)) ys x = write_bytes m a (xs @ ys) x"
    unfolding write_bytes_def d using R by (cases "unat (x - a) < length xs") (auto simp: nth_append not_less)
qed

lemma gives_append:
  assumes "gives dst pt m m1 xs" "gives (dst_add dst (length xs)) pt m1 m2 ys" "length xs + length ys < 2 ^ 64"
  shows "gives dst pt m m2 (xs @ ys)"
  using assms uwrote_append [of pt m m1 _ xs m2 ys]
  by (cases dst) (simp_all add: dst_add_def write_bytes_append)

lemma copy_to_run:
  fixes s :: "'z fs_state_scheme"
  assumes p: "curproc s \<noteq> None" and ok: "dst_ok dst (my_pt s) (mem s)" and len: "length bs < 2 ^ 64"
  obtains m' where "copy_to dst bs s = Ret (if takes dst (my_pt s) (mem s) (length bs) then 0 else - 1) (s\<lparr>mem := m'\<rparr>)"
    "takes dst (my_pt s) (mem s) (length bs) \<Longrightarrow> gives dst (my_pt s) (mem s) m' bs"
    "dst_ok (dst_add dst k) (my_pt s) m'" "\<And>n. takes (dst_add dst k) (my_pt s) m' n = takes (dst_add dst k) (my_pt s) (mem s) n"
proof (cases dst)
  case (DUser a)
  let ?pt = "my_pt s"
  have wf: "pt_wf KERNBASE (mem s) ?pt" "user_ok (mem s) ?pt" using ok DUser by simp_all
  obtain m' n where c: "copyout ?pt a bs s = Ret (if n = length bs then 0 else - 1) (s\<lparr>mem := m'\<rparr>)" "n \<le> length bs"
      "umapped (mem s) ?pt a n" "uwrote ?pt (mem s) m' a (take n bs)" "n < length bs \<longrightarrow> ubyte (mem s) ?pt (a + of_nat n) = None"
    using copyout_writes [OF wf len, of a] by blast
  have n: "n = length bs \<longleftrightarrow> umapped (mem s) ?pt a (length bs)"
    using c(2,3,5) by (cases "n < length bs") (auto simp: umapped_def)
  have "dst_ok (dst_add dst k) ?pt m'" using wf uwrote_user_ok [OF c(4)] c(4) DUser by (simp add: uwrote_def dst_add_def)
  moreover have "takes (dst_add dst k) ?pt m' j = takes (dst_add dst k) ?pt (mem s) j" for j
    using uwrote_umapped [OF c(4)] DUser by (simp add: dst_add_def)
  moreover have "copy_to dst bs s = Ret (if takes dst ?pt (mem s) (length bs) then 0 else - 1) (s\<lparr>mem := m'\<rparr>)"
    using p c(1) n DUser by (auto simp: copy_to_def either_copyout_def with_proc_def bindp_apply my_pt_def)
  moreover have "gives dst ?pt (mem s) m' bs" if "takes dst ?pt (mem s) (length bs)" using c(4) n DUser that by simp
  ultimately show thesis using that [of m'] by blast
next
  case (DKernel a)
  then show thesis using that [of "write_bytes (mem s) a bs"] p
    by (auto simp: copy_to_def either_copyout_def with_proc_def bindp_apply seqp_apply dst_add_def)
next
  case DLocal
  then show thesis using that [of "mem s"] by (simp add: copy_to_def dst_add_def)
qed


lemma same_mem_trans:
  assumes "same_cache d (s\<lparr>mem := mem u\<rparr>) u" "same_cache d (u\<lparr>mem := mem t\<rparr>) t"
  shows "same_cache d (s\<lparr>mem := mem t\<rparr>) t"
proof -
  have "cache_frame (s\<lparr>mem := mem t\<rparr>) (u\<lparr>mem := mem t\<rparr>)"
    using assms(1) cache_frame_mem [of "s\<lparr>mem := mem u\<rparr>" u "mem t"] by (simp add: same_cache_def)
  then show ?thesis using assms cache_frame_trans by (auto simp: same_cache_def cache_mem)
qed

lemma same_memD:
  assumes "same_cache d (s\<lparr>mem := m\<rparr>) t" "curproc s \<noteq> None"
  shows "cache_ok d t" "cache_abs d t = cache_abs d s" "itable t = itable s" "mem t = m" "my_pt t = my_pt s" "curproc t \<noteq> None"
proof -
  have f: "cache_frame (s\<lparr>mem := m\<rparr>) t" using assms(1) by (simp add: same_cache_def)
  show "cache_ok d t" "cache_abs d t = cache_abs d s" using assms(1) by (simp_all add: same_cache_def cache_mem)
  show "itable t = itable s" "mem t = m" using frame_fields [OF f] by simp_all
  show "my_pt t = my_pt s" "curproc t \<noteq> None"
    using my_pt_frame [OF f] cache_frame_curproc [OF f] assms(2) by (simp_all add: my_pt_def)
qed

text \<open>One round of \<open>readi\<close>: the part of a block from \<open>off\<close> on is copied, or the copy fails.\<close>

lemma readi_round:
  fixes s :: "'z fs_state_scheme"
  assumes ok: "cache_ok d s" "room (cache_abs d s)" "idev (itable s ip) = d" and hb: "has_block (cache_abs d s) (itable s ip) (off div BSIZE)"
    and dst: "dst_ok dst (my_pt s) (mem s)" and n: "tot < n" and m: "m = min (n - tot) (BSIZE - off mod BSIZE)"
  defines "bs \<equiv> map (file_byte (cache_abs d s) (itable s ip)) [off..<off + m]"
  obtains v where "readi_loop (Suc k) ip dst off n tot acc s =
      (if takes dst (my_pt s) (mem s) m then readi_loop k ip (dst_add dst m) (off + m) n (tot + m) (acc @ bs) v else Ret (- 1, acc) v)"
    "same_cache d (s\<lparr>mem := mem v\<rparr>) v" "takes dst (my_pt s) (mem s) m \<Longrightarrow> gives dst (my_pt s) (mem s) (mem v) bs"
    "dst_ok (dst_add dst m) (my_pt s) (mem v)" "\<And>j. takes (dst_add dst m) (my_pt s) (mem v) j = takes (dst_add dst m) (my_pt s) (mem s) j"
proof -
  let ?A = "cache_abs d s" and ?r = "itable s ip"
  let ?b = "file_block ?A ?r (off div BSIZE)"
  have mb: "off mod BSIZE + m \<le> BSIZE" "m < 2 ^ 64" using m by (simp_all add: BSIZE_def)
  have p: "curproc s \<noteq> None" using ok(1) by (simp add: cache_ok_def)
  obtain u where u: "bmap ip (of_nat (off div BSIZE)) s = Ret ?b u" "same_cache d s u"
    by (rule bmap_mapped [OF ok hb])
  have um: "same_cache d (s\<lparr>mem := mem s\<rparr>) u" using u(2) by simp
  note su = same_memD [OF um p]
  have nl: "?b \<notin> clocked (cache_abs d u)" "?b \<noteq> 0" and ru: "room (cache_abs d u)" using hb su(2) ok(2) by (simp_all add: has_block_def)
  obtain i t where t: "bread d ?b u = Ret i t" "bdata (bcache t (Buf i)) = cview (cache_abs d u) ?b" "cache_frame u t"
      "length (cview (cache_abs d u) ?b) = BSIZE" "\<forall>m. \<exists>w. brelse i (t\<lparr>mem := m\<rparr>) = Ret () w \<and> same_cache d (u\<lparr>mem := m\<rparr>) w"
    by (rule read_block [OF su(1) nl(1) ru]) blast
  have tf: "mem t = mem s" "my_pt t = my_pt s" "curproc t \<noteq> None" "itable t = itable s"
    using frame_fields [OF t(3)] my_pt_frame [OF t(3)] cache_frame_curproc [OF t(3)] su by simp_all
  have bb: "take m (drop (off mod BSIZE) (cview ?A ?b)) = bs" using block_bytes [of ?A ?r off m] t(4) su(2) mb(1) by (simp add: bs_def)
  have len: "length bs = m" by (simp add: bs_def)
  obtain m' where c: "copy_to dst bs t = Ret (if takes dst (my_pt t) (mem t) (length bs) then 0 else - 1) (t\<lparr>mem := m'\<rparr>)"
    "takes dst (my_pt t) (mem t) (length bs) \<Longrightarrow> gives dst (my_pt t) (mem t) m' bs"
    "dst_ok (dst_add dst m) (my_pt t) m'" "\<And>j. takes (dst_add dst m) (my_pt t) m' j = takes (dst_add dst m) (my_pt t) (mem t) j"
    by (rule copy_to_run [OF tf(3), of dst bs m]) (use dst tf len mb in auto)
  obtain v where v: "brelse i (t\<lparr>mem := m'\<rparr>) = Ret () v" "same_cache d (u\<lparr>mem := m'\<rparr>) v" using t(5) by blast
  have mv: "mem v = m'" using same_memD(4) [OF v(2) su(6)] .
  have "same_cache d (s\<lparr>mem := mem u\<rparr>) u" "same_cache d (u\<lparr>mem := mem v\<rparr>) v" using u(2) su(4) v(2) mv by simp_all
  from same_mem_trans [OF this] have "same_cache d (s\<lparr>mem := mem v\<rparr>) v" .
  moreover have "readi_loop (Suc k) ip dst off n tot acc s =
      (if takes dst (my_pt s) (mem s) m then readi_loop k ip (dst_add dst m) (off + m) n (tot + m) (acc @ bs) v else Ret (- 1, acc) v)"
    using n u(1) nl(2) t(1,2) ok(3) su(2,3) tf c(1) v(1) len
    by (simp add: bindp_apply seqp_apply geti_def Let_def m [symmetric] bb)
  ultimately show thesis using that [of v] c(2-4) tf len mv by simp
qed

lemma readi_loop_run:
  fixes s :: "'z fs_state_scheme"
  assumes "cache_ok d s" "room (cache_abs d s)" "idev (itable s ip) = d" "has_blocks (cache_abs d s) (itable s ip) (off + (n - tot))"
    "dst_ok dst (my_pt s) (mem s)" "tot \<le> n" "n - tot \<le> k" "n < 2 ^ 64"
  shows "\<exists>res t. readi_loop k ip dst off n tot acc s = Ret res t \<and> same_cache d (s\<lparr>mem := mem t\<rparr>) t \<and>
      (if takes dst (my_pt s) (mem s) (n - tot)
       then res = (int n, acc @ map (file_byte (cache_abs d s) (itable s ip)) [off..<off + (n - tot)]) \<and>
         gives dst (my_pt s) (mem s) (mem t) (map (file_byte (cache_abs d s) (itable s ip)) [off..<off + (n - tot)])
       else fst res = - 1)"
  using assms
proof (induction k arbitrary: s off tot acc dst)
  case 0
  then show ?case using same_cache_refl [of d s] by (auto simp: gives_Nil takes_0)
next
  case (Suc k)
  let ?A = "cache_abs d s" and ?r = "itable s ip"
  have p: "curproc s \<noteq> None" using Suc.prems(1) by (simp add: cache_ok_def)
  show ?case
  proof (cases "tot < n")
    case False
    then show ?thesis using Suc.prems same_cache_refl [of d s] by (auto simp: gives_Nil takes_0)
  next
    case True
    define m where "m = min (n - tot) (BSIZE - off mod BSIZE)"
    have m: "0 < m" "m \<le> n - tot" using True by (simp_all add: m_def BSIZE_def)
    have hb: "has_block ?A ?r (off div BSIZE)" using Suc.prems(4) True by (simp add: has_blocks_def)
    let ?bs = "map (file_byte ?A ?r) [off..<off + m]" and ?cs = "map (file_byte ?A ?r) [off + m..<off + (n - tot)]"
    obtain v where v: "readi_loop (Suc k) ip dst off n tot acc s =
        (if takes dst (my_pt s) (mem s) m then readi_loop k ip (dst_add dst m) (off + m) n (tot + m) (acc @ ?bs) v else Ret (- 1, acc) v)"
      "same_cache d (s\<lparr>mem := mem v\<rparr>) v" "takes dst (my_pt s) (mem s) m \<Longrightarrow> gives dst (my_pt s) (mem s) (mem v) ?bs"
      "dst_ok (dst_add dst m) (my_pt s) (mem v)" "\<And>j. takes (dst_add dst m) (my_pt s) (mem v) j = takes (dst_add dst m) (my_pt s) (mem s) j"
      by (rule readi_round [OF Suc.prems(1-3) hb Suc.prems(5) True m_def, of k acc]) blast
    note sv = same_memD [OF v(2) p]
    have e: "off + m + (n - (tot + m)) = off + (n - tot)" and le: "tot + m \<le> n" "n - (tot + m) \<le> k"
      using m Suc.prems(6,7) by linarith+
    have tk: "takes dst (my_pt s) (mem s) (n - tot) \<longleftrightarrow> takes dst (my_pt s) (mem s) m \<and> takes (dst_add dst m) (my_pt v) (mem v) (n - (tot + m))"
      using takes_add [of dst "my_pt s" "mem s" m "n - (tot + m)"] v(5) m sv(5) by simp
    have up: "[off..<off + (n - tot)] = [off..<off + m] @ [off + m..<off + (n - tot)]"
      using upt_add_eq_append [of off "off + m" "n - tot - m"] m by simp
    show ?thesis
    proof (cases "takes dst (my_pt s) (mem s) m")
      case False
      then show ?thesis using v(1,2) tk by auto
    next
      case yes: True
      have "has_blocks (cache_abs d v) (itable v ip) (off + m + (n - (tot + m)))" unfolding e sv(2,3) using Suc.prems(4) .
      moreover have "cache_ok d v" "room (cache_abs d v)" "idev (itable v ip) = d" "dst_ok (dst_add dst m) (my_pt v) (mem v)"
        using sv Suc.prems(2,3) v(4) by simp_all
      ultimately have "\<exists>res t. readi_loop k ip (dst_add dst m) (off + m) n (tot + m) (acc @ ?bs) v = Ret res t \<and> same_cache d (v\<lparr>mem := mem t\<rparr>) t \<and>
          (if takes (dst_add dst m) (my_pt v) (mem v) (n - (tot + m)) then res = (int n, (acc @ ?bs) @ ?cs) \<and>
             gives (dst_add dst m) (my_pt v) (mem v) (mem t) ?cs else fst res = - 1)"
        using Suc.IH [OF _ _ _ _ _ le Suc.prems(8), of v "off + m" "dst_add dst m" "acc @ ?bs"] unfolding e sv(2,3) by blast
      then obtain res t where t: "readi_loop k ip (dst_add dst m) (off + m) n (tot + m) (acc @ ?bs) v = Ret res t"
          "same_cache d (v\<lparr>mem := mem t\<rparr>) t"
          "if takes (dst_add dst m) (my_pt v) (mem v) (n - (tot + m)) then res = (int n, (acc @ ?bs) @ ?cs) \<and>
             gives (dst_add dst m) (my_pt v) (mem v) (mem t) ?cs else fst res = - 1" by blast
      have "gives dst (my_pt s) (mem s) (mem t) (?bs @ ?cs)" if "gives (dst_add dst m) (my_pt v) (mem v) (mem t) ?cs"
        using gives_append [of dst "my_pt s" "mem s" "mem v" ?bs "mem t" ?cs] v(3) [OF yes] that sv(5) Suc.prems(8) m by simp
      then show ?thesis using v(1) yes t(1,3) same_mem_trans [OF v(2) t(2)] tk up by (auto split: if_splits)
    qed
  qed
qed

definition read_range :: "u8 list \<Rightarrow> u32 \<Rightarrow> u32 \<Rightarrow> u8 list" where
  "read_range c off n = (if unat off > length c \<or> unat off + unat n \<ge> 2 ^ 32 then [] else take (unat n) (drop (unat off) c))"

lemma plus_wraps: "(off :: u32) + n < off \<longleftrightarrow> unat off + unat n \<ge> 2 ^ 32"
proof (cases "unat off + unat n < 2 ^ 32")
  case True
  then show ?thesis by (simp add: word_less_nat_alt unat_word_ariths)
next
  case False
  have "unat off < 2 ^ 32" "unat n < 2 ^ 32" using unsigned_less [of off] unsigned_less [of n] by simp_all
  then have "(unat off + unat n) mod 2 ^ 32 = unat off + unat n - 2 ^ 32"
    using False by (subst mod_if) (simp add: le_mod_geq)
  then show ?thesis using False \<open>unat n < 2 ^ 32\<close> by (simp add: word_less_nat_alt unat_word_ariths)
qed

lemma readi_run:
  fixes s :: "'z fs_state_scheme" and off n :: u32
  assumes "cache_ok d s" "room (cache_abs d s)" "idev (itable s ip) = d"
    and b: "has_blocks (cache_abs d s) (itable s ip) (unat (isize (itable s ip)))" and dst: "dst_ok dst (my_pt s) (mem s)"
  defines "bs \<equiv> read_range (contents (cache_abs d s) (itable s ip)) off n"
  shows "\<exists>res t. readi ip dst off n s = Ret res t \<and> same_cache d (s\<lparr>mem := mem t\<rparr>) t \<and>
    (if takes dst (my_pt s) (mem s) (length bs) then res = (int (length bs), bs) \<and> gives dst (my_pt s) (mem s) (mem t) bs
     else fst res = - 1)"
proof -
  let ?A = "cache_abs d s" and ?r = "itable s ip"
  have l: "length (contents ?A ?r) = unat (isize ?r)" by (simp add: contents_def)
  show ?thesis
  proof (cases "off > isize ?r \<or> off + n < off")
    case True
    then have "bs = []" using plus_wraps [of off n] l by (auto simp: bs_def read_range_def word_less_nat_alt)
    then show ?thesis using True same_cache_refl [OF assms(1)] by (auto simp: readi_def geti_def bindp_apply takes_0 gives_Nil)
  next
    case False
    then have le: "unat off \<le> unat (isize ?r)" "\<not> unat off + unat n \<ge> 2 ^ 32"
      using plus_wraps [of off n] by (simp_all add: word_less_nat_alt)
    define k where "k = unat (if off + n > isize ?r then isize ?r - off else n)"
    have sum: "unat (off + n) = unat off + unat n" using le(2) by (simp add: unat_word_ariths)
    have k: "k = min (unat n) (unat (isize ?r) - unat off)" "unat off + k \<le> unat (isize ?r)"
      using le sum False by (auto simp: k_def word_less_nat_alt unat_sub_if_size min_def)
    have hb: "has_blocks ?A ?r (unat off + (k - 0))" using b k(2) by (simp add: has_blocks_def)
    have k64: "k < 2 ^ 64" using k(2) unat_lt_32 [of "isize ?r"] by simp
    have "bs = take (unat n) (map (file_byte ?A ?r) [unat off..<unat (isize ?r)])"
      using le l by (simp add: bs_def read_range_def contents_def drop_map)
    also have "\<dots> = map (file_byte ?A ?r) [unat off..<unat off + k]"
      using k le(1) by (auto simp: take_map min_def)
    finally have bs: "bs = map (file_byte ?A ?r) [unat off..<unat off + k]" .
    have run: "readi ip dst off n s = readi_loop k ip dst (unat off) k 0 [] s"
      using False by (simp add: readi_def geti_def bindp_apply Let_def k_def)
    have "k - 0 \<le> k" by simp
    from readi_loop_run [OF assms(1-3) hb dst le0 this k64, of "[]"] obtain res t where
      "readi_loop k ip dst (unat off) k 0 [] s = Ret res t \<and> same_cache d (s\<lparr>mem := mem t\<rparr>) t \<and>
       (if takes dst (my_pt s) (mem s) (k - 0) then res = (int k, [] @ map (file_byte ?A ?r) [unat off..<unat off + (k - 0)]) \<and>
          gives dst (my_pt s) (mem s) (mem t) (map (file_byte ?A ?r) [unat off..<unat off + (k - 0)]) else fst res = - 1)" by blast
    then show ?thesis unfolding run bs by (intro exI [of _ res] exI [of _ t]) (cases "takes dst (my_pt s) (mem s) k"; simp)
  qed
qed


lemma readi_local:
  fixes s :: "'z fs_state_scheme"
  assumes "cache_ok d s" "room (cache_abs d s)" "idev (itable s ip) = d"
    "has_blocks (cache_abs d s) (itable s ip) (unat (isize (itable s ip)))"
  obtains t where "readi ip DLocal off n s = Ret (int (length (read_range (contents (cache_abs d s) (itable s ip)) off n)),
      read_range (contents (cache_abs d s) (itable s ip)) off n) t" "same_cache d s t"
proof -
  obtain t where t: "readi ip DLocal off n s = Ret (int (length (read_range (contents (cache_abs d s) (itable s ip)) off n)),
      read_range (contents (cache_abs d s) (itable s ip)) off n) t" "same_cache d (s\<lparr>mem := mem t\<rparr>) t" "mem t = mem s"
    using readi_run [OF assms, of DLocal off n] by auto
  then have "same_cache d s t" by simp
  then show thesis using that t(1) by blast
qed

section \<open>Directories\<close>

definition dir_entry :: "u8 list \<Rightarrow> nat \<Rightarrow> u8 list" where
  "dir_entry c k = take 16 (drop (16 * k) c)"

text \<open>The first entry in use with the name.\<close>

definition dir_find :: "u8 list \<Rightarrow> cobj \<Rightarrow> nat list \<Rightarrow> nat option" where
  "dir_find c nm = find (\<lambda>k. de_inum (dir_entry c k) \<noteq> 0 \<and> namecmp nm (de_name (dir_entry c k)) = 0)"

lemma read_entry:
  assumes "k < length c div 16" "length c < 2 ^ 32"
  shows "read_range c (of_nat (16 * k)) 16 = dir_entry c k" "length (dir_entry c k) = 16"
proof -
  have "16 * k + 16 \<le> length c" using assms(1) by linarith
  then show "read_range c (of_nat (16 * k)) 16 = dir_entry c k" "length (dir_entry c k) = 16"
    using assms(2) unat_of_nat_32 [of "16 * k"] by (simp_all add: read_range_def dir_entry_def)
qed

lemma dirlookup_loop_run:
  fixes s :: "'z fs_state_scheme"
  assumes "cache_ok d s" "room (cache_abs d s)" "idev (itable s dp) = d"
    "has_blocks (cache_abs d s) (itable s dp) (unat (isize (itable s dp)))" "\<forall>k\<in>set ks. k < unat (isize (itable s dp)) div 16"
  shows "\<exists>t. same_cache d s t \<and> dirlookup_loop dp nm (map (\<lambda>k. 16 * k) ks) s =
    (case dir_find (contents (cache_abs d s) (itable s dp)) nm ks of None \<Rightarrow> Ret None t
     | Some k \<Rightarrow> bindp (iget d (ucast (de_inum (dir_entry (contents (cache_abs d s) (itable s dp)) k)))) (\<lambda>ip. ret (Some (ip, 16 * k))) t)"
  using assms
proof (induction ks arbitrary: s)
  case Nil
  then show ?case using same_cache_refl [of d s] by (auto simp: dir_find_def)
next
  case (Cons k ks)
  let ?c = "contents (cache_abs d s) (itable s dp)"
  have "length ?c = unat (isize (itable s dp))" by (simp add: contents_def)
  then have e: "read_range ?c (of_nat (16 * k)) 16 = dir_entry ?c k" "length (dir_entry ?c k) = 16"
    using read_entry [of k ?c] Cons.prems(5) unat_lt_32 [of "isize (itable s dp)"] by simp_all
  obtain t where t: "readi dp DLocal (of_nat (16 * k)) 16 s = Ret (16, dir_entry ?c k) t" "same_cache d s t"
    by (rule readi_local [OF Cons.prems(1-4), of "of_nat (16 * k)" 16]) (simp add: e del: of_nat_mult)
  note st = same_cacheD [OF t(2)]
  let ?live = "de_inum (dir_entry ?c k) \<noteq> 0 \<and> namecmp nm (de_name (dir_entry ?c k)) = 0"
  show ?case
  proof (cases ?live)
    case True
    then show ?thesis using t Cons.prems(3) st(3) by (auto simp: bindp_apply geti_def dir_find_def simp del: of_nat_mult)
  next
    case False
    then have f: "dirlookup_loop dp nm (map (\<lambda>k. 16 * k) (k # ks)) s = dirlookup_loop dp nm (map (\<lambda>k. 16 * k) ks) t"
        "dir_find ?c nm (k # ks) = dir_find ?c nm ks"
      using t(1) by (auto simp: bindp_apply geti_def dir_find_def simp del: of_nat_mult)
    obtain u where "same_cache d t u" "dirlookup_loop dp nm (map (\<lambda>k. 16 * k) ks) t = (case dir_find ?c nm ks of None \<Rightarrow> Ret None u
       | Some k \<Rightarrow> bindp (iget d (ucast (de_inum (dir_entry ?c k)))) (\<lambda>ip. ret (Some (ip, 16 * k))) u)"
      using Cons.IH [OF st(1), unfolded st(2,3), OF Cons.prems(2-4)] Cons.prems(5) by auto
    then show ?thesis unfolding f using same_cache_trans [OF t(2)] by blast
  qed
qed

lemma dirlookup_run:
  fixes s :: "'z fs_state_scheme"
  assumes "cache_ok d s" "room (cache_abs d s)" "idev (itable s dp) = d"
    "has_blocks (cache_abs d s) (itable s dp) (unat (isize (itable s dp)))"
    and dir: "itype (itable s dp) = T_DIR" "16 dvd unat (isize (itable s dp))"
  shows "\<exists>t. same_cache d s t \<and> dirlookup dp nm s =
    (case dir_find (contents (cache_abs d s) (itable s dp)) nm [0..<unat (isize (itable s dp)) div 16] of None \<Rightarrow> Ret None t
     | Some k \<Rightarrow> bindp (iget d (ucast (de_inum (dir_entry (contents (cache_abs d s) (itable s dp)) k)))) (\<lambda>ip. ret (Some (ip, 16 * k))) t)"
proof -
  have "(unat (isize (itable s dp)) + 15) div 16 = unat (isize (itable s dp)) div 16" using dir(2) by (auto elim!: dvdE)
  then have "dirlookup dp nm s = dirlookup_loop dp nm (map (\<lambda>k. 16 * k) [0..<unat (isize (itable s dp)) div 16]) s"
    using dir(1) by (simp add: dirlookup_def geti_def bindp_apply dir_offsets_def)
  then show ?thesis using dirlookup_loop_run [OF assms(1-4), of "[0..<unat (isize (itable s dp)) div 16]" nm] by simp
qed


section \<open>What a reader of a file gets\<close>

text \<open>C3: \<open>readi\<close> of an unlocked set of blocks, with one free buffer. The result is the part of the contents of the file in the range,
  shortened at the end of the file and empty if the range starts behind it or wraps around. The bytes are delivered where the caller wants them: in
  the user memory of the process, if all of it is mapped (otherwise the result is -1), in kernel memory, or in a local variable. The
  inode, the contents of all blocks, the disk and the rest of memory are as before.\<close>

theorem readi_contents:
  fixes s :: "'z fs_state_scheme"
  assumes "cache_ok d s" "room (cache_abs d s)" "idev (itable s ip) = d"
    "has_blocks (cache_abs d s) (itable s ip) (unat (isize (itable s ip)))" "dst_ok dst (my_pt s) (mem s)"
  shows "\<exists>res t. readi ip dst off n s = Ret res t \<and> same_cache d (s\<lparr>mem := mem t\<rparr>) t \<and>
    (let bs = read_range (contents (cache_abs d s) (itable s ip)) off n in
     if takes dst (my_pt s) (mem s) (length bs) then res = (int (length bs), bs) \<and> gives dst (my_pt s) (mem s) (mem t) bs
     else fst res = - 1)"
  using readi_run [OF assms] by (simp add: Let_def)

definition file_example :: fs_state where
  "file_example = fs_example\<lparr>itable := (itable fs_example)(0 := inode0\<lparr>idev := 1, iref := 1, ivalid := 1, itype := T_DIR, isize := 32,
     iaddrs := (\<lambda>_. 0)(0 := 50)\<rparr>)\<rparr>"

lemma file_example_fields:
  "bcache file_example = buf_example" "slocks file_example = (\<lambda>_. \<lparr>slocked = 0, slpid = 0\<rparr>)"
  "disk file_example = (\<lambda>_. replicate BSIZE 0)" "held file_example = {}" "curproc file_example = Some 0"
  "itable file_example 0 = inode0\<lparr>idev := 1, iref := 1, ivalid := 1, itype := T_DIR, isize := 32, iaddrs := (\<lambda>_. 0)(0 := 50)\<rparr>"
  by (simp_all add: file_example_def fs_example_defs)

lemma file_example_ok:
  "cache_ok 1 file_example" "room (cache_abs 1 file_example)" "idev (itable file_example 0) = 1"
  "has_blocks (cache_abs 1 file_example) (itable file_example 0) (unat (isize (itable file_example 0)))"
  "contents (cache_abs 1 file_example) (itable file_example 0) = replicate 32 0"
proof -
  note ex = example_cache [OF file_example_fields(1-5)]
  show "cache_ok 1 file_example" "idev (itable file_example 0) = 1" by (simp_all add: ex file_example_fields)
  show "room (cache_abs 1 file_example)" by (simp add: room_def ex NBUF_def)
  have d: "i div BSIZE = 0" "i mod BSIZE = i" "i < BSIZE" if "i < 32" for i using that by (simp_all add: BSIZE_def)
  show "has_blocks (cache_abs 1 file_example) (itable file_example 0) (unat (isize (itable file_example 0)))"
    using d(1) by (simp add: has_blocks_def has_block_def file_block_def file_example_fields NDIRECT_def MAXFILE_def ex)
  show "contents (cache_abs 1 file_example) (itable file_example 0) = replicate 32 0"
    using d by (intro nth_equalityI) (simp_all add: contents_def file_byte_def ex file_example_fields)
qed

lemma readi_contents_witness:
  "\<exists>t. readi 0 (DKernel 7) 30 9 file_example = Ret (2, [0, 0]) t \<and> mem t = write_bytes (mem file_example) 7 [0, 0]"
proof -
  have "dst_ok (DKernel 7) (my_pt file_example) (mem file_example)" by simp
  moreover have "read_range (replicate 32 0) 30 9 = replicate 2 0" by (simp add: read_range_def)
  moreover have "replicate 2 0 = [0 :: u8, 0]" by (simp add: numeral_2_eq_2)
  ultimately show ?thesis using readi_contents [OF file_example_ok(1-4), of "DKernel 7" 30 9]
    unfolding file_example_ok(5) by (auto simp: Let_def)
qed

end
