(* ===== verification/Filewrite.thy ===== *)
theory Filewrite
  imports Contents
begin

text \<open>
  Writing files. Inside an operation of the log, \<open>writei\<close> changes exactly the bytes of the file that it is given, in the
  buffer cache: every changed block is in the log and pinned, and nothing reaches the disk before the commit.
\<close>

section \<open>Changing a block in an operation\<close>

text \<open>The state inside an operation that may still log \<open>k\<close> blocks: they fit the log and the cache, and the blocks in the log
  are pinned.\<close>

definition log_holds :: "u32 \<Rightarrow> 'z fs_state_scheme \<Rightarrow> nat \<Rightarrow> nat \<Rightarrow> bool" where
  "log_holds d s n k \<longleftrightarrow> length (lh_block (log s)) = LOGSIZE \<and> 1 \<le> sint (loutstanding (log s)) \<and> lh_n (log s) = of_nat n \<and>
     n + k \<le> LOGSIZE \<and> int (n + k) < sint (lsize (log s)) \<and> (\<forall>j<n. 0 < crefs (cache_abs d s) (lh_block (log s) ! j))"

definition in_op :: "u32 \<Rightarrow> 'z fs_state_scheme \<Rightarrow> nat \<Rightarrow> bool" where
  "in_op d s k \<longleftrightarrow> cache_ok d s \<and> card {b. 0 < crefs (cache_abs d s) b} + k \<le> NBUF \<and> (\<forall>b. crefs (cache_abs d s) b + k + 1 < 2 ^ 32) \<and>
     (\<exists>n. log_holds d s n k)"

text \<open>Only the cache, the disk, the log and other processes changed.\<close>

definition op_frame :: "'z fs_state_scheme \<Rightarrow> 'z fs_state_scheme \<Rightarrow> bool" where
  "op_frame s t \<longleftrightarrow> cache_frame (s\<lparr>log := log t\<rparr>) t"

lemma cache_log:
  "cache_ok d (s\<lparr>log := l\<rparr>) = cache_ok d s" "cache_abs d (s\<lparr>log := l\<rparr>) = cache_abs d s"
  "holds_buf d (s\<lparr>log := l\<rparr>) = holds_buf d s"
  by (simp_all add: cache_ok_def buf_ok_def cache_abs_def holds_buf_def fun_eq_iff cong: option.case_cong)

lemma op_frame_log:
  fixes s :: "'z fs_state_scheme"
  assumes "cache_frame s t"
  shows "cache_frame (s\<lparr>log := l\<rparr>) (t\<lparr>log := l\<rparr>)"
proof -
  have t: "t = s\<lparr>bcache := bcache t, slocks := slocks t, disk := disk t, disk_writes := disk_writes t, procs := procs t\<rparr>"
    using assms by (simp add: cache_frame_def)
  have "t\<lparr>log := l\<rparr> = s\<lparr>log := l, bcache := bcache t, slocks := slocks t, disk := disk t, disk_writes := disk_writes t, procs := procs t\<rparr>"
    by (subst t) simp
  then show ?thesis using assms by (simp add: cache_frame_def)
qed

lemma op_frame_trans:
  assumes "op_frame s t" "op_frame t u"
  shows "op_frame s u"
proof -
  have "cache_frame (s\<lparr>log := log u\<rparr>) (t\<lparr>log := log u\<rparr>)"
    using assms(1) op_frame_log [of "s\<lparr>log := log t\<rparr>" t "log u"] by (simp add: op_frame_def)
  then show ?thesis using assms(2) cache_frame_trans by (auto simp: op_frame_def)
qed

lemma op_frame_cache: "cache_frame s t \<Longrightarrow> op_frame s t"
  using frame_fields(3) [of s t] by (simp add: op_frame_def)

lemma op_frameD:
  assumes "op_frame s t" "curproc s \<noteq> None"
  shows "itable t = itable s" "sb t = sb s" "mem t = mem s" "my_pt t = my_pt s" "curproc t \<noteq> None"
proof -
  have f: "cache_frame (s\<lparr>log := log t\<rparr>) t" using assms(1) by (simp add: op_frame_def)
  show "itable t = itable s" "sb t = sb s" "mem t = mem s" using frame_fields [OF f] by simp_all
  show "my_pt t = my_pt s" "curproc t \<noteq> None"
    using my_pt_frame [OF f] cache_frame_curproc [OF f] assms(2) by (simp_all add: my_pt_def)
qed

lemma absorb_at_old: "\<exists>j<k. xs ! (i + j) = b \<Longrightarrow> absorb_at k i b xs < i + k \<and> xs ! absorb_at k i b xs = b"
proof (induction k arbitrary: i)
  case (Suc k)
  show ?case
  proof (cases "xs ! i = b")
    case False
    then obtain j where "j < k" "xs ! (Suc i + j) = b"
      using Suc.prems by (metis Nat.add_0_right Suc_less_eq2 add_Suc_shift less_Suc_eq_0_disj)
    then show ?thesis using Suc.IH [of "Suc i"] False by auto
  qed simp
qed simp

text \<open>\<open>log_write\<close> by the holder of the buffer: a block that is not in the log yet is entered and pinned.\<close>

lemma log_write_contract:
  fixes s :: "'z fs_state_scheme"
  assumes ok: "cache_ok d s" and h: "holds_buf d s i b" and small: "Suc (crefs (cache_abs d s) b) < 2 ^ 32"
    and n: "lh_n (log s) = of_nat n" "n < LOGSIZE" "length (lh_block (log s)) = LOGSIZE" "1 \<le> sint (loutstanding (log s))"
      "int n < sint (lsize (log s)) - 1"
  defines "new \<equiv> \<forall>j<n. lh_block (log s) ! j \<noteq> b"
  obtains u where "log_write i s = Ret () u" "cache_ok d u" "op_frame s u" "holds_buf d u = holds_buf d s"
    "cache_abs d u = (if new then (cache_abs d s)\<lparr>crefs := (crefs (cache_abs d s))(b := Suc (crefs (cache_abs d s) b))\<rparr> else cache_abs d s)"
    "log u = (if new then (log s)\<lparr>lh_block := (lh_block (log s))[n := b], lh_n := of_nat (Suc n)\<rparr> else log s)"
proof -
  have hd: "held s = {}" and bb: "bblockno (bcache s (Buf i)) = b"
    using ok holds_buf_facts(9) [OF ok h] by (simp_all add: cache_ok_def)
  define j where "j = absorb_at n 0 b (lh_block (log s))"
  have j: "if new then j = n else j < n \<and> lh_block (log s) ! j = b"
    using absorb_at_new [of n "lh_block (log s)" 0 b] absorb_at_old [of n "lh_block (log s)" 0 b] by (auto simp: j_def new_def)
  let ?c = "(bcache s)(Buf i := (bcache s (Buf i))\<lparr>brefcnt := brefcnt (bcache s (Buf i)) + 1\<rparr>)"
  have run: "log_write i s = Ret () (s\<lparr>log := (log s)\<lparr>lh_block := (lh_block (log s))[j := b], lh_n := of_nat (if j = n then Suc n else n)\<rparr>,
       bcache := if j = n then ?c else bcache s\<rparr>)"
    using log_write_run [OF n(1-4) _ _ j_def bb [symmetric]] n(5) hd by simp
  show thesis
  proof (cases new)
    case True
    have "bpin i s = Ret () (s\<lparr>bcache := ?c\<rparr>)" using hd by (simp add: bpin_def prog_simps)
    then have c: "cache_ok d (s\<lparr>bcache := ?c\<rparr>)" "cache_frame s (s\<lparr>bcache := ?c\<rparr>)" "holds_buf d (s\<lparr>bcache := ?c\<rparr>) = holds_buf d s"
        "cache_abs d (s\<lparr>bcache := ?c\<rparr>) = (cache_abs d s)\<lparr>crefs := (crefs (cache_abs d s))(b := Suc (crefs (cache_abs d s) b))\<rparr>"
      using bpin_contract [OF ok h small] by auto
    let ?l = "(log s)\<lparr>lh_block := (lh_block (log s))[n := b], lh_n := of_nat (Suc n)\<rparr>"
    have "log_write i s = Ret () (s\<lparr>bcache := ?c, log := ?l\<rparr>)" using run j True by simp
    moreover have "op_frame s (s\<lparr>bcache := ?c, log := ?l\<rparr>)"
      using op_frame_log [OF c(2), of ?l] by (simp add: op_frame_def)
    ultimately show thesis using that [of "s\<lparr>bcache := ?c, log := ?l\<rparr>"] c True by (simp add: cache_log)
  next
    case False
    then have "(lh_block (log s))[j := b] = lh_block (log s)" "j \<noteq> n" using j by auto
    then have "log_write i s = Ret () s" using run n(1) by simp
    then show thesis using that [of s] ok False by (simp add: op_frame_def)
  qed
qed


text \<open>An operation that has entered a block has one block less to go.\<close>

lemma in_op_logged:
  fixes s w :: "'z fs_state_scheme" and b :: u32
  assumes op: "in_op d s (Suc k)" and n: "log_holds d s n (Suc k)" and ok: "cache_ok d w"
  defines "new \<equiv> \<forall>j<n. lh_block (log s) ! j \<noteq> b"
  assumes refs: "crefs (cache_abs d w) = (if new then (crefs (cache_abs d s))(b := Suc (crefs (cache_abs d s) b)) else crefs (cache_abs d s))"
    and log: "log w = (if new then (log s)\<lparr>lh_block := (lh_block (log s))[n := b], lh_n := of_nat (Suc n)\<rparr> else log s)"
  shows "in_op d w k"
proof -
  let ?A = "cache_abs d s" and ?n = "if new then Suc n else n"
  have room: "card {b. 0 < crefs ?A b} + Suc k \<le> NBUF" and small: "\<And>b. crefs ?A b + Suc k + 1 < 2 ^ 32"
    using op unfolding in_op_def by blast+
  have "{x. 0 < crefs (cache_abs d w) x} \<subseteq> insert b {x. 0 < crefs ?A x}" using refs by auto
  then have "card {x. 0 < crefs (cache_abs d w) x} \<le> Suc (card {x. 0 < crefs ?A x})"
    using card_mono [of "insert b {x. 0 < crefs ?A x}" "{x. 0 < crefs (cache_abs d w) x}"] crefs_finite [of d s]
    by (auto simp: card_insert_if split: if_splits)
  then have "card {x. 0 < crefs (cache_abs d w) x} + k \<le> NBUF" using room by simp
  moreover have "crefs (cache_abs d w) x + k + 1 < 2 ^ 32" for x
  proof -
    have "crefs (cache_abs d w) x \<le> Suc (crefs ?A x)" by (simp add: refs)
    then show ?thesis using small [of x] by linarith
  qed
  moreover have "log_holds d w ?n k"
  proof -
    have "\<forall>j < ?n. 0 < crefs (cache_abs d w) (lh_block (log w) ! j)"
      using n by (auto simp: refs log nth_list_update less_Suc_eq log_holds_def)
    then show ?thesis using n by (simp add: log_holds_def log)
  qed
  ultimately show ?thesis using ok unfolding in_op_def by blast
qed

text \<open>\<open>bread\<close>, a change of the data, \<open>log_write\<close> and \<open>brelse\<close>: the block has new contents, one more block may be in the log.\<close>

lemma update_block:
  fixes s :: "'z fs_state_scheme"
  assumes op: "in_op d s (Suc k)" and b: "b \<notin> clocked (cache_abs d s)" and len: "length (f (cview (cache_abs d s) b)) = BSIZE"
  obtains i t u v w where "bread d b s = Ret i t" "cache_frame s t"
    "set_data i f t = Ret () u" "log_write i u = Ret () v" "brelse i v = Ret () w" "in_op d w k" "op_frame s w"
    "cview (cache_abs d w) = (cview (cache_abs d s))(b := f (cview (cache_abs d s) b))" "clocked (cache_abs d w) = clocked (cache_abs d s)"
    "cdisk (cache_abs d w) = cdisk (cache_abs d s)" "cwrites (cache_abs d w) = cwrites (cache_abs d s)"
proof -
  let ?A = "cache_abs d s"
  obtain n where ok: "cache_ok d s" and n: "log_holds d s n (Suc k)" and room: "card {b. 0 < crefs ?A b} + Suc k \<le> NBUF"
    and small: "crefs ?A b + Suc k + 1 < 2 ^ 32"
    using op unfolding in_op_def by blast
  have r: "card {x. 0 < crefs ?A x} < NBUF" "Suc (crefs ?A b) < 2 ^ 32" using room small by simp_all
  obtain i t where t: "bread d b s = Ret i t" "cache_ok d t" "cache_frame s t" "holds_buf d t i b"
      "cache_abs d t = ?A\<lparr>crefs := (crefs ?A)(b := Suc (crefs ?A b)), clocked := insert b (clocked ?A)\<rparr>"
    by (rule bio.fetch_clean [OF ok b r])
  have "length (f (cview (cache_abs d t) b)) = BSIZE" using len t(5) by simp
  from set_data_contract [where f = f, OF t(2,4) this] obtain u where u: "set_data i f t = Ret () u" "cache_ok d u" "cache_frame t u"
      "holds_buf d u i b" "cache_abs d u = (cache_abs d t)\<lparr>cview := (cview (cache_abs d t))(b := f (cview (cache_abs d t) b))\<rparr>"
    using t(4) by auto
  have lu: "log u = log s" using frame_fields(3) [OF u(3)] frame_fields(3) [OF t(3)] by simp
  have su: "Suc (crefs (cache_abs d u) b) < 2 ^ 32" using small by (simp add: u(5) t(5))
  let ?new = "\<forall>j<n. lh_block (log s) ! j \<noteq> b"
  obtain v where v: "log_write i u = Ret () v" "cache_ok d v" "op_frame u v" "holds_buf d v = holds_buf d u"
      "cache_abs d v = (if ?new then (cache_abs d u)\<lparr>crefs := (crefs (cache_abs d u))(b := Suc (crefs (cache_abs d u) b))\<rparr> else cache_abs d u)"
      "log v = (if ?new then (log s)\<lparr>lh_block := (lh_block (log s))[n := b], lh_n := of_nat (Suc n)\<rparr> else log s)"
    by (rule log_write_contract [OF u(2,4) su, of n, unfolded lu]) (use n in \<open>simp_all add: log_holds_def\<close>)
  have "?new \<or> 0 < crefs ?A b" using n by (auto simp: log_holds_def)
  then have "1 < crefs (cache_abs d v) b" by (auto simp: v(5) u(5) t(5))
  moreover have "holds_buf d v i b" using v(4) u(4) by simp
  ultimately obtain w where w: "brelse i v = Ret () w" "cache_ok d w" "cache_frame v w"
      "cache_abs d w = (cache_abs d v)\<lparr>crefs := (crefs (cache_abs d v))(b := crefs (cache_abs d v) b - 1), clocked := clocked (cache_abs d v) - {b}\<rparr>"
    using brelse_contract [OF v(2)] by blast
  have "crefs (cache_abs d w) = (if ?new then (crefs ?A)(b := Suc (crefs ?A b)) else crefs ?A)"
    by (auto simp: w(4) v(5) u(5) t(5) fun_eq_iff)
  then have "in_op d w k" by (rule in_op_logged [OF op n w(2)]) (use v(6) frame_fields(3) [OF w(3)] in simp)
  moreover have "op_frame s w"
    using op_frame_trans op_frame_cache [OF t(3)] op_frame_cache [OF u(3)] v(3) op_frame_cache [OF w(3)] by blast
  moreover have "clocked (cache_abs d w) = clocked ?A" "cview (cache_abs d w) = (cview ?A)(b := f (cview ?A b))"
      "cdisk (cache_abs d w) = cdisk ?A" "cwrites (cache_abs d w) = cwrites ?A"
    using b by (simp_all add: w(4) v(5) u(5) t(5))
  ultimately show thesis using that t(1,3) u(1) v(1) w(1) by simp
qed

section \<open>The source of a write\<close>

fun src_ok :: "iosrc \<Rightarrow> u64 \<Rightarrow> memory \<Rightarrow> bool" where
  "src_ok (SUser a) pt m \<longleftrightarrow> pt_wf KERNBASE m pt"
| "src_ok _ pt m \<longleftrightarrow> True"

text \<open>The bytes there, if all of them can be read.\<close>

fun src_bytes :: "iosrc \<Rightarrow> u64 \<Rightarrow> memory \<Rightarrow> nat \<Rightarrow> u8 list option" where
  "src_bytes (SUser a) pt m n = (if umapped m pt a n then Some (ubytes m pt a n) else None)"
| "src_bytes (SKernel a) pt m n = Some (read_bytes m a n)"
| "src_bytes (SLocal bs) pt m n = (if n \<le> length bs then Some (take n bs) else None)"

lemma copy_from_run:
  fixes s :: "'z fs_state_scheme"
  assumes "curproc s \<noteq> None" "src_ok src (my_pt s) (mem s)" "src_bytes src (my_pt s) (mem s) m = Some bs"
  shows "copy_from src m s = Ret (0, bs) s" "length bs = m"
proof -
  show "length bs = m" using assms(3) by (cases src) (auto split: if_splits)
  show "copy_from src m s = Ret (0, bs) s"
  proof (cases src)
    case (SUser a)
    then show ?thesis using assms copyin_loop_correct [of s "my_pt s" a m "[]"]
      by (auto simp: copy_from_def either_copyin_def with_proc_def bindp_apply copyin_def my_pt_def split: if_splits)
  qed (use assms in \<open>auto simp: copy_from_def either_copyin_def with_proc_def bindp_apply split: if_splits\<close>)
qed

lemma read_bytes_add: "read_bytes m a (n + k) = read_bytes m a n @ read_bytes m (a + of_nat n) k"
  by (rule nth_equalityI) (auto simp: read_bytes_def nth_append add.assoc simp flip: of_nat_add)

lemma src_bytes_add:
  assumes "src_bytes src pt m (n + k) = Some bs"
  shows "src_bytes src pt m n = Some (take n bs)" "src_bytes (src_add src n) pt m k = Some (drop n bs)"
  using assms by (cases src; simp add: src_add_def umapped_add ubytes_add read_bytes_add drop_take split: if_splits;
    auto simp: read_bytes_def)+

section \<open>The bytes after a write\<close>

lemma nth_put_bytes:
  assumes "off + length bs \<le> length d" "x < length d"
  shows "put_bytes d off bs ! x = (if off \<le> x \<and> x < off + length bs then bs ! (x - off) else d ! x)"
  using assms by (auto simp: put_bytes_def nth_append)

text \<open>\<open>wrote A A' r off bs n\<close>: of the first \<open>n\<close> bytes of the file those from \<open>off\<close> on are now \<open>bs\<close>; the other blocks, the disk and
  the locks are as before.\<close>

definition wrote :: "cstate \<Rightarrow> cstate \<Rightarrow> inode \<Rightarrow> nat \<Rightarrow> u8 list \<Rightarrow> nat \<Rightarrow> bool" where
  "wrote A A' r off bs n \<longleftrightarrow> clocked A' = clocked A \<and> cdisk A' = cdisk A \<and> cwrites A' = cwrites A \<and> file_block A' r = file_block A r \<and>
     (\<forall>i<n. file_byte A' r i = (if off \<le> i \<and> i < off + length bs then bs ! (i - off) else file_byte A r i)) \<and>
     (\<forall>x. (\<forall>i<length bs. x \<noteq> file_block A r ((off + i) div BSIZE)) \<longrightarrow> cview A' x = cview A x)"

lemma wrote_Nil: "wrote A A r off [] n"
  by (auto simp: wrote_def)

lemma wrote_append:
  assumes "wrote A A1 r off xs n" "wrote A1 A2 r (off + length xs) ys n"
  shows "wrote A A2 r off (xs @ ys) n"
proof -
  have "file_byte A2 r i = (if off \<le> i \<and> i < off + length (xs @ ys) then (xs @ ys) ! (i - off) else file_byte A r i)" if "i < n" for i
    using assms that by (auto simp: wrote_def nth_append)
  moreover have "cview A2 x = cview A x" if x: "\<forall>i<length (xs @ ys). x \<noteq> file_block A r ((off + i) div BSIZE)" for x
  proof -
    have "x \<noteq> file_block A r ((off + length xs + i) div BSIZE)" if "i < length ys" for i
      using x [rule_format, of "length xs + i"] that by (simp add: add.assoc)
    then show ?thesis using assms x by (simp add: wrote_def)
  qed
  ultimately show ?thesis using assms by (simp add: wrote_def)
qed

text \<open>The blocks of the first \<open>n\<close> bytes are different, and none is the indirect block.\<close>

definition separate :: "cstate \<Rightarrow> inode \<Rightarrow> nat \<Rightarrow> bool" where
  "separate A r n \<longleftrightarrow> (\<forall>i<n. file_block A r (i div BSIZE) \<noteq> iaddrs r NDIRECT \<and>
     (\<forall>j<n. file_block A r (i div BSIZE) = file_block A r (j div BSIZE) \<longrightarrow> i div BSIZE = j div BSIZE))"

lemma wrote_part:
  assumes sep: "separate A r n" "off < n" and fit: "off mod BSIZE + length bs \<le> BSIZE"
    and len: "length (cview A (file_block A r (off div BSIZE))) = BSIZE" and ne: "bs \<noteq> []"
    and A': "cview A' = (cview A)(file_block A r (off div BSIZE) := put_bytes (cview A (file_block A r (off div BSIZE))) (off mod BSIZE) bs)"
      "clocked A' = clocked A" "cdisk A' = cdisk A" "cwrites A' = cwrites A"
  shows "wrote A A' r off bs n"
proof -
  let ?b = "file_block A r (off div BSIZE)"
  have "?b \<noteq> iaddrs r NDIRECT" using sep unfolding separate_def by blast
  then have "cview A' (iaddrs r NDIRECT) = cview A (iaddrs r NDIRECT)" using A'(1) by simp
  then have B: "file_block A' r = file_block A r" by (simp add: file_block_def fun_eq_iff)
  have "file_byte A' r i = (if off \<le> i \<and> i < off + length bs then bs ! (i - off) else file_byte A r i)" if i: "i < n" for i
  proof (cases "i div BSIZE = off div BSIZE")
    case True
    have e: "i = BSIZE * (off div BSIZE) + i mod BSIZE" "off = BSIZE * (off div BSIZE) + off mod BSIZE" using True by (metis mult_div_mod_eq)+
    have "i mod BSIZE < BSIZE" by (simp add: BSIZE_def)
    then have "file_byte A' r i = (if off mod BSIZE \<le> i mod BSIZE \<and> i mod BSIZE < off mod BSIZE + length bs
        then bs ! (i mod BSIZE - off mod BSIZE) else file_byte A r i)"
      using fit len True by (simp add: file_byte_def B A'(1) nth_put_bytes)
    moreover have "off \<le> i \<longleftrightarrow> off mod BSIZE \<le> i mod BSIZE" "i < off + length bs \<longleftrightarrow> i mod BSIZE < off mod BSIZE + length bs"
        "i - off = i mod BSIZE - off mod BSIZE" using e by linarith+
    ultimately show ?thesis by simp
  next
    case False
    then have "file_block A r (i div BSIZE) \<noteq> ?b" using sep i unfolding separate_def by blast
    moreover have "\<not> (off \<le> i \<and> i < off + length bs)"
    proof
      assume "off \<le> i \<and> i < off + length bs"
      then have "(off + (i - off)) div BSIZE = off div BSIZE" using fit by (intro div_mod_within) linarith
      then show False using False \<open>off \<le> i \<and> i < off + length bs\<close> by simp
    qed
    ultimately show ?thesis by (auto simp: file_byte_def B A'(1))
  qed
  moreover have "cview A' x = cview A x" if "\<forall>i<length bs. x \<noteq> file_block A r ((off + i) div BSIZE)" for x
    using that [rule_format, of 0] ne by (auto simp: A'(1))
  ultimately show ?thesis using A' B by (simp add: wrote_def)
qed


section \<open>The loop\<close>

text \<open>The number of blocks that \<open>n\<close> bytes from \<open>off\<close> on touch.\<close>

definition rounds :: "nat \<Rightarrow> nat \<Rightarrow> nat" where
  "rounds off n = (if n = 0 then 0 else (off mod BSIZE + n + BSIZE - 1) div BSIZE)"

lemma rounds_step:
  assumes "0 < n" "m = min n (BSIZE - off mod BSIZE)"
  shows "rounds off n = Suc (rounds (off + m) (n - m))"
proof (cases "n \<le> BSIZE - off mod BSIZE")
  case True
  have o: "off mod BSIZE < BSIZE" by (simp add: BSIZE_def)
  have "(off mod BSIZE + n + BSIZE - 1) div BSIZE = Suc 0"
    using True assms(1) o by (intro div_nat_eqI) (auto simp: BSIZE_def)
  then show ?thesis using True assms by (simp add: rounds_def)
next
  case False
  have o: "off mod BSIZE < BSIZE" by (simp add: BSIZE_def)
  have m: "m = BSIZE - off mod BSIZE" using False assms(2) by simp
  have "off + m = BSIZE * Suc (off div BSIZE)"
    using m o mult_div_mod_eq [of BSIZE off] unfolding mult_Suc_right by linarith
  then have z: "(off + m) mod BSIZE = 0" by simp
  have "off mod BSIZE + n + BSIZE - 1 = BSIZE + (n - m + BSIZE - 1)" using False m o by linarith
  then have "(off mod BSIZE + n + BSIZE - 1) div BSIZE = Suc ((n - m + BSIZE - 1) div BSIZE)" by (simp add: BSIZE_def)
  then show ?thesis using False assms z m by (simp add: rounds_def)
qed

lemma in_op_same: "same_cache d s t \<Longrightarrow> in_op d s k \<Longrightarrow> in_op d t k"
  using frame_fields(3) [of s t] by (auto simp: same_cache_def in_op_def log_holds_def)

lemma in_op_room: "in_op d s (Suc k) \<Longrightarrow> cache_ok d s \<and> room (cache_abs d s) \<and> curproc s \<noteq> None"
proof -
  assume a: "in_op d s (Suc k)"
  have small: "crefs (cache_abs d s) b + Suc k + 1 < 2 ^ 32" for b using a unfolding in_op_def by blast
  have "Suc (crefs (cache_abs d s) b) < 2 ^ 32" for b using small [of b] by linarith
  moreover have "card {b. 0 < crefs (cache_abs d s) b} < NBUF" "cache_ok d s" using a unfolding in_op_def by auto
  ultimately show ?thesis by (simp add: room_def cache_ok_def)
qed

lemma view_length:
  assumes "cache_ok d s"
  shows "length (cview (cache_abs d s) b) = BSIZE"
proof (cases "cached d (bcache s) b")
  case (Some i)
  then have "i < NBUF" using assms by (auto simp: cached_Some cache_ok_def buf_for_def)
  then have "buf_ok d s i" using assms by (simp add: cache_ok_def)
  then show ?thesis using Some by (simp add: cache_abs_def buf_ok_def Let_def)
qed (use assms in \<open>simp add: cache_abs_def cache_ok_def\<close>)

lemma length_put_block: "off mod BSIZE + length bs \<le> BSIZE \<Longrightarrow> length d = BSIZE \<Longrightarrow> length (put_bytes d (off mod BSIZE) bs) = BSIZE"
  by (simp add: put_bytes_def)

lemma writei_round:
  fixes s :: "'z fs_state_scheme"
  assumes op: "in_op d s (Suc k)" and ip: "idev (itable s ip) = d" and sep: "separate (cache_abs d s) (itable s ip) N" "off < N"
    and hb: "has_block (cache_abs d s) (itable s ip) (off div BSIZE)" and n: "tot < n" and m: "m = min (n - tot) (BSIZE - off mod BSIZE)"
    and src: "src_ok src (my_pt s) (mem s)" "src_bytes src (my_pt s) (mem s) m = Some bs"
  obtains w where "writei_loop (Suc f) ip src off n tot s = writei_loop f ip (src_add src m) (off + m) n (tot + m) w"
    "in_op d w k" "op_frame s w" "wrote (cache_abs d s) (cache_abs d w) (itable s ip) off bs N"
proof -
  let ?A = "cache_abs d s" and ?r = "itable s ip"
  let ?b = "file_block ?A ?r (off div BSIZE)" and ?f = "\<lambda>x. put_bytes x (off mod BSIZE) bs"
  have ok: "cache_ok d s" "room ?A" "curproc s \<noteq> None" using in_op_room [OF op] by simp_all
  have mb: "off mod BSIZE + m \<le> BSIZE" "0 < m" using m n by (simp_all add: BSIZE_def)
  obtain u where u: "bmap ip (of_nat (off div BSIZE)) s = Ret ?b u" "same_cache d s u" by (rule bmap_mapped [OF ok(1,2) ip hb])
  note su = same_cacheD [OF u(2)]
  have fu: "op_frame s u" by (rule op_frame_cache) (use u(2) in \<open>simp add: same_cache_def\<close>)
  note fd = op_frameD [OF fu ok(3)]
  have bs: "length bs = m" using copy_from_run(2) [OF ok(3) src] .
  have nl: "?b \<notin> clocked (cache_abs d u)" "?b \<noteq> 0" using hb su(2) by (simp_all add: has_block_def)
  have len: "length (cview ?A ?b) = BSIZE" by (rule view_length [OF ok(1)])
  have "length (?f (cview (cache_abs d u) ?b)) = BSIZE" using length_put_block [of off bs] mb(1) bs len su(2) by simp
  then obtain i t v w x where t: "bread d ?b u = Ret i t" "cache_frame u t" "set_data i ?f t = Ret () v" "log_write i v = Ret () w"
      "brelse i w = Ret () x" "in_op d x k" "op_frame u x" "cview (cache_abs d x) = (cview ?A)(?b := ?f (cview ?A ?b))"
      "clocked (cache_abs d x) = clocked ?A" "cdisk (cache_abs d x) = cdisk ?A" "cwrites (cache_abs d x) = cwrites ?A"
    using update_block [OF in_op_same [OF u(2) op] nl(1), of ?f] unfolding su(2) by metis
  have tf: "curproc t \<noteq> None" "my_pt t = my_pt s" "mem t = mem s"
    using op_frameD [OF op_frame_cache [OF t(2)] fd(5)] fd by simp_all
  have "copy_from src m t = Ret (0, bs) t" using copy_from_run(1) [OF tf(1)] src tf by simp
  then have run: "writei_loop (Suc f) ip src off n tot s = writei_loop f ip (src_add src m) (off + m) n (tot + m) x"
    using n u(1) nl(2) t(1,3-5) ip fd(1) by (simp add: bindp_apply seqp_apply geti_def Let_def m [symmetric])
  have "bs \<noteq> []" using bs mb(2) by auto
  then have "wrote ?A (cache_abs d x) ?r off bs N"
    using wrote_part [OF sep _ len _ t(8-11)] mb(1) bs by simp
  then show thesis using that run t(6) op_frame_trans [OF fu t(7)] by blast
qed


lemma wrote_blocks:
  assumes "wrote A A' r off bs n"
  shows "has_blocks A' r m = has_blocks A r m" "separate A' r m = separate A r m"
  using assms by (simp_all add: wrote_def has_blocks_def has_block_def separate_def)

lemma writei_loop_run:
  fixes s :: "'z fs_state_scheme"
  assumes "in_op d s (rounds off (n - tot) + k)" "idev (itable s ip) = d" "separate (cache_abs d s) (itable s ip) N"
    "has_blocks (cache_abs d s) (itable s ip) N" "off + (n - tot) \<le> N" "src_ok src (my_pt s) (mem s)"
    "src_bytes src (my_pt s) (mem s) (n - tot) = Some bs" "tot \<le> n" "n - tot \<le> f" "curproc s \<noteq> None"
  shows "\<exists>t. writei_loop f ip src off n tot s = Ret (n, off + (n - tot)) t \<and> in_op d t k \<and> op_frame s t \<and>
    wrote (cache_abs d s) (cache_abs d t) (itable s ip) off bs N"
  using assms
proof (induction f arbitrary: s off tot src bs)
  case 0
  then have "bs = []" using copy_from_run(2) [OF 0(10,6,7)] by simp
  then show ?case using 0 by (auto simp: rounds_def wrote_Nil op_frame_def)
next
  case (Suc f)
  note p = Suc.prems
  have len: "length bs = n - tot" using copy_from_run(2) [OF p(10,6,7)] .
  show ?case
  proof (cases "tot < n")
    case False
    then have "bs = []" using len by simp
    then show ?thesis using p(1,8) False by (auto simp: rounds_def wrote_Nil op_frame_def)
  next
    case True
    define m where "m = min (n - tot) (BSIZE - off mod BSIZE)"
    have m: "0 < m" "m \<le> n - tot" using True by (simp_all add: m_def BSIZE_def)
    have rd: "rounds off (n - tot) = Suc (rounds (off + m) (n - (tot + m)))"
      using rounds_step [of "n - tot" m off] True m_def by (simp add: diff_diff_add)
    have sb: "src_bytes src (my_pt s) (mem s) m = Some (take m bs)" "src_bytes (src_add src m) (my_pt s) (mem s) (n - (tot + m)) = Some (drop m bs)"
      using src_bytes_add [of src "my_pt s" "mem s" m "n - (tot + m)" bs] p(7) m by simp_all
    have lt: "off < N" and hb: "has_block (cache_abs d s) (itable s ip) (off div BSIZE)" using p(4,5) True by (simp_all add: has_blocks_def)
    have op: "in_op d s (Suc (rounds (off + m) (n - (tot + m)) + k))" using p(1) rd by simp
    obtain w where w: "writei_loop (Suc f) ip src off n tot s = writei_loop f ip (src_add src m) (off + m) n (tot + m) w"
        "in_op d w (rounds (off + m) (n - (tot + m)) + k)" "op_frame s w"
        "wrote (cache_abs d s) (cache_abs d w) (itable s ip) off (take m bs) N"
      by (rule writei_round [OF op p(2,3) lt hb True m_def p(6) sb(1), of f])
    note fw = op_frameD [OF w(3) p(10)] and wb = wrote_blocks [OF w(4)]
    have e: "off + m + (n - (tot + m)) = off + (n - tot)" and le: "tot + m \<le> n" "n - (tot + m) \<le> f" "off + m + (n - (tot + m)) \<le> N"
      using m p(5,8,9) by linarith+
    have q: "idev (itable w ip) = d" "separate (cache_abs d w) (itable w ip) N" "has_blocks (cache_abs d w) (itable w ip) N"
        "src_ok (src_add src m) (my_pt w) (mem w)" "src_bytes (src_add src m) (my_pt w) (mem w) (n - (tot + m)) = Some (drop m bs)"
      using p(2-4,6) sb(2) wb fw by (cases src; simp add: src_add_def)+
    obtain t where t: "writei_loop f ip (src_add src m) (off + m) n (tot + m) w = Ret (n, off + m + (n - (tot + m))) t"
        "in_op d t k" "op_frame w t" "wrote (cache_abs d w) (cache_abs d t) (itable w ip) (off + m) (drop m bs) N"
      using Suc.IH [OF w(2) q(1-3) le(3) q(4,5) le(1,2) fw(5)] by blast
    have "wrote (cache_abs d s) (cache_abs d t) (itable s ip) off (take m bs @ drop m bs) N"
      by (rule wrote_append [OF w(4)]) (use t(4) fw(1) len m in simp)
    then show ?thesis using w(1) t(1-3) op_frame_trans [OF w(3) t(3)] unfolding e by simp
  qed
qed


section \<open>The inode\<close>

lemma load_put_dinode:
  assumes "length d = BSIZE" "k < IPB"
  shows "load_dinode (put_dinode d k r) k r = r" "length (put_dinode d k r) = BSIZE"
proof -
  have fit: "64 * k + 64 \<le> length d" using assms by (simp add: BSIZE_def IPB_def)
  show "length (put_dinode d k r) = BSIZE" using put_dinode_parts(1) [OF fit] assms(1) by simp
  show "load_dinode (put_dinode d k r) k r = r"
    unfolding load_dinode_def Let_def using put_dinode_parts(2-6) [OF fit, of r]
    by (auto simp: put_dinode_parts(7) [OF fit] cong: if_cong)
qed

lemma in_op_itable: "in_op d (s\<lparr>itable := x\<rparr>) k = in_op d s k" "cache_abs d (s\<lparr>itable := x\<rparr>) = cache_abs d s"
  by (simp_all add: in_op_def log_holds_def cache_ok_def buf_ok_def cache_abs_def cong: option.case_cong)

text \<open>The block of the cache that has the inode on it.\<close>

abbreviation inode_block :: "'z fs_state_scheme \<Rightarrow> nat \<Rightarrow> u32" where
  "inode_block s ip \<equiv> IBLOCK (inum (itable s ip)) (sb s)"

definition inode_stored :: "u32 \<Rightarrow> 'z fs_state_scheme \<Rightarrow> nat \<Rightarrow> bool" where
  "inode_stored d s ip \<longleftrightarrow> load_dinode (cview (cache_abs d s) (inode_block s ip)) (unat (inum (itable s ip)) mod IPB) (itable s ip) = itable s ip"

lemma iupdate_run:
  fixes s :: "'z fs_state_scheme"
  assumes op: "in_op d s (Suc k)" and ip: "idev (itable s ip) = d" and b: "inode_block s ip \<notin> clocked (cache_abs d s)"
  obtains t where "iupdate ip s = Ret () t" "in_op d t k" "op_frame s t" "inode_stored d t ip"
    "\<And>x. x \<noteq> inode_block s ip \<Longrightarrow> cview (cache_abs d t) x = cview (cache_abs d s) x" "clocked (cache_abs d t) = clocked (cache_abs d s)"
    "cdisk (cache_abs d t) = cdisk (cache_abs d s)" "cwrites (cache_abs d t) = cwrites (cache_abs d s)"
proof -
  let ?A = "cache_abs d s" and ?r = "itable s ip"
  let ?k = "unat (inum ?r) mod IPB"
  have ok: "cache_ok d s" "curproc s \<noteq> None" using in_op_room [OF op] by simp_all
  have k: "?k < IPB" by (simp add: IPB_def BSIZE_def)
  note ld = load_put_dinode [OF view_length [OF ok(1)] k]
  obtain i t u v w where t: "bread d (inode_block s ip) s = Ret i t" "set_data i (\<lambda>x. put_dinode x ?k ?r) t = Ret () u" "log_write i u = Ret () v"
      "brelse i v = Ret () w" "in_op d w k" "op_frame s w"
      "cview (cache_abs d w) = (cview ?A)(inode_block s ip := put_dinode (cview ?A (inode_block s ip)) ?k ?r)"
      "clocked (cache_abs d w) = clocked ?A" "cdisk (cache_abs d w) = cdisk ?A" "cwrites (cache_abs d w) = cwrites ?A"
    by (rule update_block [OF op b, of "\<lambda>x. put_dinode x ?k ?r"]) (use ld(2) in auto)
  note fw = op_frameD [OF t(6) ok(2)]
  have "iupdate ip s = Ret () w" using t(1-4) ip by (simp add: iupdate_def geti_def bindp_apply seqp_apply)
  moreover have "inode_stored d w ip" using ld(1) by (simp add: inode_stored_def fw t(7))
  ultimately show thesis using that t(5-10) by simp
qed

section \<open>What a writer of a file does\<close>

lemma contents_wrote:
  assumes w: "\<forall>i<n. file_byte A' r i = (if off \<le> i \<and> i < off + length bs then bs ! (i - off) else file_byte A r i)"
    and n: "max (off + length bs) (unat (isize r)) \<le> n" and off: "off \<le> unat (isize r)"
    and r': "iaddrs r' = iaddrs r" "unat (isize r') = max (off + length bs) (unat (isize r))"
  shows "contents A' r' = take off (contents A r) @ bs @ drop (off + length bs) (contents A r)"
proof -
  have "file_block A' r' = file_block A' r" by (simp add: file_block_def r' fun_eq_iff)
  then have e: "file_byte A' r' i = file_byte A' r i" for i by (simp add: file_byte_def)
  show ?thesis
  proof (rule nth_equalityI)
    show "length (contents A' r') = length (take off (contents A r) @ bs @ drop (off + length bs) (contents A r))"
      using off by (auto simp: contents_def r')
    fix i assume "i < length (contents A' r')"
    then have i: "i < max (off + length bs) (unat (isize r))" by (simp add: contents_def r')
    then have "i < n" using n by linarith
    then have "contents A' r' ! i = (if off \<le> i \<and> i < off + length bs then bs ! (i - off) else file_byte A r i)"
      using i w by (simp add: contents_def r' e)
    then show "contents A' r' ! i = (take off (contents A r) @ bs @ drop (off + length bs) (contents A r)) ! i"
      using i off by (auto simp: contents_def nth_append)
  qed
qed

lemma wrote_view: "wrote A A' r off bs n \<Longrightarrow> (\<forall>i<length bs. x \<noteq> file_block A r ((off + i) div BSIZE)) \<Longrightarrow> cview A' x = cview A x"
  by (simp add: wrote_def)

text \<open>A change of a block that is not one of the file's leaves its bytes.\<close>

lemma wrote_other:
  assumes w: "wrote A A' r off bs n" and v: "\<And>x. x \<noteq> b \<Longrightarrow> cview A'' x = cview A' x"
    and b: "b \<noteq> iaddrs r NDIRECT" "\<forall>i<n. file_block A r (i div BSIZE) \<noteq> b"
    and same: "clocked A'' = clocked A'" "cdisk A'' = cdisk A'" "cwrites A'' = cwrites A'"
  shows "file_block A'' r = file_block A r"
    "\<forall>i<n. file_byte A'' r i = (if off \<le> i \<and> i < off + length bs then bs ! (i - off) else file_byte A r i)"
proof -
  have "cview A'' (iaddrs r NDIRECT) = cview A' (iaddrs r NDIRECT)" using v [of "iaddrs r NDIRECT"] b(1) by simp
  then have "file_block A'' r = file_block A' r" by (simp add: file_block_def fun_eq_iff)
  then show fb: "file_block A'' r = file_block A r" using w by (simp add: wrote_def)
  show "\<forall>i<n. file_byte A'' r i = (if off \<le> i \<and> i < off + length bs then bs ! (i - off) else file_byte A r i)"
  proof (intro allI impI)
    fix i assume i: "i < n"
    have "file_byte A'' r i = file_byte A' r i"
      using v [of "file_block A r (i div BSIZE)"] b(2) i w by (simp add: file_byte_def fb wrote_def)
    also have "\<dots> = (if off \<le> i \<and> i < off + length bs then bs ! (i - off) else file_byte A r i)"
      using w i unfolding wrote_def by blast
    finally show "file_byte A'' r i = (if off \<le> i \<and> i < off + length bs then bs ! (i - off) else file_byte A r i)" .
  qed
qed


text \<open>The process may write the range: the operation has blocks left for it and the inode, the file has its blocks, and they are
  different from each other and from the block of the inode.\<close>

definition can_write :: "u32 \<Rightarrow> 'z fs_state_scheme \<Rightarrow> nat \<Rightarrow> nat \<Rightarrow> nat \<Rightarrow> bool" where
  "can_write d s ip off n \<longleftrightarrow>
     (let A = cache_abs d s; r = itable s ip; N = max (off + n) (unat (isize r)) in
      in_op d s (Suc (rounds off n)) \<and> idev r = d \<and> has_blocks A r N \<and> separate A r N \<and> inode_block s ip \<notin> clocked A \<and>
      inode_block s ip \<noteq> iaddrs r NDIRECT \<and> (\<forall>i<N. file_block A r (i div BSIZE) \<noteq> inode_block s ip))"

definition grown :: "inode \<Rightarrow> nat \<Rightarrow> inode" where
  "grown r n = (if unat (isize r) < n then r\<lparr>isize := of_nat n\<rparr> else r)"

lemma can_writeD:
  assumes "can_write d s ip off n"
  shows "in_op d s (rounds off n + 1)" "idev (itable s ip) = d" "has_blocks (cache_abs d s) (itable s ip) (max (off + n) (unat (isize (itable s ip))))"
    "separate (cache_abs d s) (itable s ip) (max (off + n) (unat (isize (itable s ip))))" "inode_block s ip \<notin> clocked (cache_abs d s)"
    "inode_block s ip \<noteq> iaddrs (itable s ip) NDIRECT" "curproc s \<noteq> None"
    "\<forall>i<max (off + n) (unat (isize (itable s ip))). file_block (cache_abs d s) (itable s ip) (i div BSIZE) \<noteq> inode_block s ip"
  using assms in_op_room [of d s "rounds off n"] by (simp_all add: can_write_def Let_def)

lemma grown_fields:
  "idev (grown r n) = idev r" "inum (grown r n) = inum r" "iaddrs (grown r n) = iaddrs r"
  "n < 2 ^ 32 \<Longrightarrow> unat (isize (grown r n)) = max n (unat (isize r))"
  by (simp_all add: grown_def unat_of_nat_32 max_def)

text \<open>The data and the new size, before \<open>iupdate\<close>.\<close>

lemma writei_data:
  fixes s :: "'z fs_state_scheme" and off n :: u32
  assumes cw: "can_write d s ip (unat off) (unat n)" and src: "src_ok src (my_pt s) (mem s)" "src_bytes src (my_pt s) (mem s) (unat n) = Some bs"
    and fit: "unat off \<le> unat (isize (itable s ip))" "unat off + unat n \<le> MAXFILE * BSIZE"
  obtains t where "writei ip src off n s = seqp (iupdate ip) (ret (int (unat n))) t" "in_op d t 1" "mem t = mem s" "sb t = sb s"
    "itable t = (itable s)(ip := grown (itable s ip) (unat off + unat n))" "curproc t \<noteq> None"
    "wrote (cache_abs d s) (cache_abs d t) (itable s ip) (unat off) bs (max (unat off + unat n) (unat (isize (itable s ip))))"
proof -
  let ?r = "itable s ip" and ?o = "unat off" and ?n = "unat n"
  note c = can_writeD [OF cw]
  have mx: "MAXFILE * BSIZE < 2 ^ 32" by (simp add: MAXFILE_def NDIRECT_def NINDIRECT_def BSIZE_def)
  have z: "in_op d s (rounds ?o (?n - 0) + 1)" "src_bytes src (my_pt s) (mem s) (?n - 0) = Some bs" using c(1) src(2) by simp_all
  obtain t where t: "writei_loop ?n ip src ?o ?n 0 s = Ret (?n, ?o + ?n) t" "in_op d t 1" "op_frame s t"
      "wrote (cache_abs d s) (cache_abs d t) ?r ?o bs (max (?o + ?n) (unat (isize ?r)))"
    using writei_loop_run [OF z(1) c(2,4,3) _ src(1) z(2) le0 _ c(7), of ?n] by auto
  note f = op_frameD [OF t(3) c(7)]
  have keep: "t\<lparr>itable := itable s\<rparr> = t" by (simp flip: f(1))
  have "unat (off + n) = ?o + ?n" using fit(2) mx by (simp add: unat_word_ariths)
  then have "\<not> isize ?r < off" "\<not> off + n < off" "\<not> MAXFILE * BSIZE < unat (off + n)"
    using fit plus_wraps [of off n] mx by (simp_all add: word_less_nat_alt)
  moreover have "isize ?r < of_nat (?o + ?n) \<longleftrightarrow> unat (isize ?r) < ?o + ?n"
    using unat_of_nat_32 [of "?o + ?n"] fit(2) mx by (simp only: word_less_nat_alt)
  ultimately have "writei ip src off n s = seqp (iupdate ip) (ret (int ?n)) (t\<lparr>itable := (itable s)(ip := grown ?r (?o + ?n))\<rparr>)"
    using t(1) f(1) by (cases "unat (isize ?r) < ?o + ?n")
      (simp_all add: keep writei_def geti_def seti_def bindp_apply whenp_apply seqp_apply grown_def del: of_nat_add)
  then show thesis by (rule that) (use t(2,4) f in \<open>simp_all add: in_op_itable\<close>)
qed

lemma writei_run:
  fixes s :: "'z fs_state_scheme" and off n :: u32
  assumes cw: "can_write d s ip (unat off) (unat n)" and src: "src_ok src (my_pt s) (mem s)" "src_bytes src (my_pt s) (mem s) (unat n) = Some bs"
    and fit: "unat off \<le> unat (isize (itable s ip))" "unat off + unat n \<le> MAXFILE * BSIZE"
  obtains t where "writei ip src off n s = Ret (int (unat n)) t" "in_op d t 0" "inode_stored d t ip"
    "itable t = (itable s)(ip := grown (itable s ip) (unat off + unat n))" "mem t = mem s" "sb t = sb s"
    "contents (cache_abs d t) (itable t ip) =
       take (unat off) (contents (cache_abs d s) (itable s ip)) @ bs @ drop (unat off + unat n) (contents (cache_abs d s) (itable s ip))"
    "\<And>x. x \<noteq> inode_block s ip \<Longrightarrow> \<forall>i<unat n. x \<noteq> file_block (cache_abs d s) (itable s ip) ((unat off + i) div BSIZE) \<Longrightarrow>
       cview (cache_abs d t) x = cview (cache_abs d s) x"
    "cdisk (cache_abs d t) = cdisk (cache_abs d s)" "cwrites (cache_abs d t) = cwrites (cache_abs d s)"
proof -
  let ?A = "cache_abs d s" and ?r = "itable s ip" and ?o = "unat off" and ?n = "unat n"
  let ?N = "max (?o + ?n) (unat (isize ?r))" and ?b = "inode_block s ip"
  note c = can_writeD [OF cw]
  have len: "length bs = ?n" using copy_from_run(2) [OF c(7) src] .
  have "?o + ?n < 2 ^ 32" using fit(2) by (simp add: MAXFILE_def NDIRECT_def NINDIRECT_def BSIZE_def)
  note g = grown_fields(1-3) [of ?r "?o + ?n"] grown_fields(4) [OF this, of ?r]
  obtain u where u: "writei ip src off n s = seqp (iupdate ip) (ret (int ?n)) u" "in_op d u 1" "mem u = mem s" "sb u = sb s"
      "itable u = (itable s)(ip := grown ?r (?o + ?n))" "curproc u \<noteq> None" "wrote ?A (cache_abs d u) ?r ?o bs ?N"
    by (rule writei_data [OF cw src fit])
  have b: "inode_block u ip = ?b" using g(2) u(4,5) by simp
  have "in_op d u (Suc 0)" "idev (itable u ip) = d" "inode_block u ip \<notin> clocked (cache_abs d u)"
    using u g c(2,5) b by (simp_all add: wrote_def)
  then obtain t where t: "iupdate ip u = Ret () t" "in_op d t 0" "op_frame u t" "inode_stored d t ip"
      "\<And>x. x \<noteq> inode_block u ip \<Longrightarrow> cview (cache_abs d t) x = cview (cache_abs d u) x" "clocked (cache_abs d t) = clocked (cache_abs d u)"
      "cdisk (cache_abs d t) = cdisk (cache_abs d u)" "cwrites (cache_abs d t) = cwrites (cache_abs d u)"
    by (rule iupdate_run) blast
  note f = op_frameD [OF t(3) u(6)]
  have v: "cview (cache_abs d t) x = cview (cache_abs d u) x" if "x \<noteq> ?b" for x using t(5) [of x] that b by simp
  note fb = wrote_other [OF u(7) v c(6,8) t(6-8)]
  have "contents (cache_abs d t) (grown ?r (?o + ?n)) = take ?o (contents ?A ?r) @ bs @ drop (?o + ?n) (contents ?A ?r)"
    using contents_wrote [OF fb(2) _ fit(1) g(3)] g(4) len by simp
  moreover have "cview (cache_abs d t) x = cview ?A x" if "x \<noteq> ?b" "\<forall>i<?n. x \<noteq> file_block ?A ?r ((?o + i) div BSIZE)" for x
    using v [OF that(1)] wrote_view [OF u(7)] that(2) len by simp
  moreover have "writei ip src off n s = Ret (int ?n) t" using u(1) t(1) by (simp add: seqp_apply)
  ultimately show thesis using that [of t] t(2,4,7,8) f u by (simp add: wrote_def)
qed

lemma writei_refused:
  assumes "unat (isize (itable s ip)) < unat off \<or> MAXFILE * BSIZE < unat off + unat n"
  shows "writei ip src off n s = Ret (- 1) s"
proof -
  have mx: "MAXFILE * BSIZE < 2 ^ 32" by (simp add: MAXFILE_def NDIRECT_def NINDIRECT_def BSIZE_def)
  have "isize (itable s ip) < off \<or> off + n < off \<or> MAXFILE * BSIZE < unat (off + n)"
    using assms plus_wraps [of off n] by (cases "unat off + unat n < 2 ^ 32") (auto simp: word_less_nat_alt unat_word_ariths)
  then show ?thesis by (auto simp: writei_def geti_def bindp_apply)
qed


definition write_example :: fs_state where
  "write_example = file_example\<lparr>log := (log file_example)\<lparr>loutstanding := 1\<rparr>\<rparr>"

lemma write_example_ok: "can_write 1 write_example 0 30 3" "contents (cache_abs 1 write_example) (itable write_example 0) = replicate 32 0"
proof -
  have "bcache write_example = buf_example" "slocks write_example = (\<lambda>_. \<lparr>slocked = 0, slpid = 0\<rparr>)"
      "disk write_example = (\<lambda>_. replicate BSIZE 0)" "held write_example = {}" "curproc write_example = Some 0"
    by (simp_all add: write_example_def file_example_fields)
  note ex = example_cache [OF this]
  have it: "itable write_example = itable file_example" "sb write_example = sb file_example"
      "cache_abs 1 write_example = cache_abs 1 file_example"
    by (simp_all add: write_example_def cache_log)
  show "contents (cache_abs 1 write_example) (itable write_example 0) = replicate 32 0" using file_example_ok(5) by (simp add: it)
  have l: "log write_example = \<lparr>lstart = 2, lsize = 30, loutstanding = 1, lcommitting = 0, ldev = 1, lh_n = 0, lh_block = replicate LOGSIZE 0\<rparr>"
    by (simp add: write_example_def file_example_def fs_example_defs log_example_fields)
  have op: "in_op 1 write_example (Suc (rounds 30 3))"
    unfolding in_op_def log_holds_def by (intro conjI exI [of _ 0]) (simp_all add: ex l rounds_def BSIZE_def NBUF_def LOGSIZE_def)
  have b: "i div BSIZE = 0" if "i < 33" for i using that by (simp add: BSIZE_def)
  have "sb_inodestart (sb file_example) = 32" by (simp add: file_example_def fs_example_defs)
  then have ib: "inode_block write_example 0 = 32" by (simp add: it IBLOCK_def file_example_fields inode0_def)
  have N: "max (30 + 3) (unat (isize (itable write_example 0))) = (33 :: nat)" by (simp add: it file_example_fields)
  have fb: "file_block A (itable write_example 0) 0 = 50" "iaddrs (itable write_example 0) NDIRECT = 0" for A
    by (simp_all add: it file_example_fields file_block_def NDIRECT_def)
  have "idev (itable write_example 0) = 1" "0 < MAXFILE" "0 < NDIRECT"
    by (simp_all add: it file_example_fields MAXFILE_def NDIRECT_def)
  then show "can_write 1 write_example 0 30 3"
    using op b unfolding can_write_def Let_def N ib
    by (simp add: has_blocks_def has_block_def separate_def fb ex)
qed


end
