(* ===== verification/Blockalloc.thy ===== *)
theory Blockalloc
  imports Filewrite
begin

text \<open>
  Allocation of disk blocks. \<open>balloc\<close> and \<open>bfree\<close> of \<open>kernel/fs.c\<close> keep the set of used blocks in the bitmap blocks, which they
  change inside an operation of the log.
\<close>

section \<open>The set of used blocks\<close>

definition used :: "cstate \<Rightarrow> superblock \<Rightarrow> nat \<Rightarrow> bool" where
  "used A q n = bmap_bit (cview A (BBLOCK (of_nat n) q)) (n mod BPB)"

lemma BPB_val: "BPB = 8192" "BPB = 8 * BSIZE"
  by (simp_all add: BPB_def BSIZE_def)

lemma BBLOCK_nat:
  assumes "n < 2 ^ 32"
  shows "BBLOCK (of_nat n) q = of_nat (n div BPB) + sb_bmapstart q"
proof -
  have "unat (of_nat n :: u32) = n" using assms by (rule unat_of_nat_32)
  moreover have "unat (of_nat BPB :: u32) = BPB" by (simp add: BPB_val(1))
  ultimately have "(of_nat n :: u32) div of_nat BPB = of_nat (n div BPB)" by (simp add: word_arith_nat_div)
  then show ?thesis by (simp add: BBLOCK_def)
qed

lemma used_in_block:
  assumes "k * BPB + i < 2 ^ 32" "i < BPB"
  shows "used A q (k * BPB + i) = bmap_bit (cview A (BBLOCK (of_nat (k * BPB)) q)) i"
proof -
  have "(k * BPB + i) div BPB = k" "(k * BPB + i) mod BPB = i" "k * BPB div BPB = k" using assms(2) by (simp_all add: BPB_val(1))
  then show ?thesis using assms(1) BBLOCK_nat [of "k * BPB + i" q] BBLOCK_nat [of "k * BPB" q] by (simp add: used_def)
qed

text \<open>The bits of one bitmap block after a change of one of them.\<close>

lemma set_bit_used:
  assumes "length d = BSIZE" "i < BPB" "j < BPB"
  shows "bmap_bit (set_bit8 d i) j \<longleftrightarrow> j = i \<or> bmap_bit d j" "bmap_bit (clear_bit8 d i) j \<longleftrightarrow> j \<noteq> i \<and> bmap_bit d j"
    "length (set_bit8 d i) = BSIZE" "length (clear_bit8 d i) = BSIZE"
  using bitmap_set [of i d j] assms by (simp_all add: BPB_val(2))

lemma same_BBLOCK:
  assumes "m < 2 ^ 32" "n < 2 ^ 32"
  shows "BBLOCK (of_nat m) q = BBLOCK (of_nat n) q \<longleftrightarrow> m div BPB = n div BPB"
proof -
  have "unat (of_nat (x div BPB) :: u32) = x div BPB" if "x < 2 ^ 32" for x
    using that by (intro unat_of_nat_32) (meson div_le_dividend le_less_trans)
  then show ?thesis using assms BBLOCK_nat by (metis add_right_cancel)
qed

text \<open>The used blocks after bit \<open>n\<close> has been set or cleared, and another block that is not of the bitmap has changed.\<close>

lemma used_changed:
  assumes len: "length (cview A (BBLOCK (of_nat n) q)) = BSIZE" and m: "m < 2 ^ 32" "n < 2 ^ 32" "x \<noteq> BBLOCK (of_nat m) q"
  shows "cview A' = (cview A)(BBLOCK (of_nat n) q := set_bit8 (cview A (BBLOCK (of_nat n) q)) (n mod BPB), x := y) \<Longrightarrow>
      used A' q m \<longleftrightarrow> m = n \<or> used A q m"
    "cview A' = (cview A)(BBLOCK (of_nat n) q := clear_bit8 (cview A (BBLOCK (of_nat n) q)) (n mod BPB)) \<Longrightarrow>
      used A' q m \<longleftrightarrow> m \<noteq> n \<and> used A q m"
proof -
  have "n mod BPB < BPB" "m mod BPB < BPB" by (simp_all add: BPB_val(1))
  note sb = set_bit_used [OF len this]
  have mn: "m = n \<longleftrightarrow> m div BPB = n div BPB \<and> m mod BPB = n mod BPB" by (metis div_mult_mod_eq)
  note bb = same_BBLOCK [OF m(1,2), of q]
  show "used A' q m \<longleftrightarrow> m = n \<or> used A q m"
    if "cview A' = (cview A)(BBLOCK (of_nat n) q := set_bit8 (cview A (BBLOCK (of_nat n) q)) (n mod BPB), x := y)"
    using that m(3) sb(1) bb mn by (cases "m div BPB = n div BPB") (auto simp: used_def)
  show "used A' q m \<longleftrightarrow> m \<noteq> n \<and> used A q m"
    if "cview A' = (cview A)(BBLOCK (of_nat n) q := clear_bit8 (cview A (BBLOCK (of_nat n) q)) (n mod BPB))"
    using that sb(2) bb mn by (cases "m div BPB = n div BPB") (auto simp: used_def)
qed

section \<open>balloc\<close>

lemma bzero_run:
  fixes s :: "'z fs_state_scheme"
  assumes op: "in_op d s (Suc k)" and b: "b \<notin> clocked (cache_abs d s)"
  obtains t where "bzero d b s = Ret () t" "in_op d t k" "op_frame s t" "cview (cache_abs d t) = (cview (cache_abs d s))(b := replicate BSIZE 0)"
    "clocked (cache_abs d t) = clocked (cache_abs d s)" "cdisk (cache_abs d t) = cdisk (cache_abs d s)" "cwrites (cache_abs d t) = cwrites (cache_abs d s)"
proof -
  have len: "length ((\<lambda>_. replicate BSIZE (0 :: u8)) (cview (cache_abs d s) b)) = BSIZE" by simp
  obtain i t u v w where t: "bread d b s = Ret i t" "set_data i (\<lambda>_. replicate BSIZE 0) t = Ret () u" "log_write i u = Ret () v"
      "brelse i v = Ret () w" "in_op d w k" "op_frame s w" "cview (cache_abs d w) = (cview (cache_abs d s))(b := replicate BSIZE 0)"
      "clocked (cache_abs d w) = clocked (cache_abs d s)" "cdisk (cache_abs d w) = cdisk (cache_abs d s)" "cwrites (cache_abs d w) = cwrites (cache_abs d s)"
    by (rule update_block [OF op b len])
  have "bzero d b s = Ret () w" using t(1-4) by (simp add: bzero_def bindp_apply seqp_apply)
  then show thesis using that t(5-10) by blast
qed

text \<open>The block numbers that the loop looks at.\<close>

definition scanned :: "nat \<Rightarrow> nat \<Rightarrow> nat list" where
  "scanned N k = map (\<lambda>i. k * BPB + i) [0..<min BPB (N - k * BPB)]"

lemma concat_scanned: "concat (map (scanned N) [0..<j]) = [0..<min (j * BPB) N]"
proof (induction j)
  case (Suc j)
  have "scanned N j = [j * BPB..<j * BPB + min BPB (N - j * BPB)]"
    by (rule nth_equalityI) (simp_all add: scanned_def)
  moreover have "[0..<min (j * BPB) N] @ [j * BPB..<j * BPB + min BPB (N - j * BPB)] = [0..<min (Suc j * BPB) N]"
  proof (cases "j * BPB \<le> N")
    case True
    then have "min (j * BPB) N = j * BPB" "min (Suc j * BPB) N = j * BPB + min BPB (N - j * BPB)" by auto
    then show ?thesis using upt_add_eq_append [of 0 "j * BPB" "min BPB (N - j * BPB)"] by simp
  qed auto
  ultimately show ?case using Suc.IH by simp
qed simp

lemma find_append: "find P (xs @ ys) = (case find P xs of None \<Rightarrow> find P ys | Some x \<Rightarrow> Some x)"
  by (induction xs) auto

lemma find_map: "find P (map f xs) = map_option f (find (P \<circ> f) xs)"
  by (induction xs) auto

lemma find_cong_set: "(\<And>x. x \<in> set xs \<Longrightarrow> P x = Q x) \<Longrightarrow> find P xs = find Q xs"
  by (induction xs) auto

lemma find_scanned:
  assumes "N < 2 ^ 32" "k * BPB < N"
  shows "find (\<lambda>n. \<not> used A q n) (scanned N k) =
    map_option (\<lambda>i. k * BPB + i) (find (\<lambda>i. \<not> bmap_bit (cview A (BBLOCK (of_nat (k * BPB)) q)) i) [0..<min BPB (N - k * BPB)])"
  unfolding scanned_def find_map
  by (rule arg_cong [of _ _ "map_option _"], rule find_cong_set) (use assms in \<open>auto simp: used_in_block\<close>)


text \<open>Block \<open>n\<close> is marked and zeroed.\<close>

definition allocated :: "u32 \<Rightarrow> 'z fs_state_scheme \<Rightarrow> nat \<Rightarrow> 'z fs_state_scheme \<Rightarrow> bool" where
  "allocated d s n t \<longleftrightarrow> in_op d t 0 \<and> op_frame s t \<and> clocked (cache_abs d t) = clocked (cache_abs d s) \<and>
     cdisk (cache_abs d t) = cdisk (cache_abs d s) \<and> cwrites (cache_abs d t) = cwrites (cache_abs d s) \<and>
     cview (cache_abs d t) = (cview (cache_abs d s))
       (BBLOCK (of_nat n) (sb s) := set_bit8 (cview (cache_abs d s) (BBLOCK (of_nat n) (sb s))) (n mod BPB), of_nat n := replicate BSIZE 0)"

text \<open>One bitmap block.\<close>

lemma balloc_block:
  fixes s :: "'z fs_state_scheme"
  assumes op: "in_op d s 2" and N: "unat (sb_size (sb s)) = N" "k * BPB < N" and bm: "BBLOCK (of_nat (k * BPB)) (sb s) \<notin> clocked (cache_abs d s)"
    and fr: "\<And>n. n < N \<Longrightarrow> \<not> used (cache_abs d s) (sb s) n \<Longrightarrow> of_nat n \<notin> clocked (cache_abs d s)"
  shows "case find (\<lambda>n. \<not> used (cache_abs d s) (sb s) n) (scanned N k) of
      None \<Rightarrow> \<exists>t. same_cache d s t \<and> balloc_loop d (k * BPB # bs) s = balloc_loop d bs t
    | Some n \<Rightarrow> \<exists>t. balloc_loop d (k * BPB # bs) s = Ret (of_nat n) t \<and> allocated d s n t"
proof -
  let ?A = "cache_abs d s" and ?q = "sb s"
  let ?b = "BBLOCK (of_nat (k * BPB)) ?q"
  have N32: "N < 2 ^ 32" using N(1) unat_lt_32 by metis
  note f = find_scanned [OF N32 N(2), of ?A ?q]
  have op': "in_op d s (Suc 1)" using op by (simp add: numeral_2_eq_2)
  have ok: "cache_ok d s" "room ?A" using in_op_room [OF op'] by simp_all
  show ?thesis
  proof (cases "find (\<lambda>i. \<not> bmap_bit (cview ?A ?b) i) [0..<min BPB (N - k * BPB)]")
    case None
    obtain i t where t: "bread d ?b s = Ret i t" "bdata (bcache t (Buf i)) = cview ?A ?b" "cache_frame s t"
        "\<forall>m. \<exists>u. brelse i (t\<lparr>mem := m\<rparr>) = Ret () u \<and> same_cache d (s\<lparr>mem := m\<rparr>) u"
      by (rule read_block [OF ok(1) bm ok(2)]) blast
    have "t\<lparr>mem := mem s\<rparr> = t" using frame_fields(4) [OF t(3)] by simp
    then obtain u where "brelse i t = Ret () u" "same_cache d s u" using t(4) [rule_format, of "mem s"] by auto
    then show ?thesis using f None t(1,2) N(1) by (auto simp: bindp_apply seqp_apply simp del: of_nat_mult)
  next
    case (Some i)
    then have i: "i < min BPB (N - k * BPB)" "\<not> bmap_bit (cview ?A ?b) i" by (auto simp: find_Some_iff)
    let ?n = "k * BPB + i"
    have n: "?n < N" "?n mod BPB = i" "?n div BPB = k" "k * BPB div BPB = k" using i(1) by (auto simp: BPB_val(1))
    have bn: "BBLOCK (of_nat ?n) ?q = ?b" using same_BBLOCK [of ?n "k * BPB" ?q] n N32 N(2) by simp
    have free: "\<not> used ?A ?q ?n" using i n N32 used_in_block [of k i ?A ?q] by simp
    have len: "length ((\<lambda>x. set_bit8 x i) (cview ?A ?b)) = BSIZE"
      using set_bit_used(3) [OF view_length [OF ok(1)], of i i] i(1) by simp
    obtain j t u v w where t: "bread d ?b s = Ret j t" "cache_frame s t" "set_data j (\<lambda>x. set_bit8 x i) t = Ret () u" "log_write j u = Ret () v"
        "brelse j v = Ret () w" "in_op d w 1" "op_frame s w" "cview (cache_abs d w) = (cview ?A)(?b := set_bit8 (cview ?A ?b) i)"
        "clocked (cache_abs d w) = clocked ?A" "cdisk (cache_abs d w) = cdisk ?A" "cwrites (cache_abs d w) = cwrites ?A"
      by (rule update_block [where f = "\<lambda>x. set_bit8 x i", OF op' bm len])
    have "of_nat ?n \<notin> clocked (cache_abs d w)" using fr [OF n(1) free] t(9) by simp
    then obtain x where x: "bzero d (of_nat ?n) w = Ret () x" "in_op d x 0" "op_frame w x"
        "cview (cache_abs d x) = (cview (cache_abs d w))(of_nat ?n := replicate BSIZE 0)"
        "clocked (cache_abs d x) = clocked (cache_abs d w)" "cdisk (cache_abs d x) = cdisk (cache_abs d w)" "cwrites (cache_abs d x) = cwrites (cache_abs d w)"
      using bzero_run [of d w 0] t(6) by auto
    have "bdata (bcache t (Buf j)) = cview ?A ?b"
      by (rule read_block [OF ok(1) bm ok(2)]) (use t(1) in simp)
    then have "balloc_loop d (k * BPB # bs) s = Ret (of_nat ?n) x"
      using t(1,3-5) x(1) Some N(1) by (simp add: bindp_apply seqp_apply del: of_nat_mult of_nat_add)
    moreover have "allocated d s ?n x"
      unfolding allocated_def bn n(2) using x(2,4-7) t(8-11) op_frame_trans [OF t(7) x(3)] by simp
    ultimately show ?thesis using f Some by auto
  qed
qed

lemma balloc_loop_run:
  fixes s :: "'z fs_state_scheme"
  assumes "in_op d s 2" "unat (sb_size (sb s)) = N" "\<forall>k\<in>set ks. k * BPB < N \<and> BBLOCK (of_nat (k * BPB)) (sb s) \<notin> clocked (cache_abs d s)"
    "\<And>n. n < N \<Longrightarrow> \<not> used (cache_abs d s) (sb s) n \<Longrightarrow> of_nat n \<notin> clocked (cache_abs d s)"
  shows "case find (\<lambda>n. \<not> used (cache_abs d s) (sb s) n) (concat (map (scanned N) ks)) of
      None \<Rightarrow> \<exists>t. same_cache d s t \<and> balloc_loop d (map (\<lambda>k. k * BPB) ks) s = balloc_loop d [] t
    | Some n \<Rightarrow> \<exists>t. balloc_loop d (map (\<lambda>k. k * BPB) ks) s = Ret (of_nat n) t \<and> allocated d s n t"
  using assms
proof (induction ks arbitrary: s)
  case Nil
  then show ?case using same_cache_refl [of d s] by (auto simp: in_op_def)
next
  case (Cons k ks)
  let ?P = "\<lambda>n. \<not> used (cache_abs d s) (sb s) n"
  have k: "k * BPB < N" "BBLOCK (of_nat (k * BPB)) (sb s) \<notin> clocked (cache_abs d s)" using Cons.prems(3) by simp_all
  note b = balloc_block [OF Cons.prems(1,2) k Cons.prems(4), of "map (\<lambda>k. k * BPB) ks"]
  show ?case
  proof (cases "find ?P (scanned N k)")
    case (Some n)
    then show ?thesis using b by (simp add: find_append)
  next
    case None
    then obtain t where t: "same_cache d s t" "balloc_loop d (map (\<lambda>k. k * BPB) (k # ks)) s = balloc_loop d (map (\<lambda>k. k * BPB) ks) t"
      using b by auto
    note st = same_cacheD [OF t(1)]
    have "op_frame s t" by (rule op_frame_cache) (use t(1) in \<open>simp add: same_cache_def\<close>)
    then have tr: "allocated d t n u \<Longrightarrow> allocated d s n u" for u n using op_frame_trans [of s t u] st by (simp add: allocated_def)
    have "in_op d t 2" "unat (sb_size (sb t)) = N" "\<forall>k\<in>set ks. k * BPB < N \<and> BBLOCK (of_nat (k * BPB)) (sb t) \<notin> clocked (cache_abs d t)"
      using in_op_same [OF t(1) Cons.prems(1)] Cons.prems(2,3) st by simp_all
    note ih = Cons.IH [OF this, unfolded st(2,4), OF Cons.prems(4)]
    have f: "find ?P (concat (map (scanned N) (k # ks))) = find ?P (concat (map (scanned N) ks))" using None by (simp add: find_append)
    show ?thesis unfolding t(2) f
      using ih tr same_cache_trans [OF t(1)] by (cases "find ?P (concat (map (scanned N) ks))") (simp_all only: option.case, blast+)
  qed
qed

lemma balloc_run:
  fixes s :: "'z fs_state_scheme"
  assumes op: "in_op d s 2" and N: "unat (sb_size (sb s)) = N" and bm: "\<forall>n<N. BBLOCK (of_nat n) (sb s) \<notin> clocked (cache_abs d s)"
    and fr: "\<forall>n<N. \<not> used (cache_abs d s) (sb s) n \<longrightarrow> of_nat n \<notin> clocked (cache_abs d s)"
  shows "case find (\<lambda>n. \<not> used (cache_abs d s) (sb s) n) [0..<N] of
      None \<Rightarrow> \<exists>t. same_cache d s t \<and> balloc d s = balloc_loop d [] t
    | Some n \<Rightarrow> \<exists>t. balloc d s = Ret (of_nat n) t \<and> allocated d s n t"
proof -
  let ?ks = "[0..<(N + BPB - 1) div BPB]"
  have k: "k * BPB < N" if "k < (N + BPB - 1) div BPB" for k
  proof -
    have "Suc k * BPB \<le> N + BPB - 1" using that by (metis Suc_leI div_times_less_eq_dividend le_trans mult_le_mono1)
    then show ?thesis by (simp add: BPB_val(1))
  qed
  have "N \<le> (N + BPB - 1) div BPB * BPB" by (simp add: BPB_val(1))
  then have e: "concat (map (scanned N) ?ks) = [0..<N]" "balloc d s = balloc_loop d (map (\<lambda>k. k * BPB) ?ks) s"
    using N by (simp_all add: concat_scanned balloc_def bindp_apply)
  have a: "\<forall>k\<in>set ?ks. k * BPB < N \<and> BBLOCK (of_nat (k * BPB)) (sb s) \<notin> clocked (cache_abs d s)"
    using k bm by (auto simp del: of_nat_mult)
  have "of_nat n \<notin> clocked (cache_abs d s)" if "n < N" "\<not> used (cache_abs d s) (sb s) n" for n using fr that by blast
  from balloc_loop_run [OF op N a this] show ?thesis unfolding e .
qed

text \<open>\<open>bfree\<close> clears the bit of a used block, and panics for a free one.\<close>

lemma bfree_run:
  fixes s :: "'z fs_state_scheme" and b :: u32
  assumes op: "in_op d s (Suc k)" and bm: "BBLOCK b (sb s) \<notin> clocked (cache_abs d s)"
  shows "if used (cache_abs d s) (sb s) (unat b)
    then \<exists>t. bfree d b s = Ret () t \<and> in_op d t k \<and> op_frame s t \<and> cview (cache_abs d t) = (cview (cache_abs d s))
        (BBLOCK b (sb s) := clear_bit8 (cview (cache_abs d s) (BBLOCK b (sb s))) (unat b mod BPB))
    else bfree d b s = Panic ''freeing free block''"
proof -
  let ?A = "cache_abs d s" and ?B = "BBLOCK b (sb s)" and ?i = "unat b mod BPB"
  have ok: "cache_ok d s" "room ?A" using in_op_room [OF op] by simp_all
  have i: "?i < BPB" by (simp add: BPB_val(1))
  have u: "used ?A (sb s) (unat b) \<longleftrightarrow> bmap_bit (cview ?A ?B) ?i" by (simp add: used_def)
  have len: "length ((\<lambda>x. clear_bit8 x ?i) (cview ?A ?B)) = BSIZE"
    using set_bit_used(4) [OF view_length [OF ok(1)] i i] by simp
  obtain j t v w x where t: "bread d ?B s = Ret j t" "set_data j (\<lambda>x. clear_bit8 x ?i) t = Ret () v" "log_write j v = Ret () w"
      "brelse j w = Ret () x" "in_op d x k" "op_frame s x" "cview (cache_abs d x) = (cview ?A)(?B := clear_bit8 (cview ?A ?B) ?i)"
    by (rule update_block [where f = "\<lambda>x. clear_bit8 x ?i", OF op bm len])
  have "bdata (bcache t (Buf j)) = cview ?A ?B" by (rule read_block [OF ok(1) bm ok(2)]) (use t(1) in simp)
  then show ?thesis using t u by (auto simp: bfree_def bindp_apply seqp_apply Let_def)
qed

section \<open>The contract of the allocator\<close>

text \<open>C40: \<open>balloc\<close> inside an operation with two blocks left. The result is the first block that the bitmap has as free; it is zeroed in the cache and
  marked, no other block changes its state, and no other block than it and the one of its bit changes at all; the changes are in the log and
  the disk is as before. If no block is free, nothing changes but the message on the console and the result is 0. The bitmap
  has its own blocks marked as used.\<close>

theorem balloc_correct:
  fixes s :: "'z fs_state_scheme"
  assumes "in_op d s 2" "N = unat (sb_size (sb s))" "\<forall>n<N. BBLOCK (of_nat n) (sb s) \<notin> clocked (cache_abs d s)"
    "\<forall>n<N. \<not> used (cache_abs d s) (sb s) n \<longrightarrow> of_nat n \<notin> clocked (cache_abs d s) \<and> (\<forall>m<N. of_nat n \<noteq> BBLOCK (of_nat m) (sb s))"
  shows "case find (\<lambda>n. \<not> used (cache_abs d s) (sb s) n) [0..<N] of
      None \<Rightarrow> \<exists>t. same_cache d s t \<and> balloc d s = seqp (printf (''balloc: out of blocks'' @ [CHR 0x0A]) []) (ret 0) t
    | Some n \<Rightarrow> \<exists>t. balloc d s = Ret (of_nat n) t \<and> in_op d t 0 \<and> op_frame s t \<and>
        cview (cache_abs d t) (of_nat n) = replicate BSIZE 0 \<and> (\<forall>m<N. used (cache_abs d t) (sb s) m \<longleftrightarrow> m = n \<or> used (cache_abs d s) (sb s) m) \<and>
        (\<forall>b. b \<noteq> of_nat n \<and> b \<noteq> BBLOCK (of_nat n) (sb s) \<longrightarrow> cview (cache_abs d t) b = cview (cache_abs d s) b) \<and>
        cdisk (cache_abs d t) = cdisk (cache_abs d s) \<and> cwrites (cache_abs d t) = cwrites (cache_abs d s)"
proof (cases "find (\<lambda>n. \<not> used (cache_abs d s) (sb s) n) [0..<N]")
  case None
  then show ?thesis using balloc_run [OF assms(1) assms(2) [symmetric] assms(3)] assms(4) by simp
next
  case (Some n)
  then obtain t where t: "balloc d s = Ret (of_nat n) t" "allocated d s n t"
    using balloc_run [OF assms(1) assms(2) [symmetric] assms(3)] assms(4) by auto
  have n: "n < N" "\<not> used (cache_abs d s) (sb s) n" using Some by (auto simp: find_Some_iff)
  have ok: "cache_ok d s" and N: "N < 2 ^ 32" using assms(1,2) unat_lt_32 by (auto simp: in_op_def)
  have "used (cache_abs d t) (sb s) m \<longleftrightarrow> m = n \<or> used (cache_abs d s) (sb s) m" if "m < N" for m
    by (rule used_changed(1) [OF view_length [OF ok]]) (use t(2) n N that assms(4) in \<open>auto simp: allocated_def\<close>)
  then show ?thesis using Some t by (simp add: allocated_def)
qed


definition alloc_example :: fs_state where
  "alloc_example = write_example\<lparr>disk := (\<lambda>_. replicate BSIZE 0)(45 := - 1 # replicate (BSIZE - 1) 0), sb := (sb write_example)\<lparr>sb_size := 40\<rparr>\<rparr>"

lemma alloc_example_ok:
  "in_op 1 alloc_example 2" "clocked (cache_abs 1 alloc_example) = {}" "cview (cache_abs 1 alloc_example) = disk alloc_example"
  "sb_size (sb alloc_example) = 40" "sb_bmapstart (sb alloc_example) = 45"
proof -
  have f: "bcache alloc_example = buf_example" "slocks alloc_example = (\<lambda>_. \<lparr>slocked = 0, slpid = 0\<rparr>)" "held alloc_example = {}"
      "curproc alloc_example = Some 0" "length (disk alloc_example b) = BSIZE" for b
    by (simp_all add: alloc_example_def write_example_def file_example_fields BSIZE_def)
  have n: "cached 1 (bcache alloc_example) b = None" for b
    unfolding f(1) by (auto simp: cached_None buf_for_def buf_example_def)
  have "one_buf 1 buf_example" by (simp add: one_buf_def buf_for_def buf_example_def)
  moreover have "buf_ok 1 alloc_example i" for i by (simp add: buf_ok_def f buf_example_def)
  ultimately have ok: "cache_ok 1 alloc_example" using buf_example_linked by (auto simp: cache_ok_def f)
  show "clocked (cache_abs 1 alloc_example) = {}" "cview (cache_abs 1 alloc_example) = disk alloc_example"
    by (simp_all add: cache_abs_def n)
  have refs: "crefs (cache_abs 1 alloc_example) b = 0" for b by (simp add: cache_abs_def n)
  have l: "log alloc_example = \<lparr>lstart = 2, lsize = 30, loutstanding = 1, lcommitting = 0, ldev = 1, lh_n = 0, lh_block = replicate LOGSIZE 0\<rparr>"
    by (simp add: alloc_example_def write_example_def file_example_def fs_example_defs log_example_fields)
  show "in_op 1 alloc_example 2"
    unfolding in_op_def log_holds_def by (intro conjI exI [of _ 0]) (simp_all add: ok refs l NBUF_def LOGSIZE_def)
  show "sb_size (sb alloc_example) = 40" "sb_bmapstart (sb alloc_example) = 45"
    by (simp_all add: alloc_example_def write_example_def file_example_def fs_example_defs)
qed

lemma balloc_correct_witness: "\<exists>t. balloc 1 alloc_example = Ret 8 t \<and> cview (cache_abs 1 t) 8 = replicate BSIZE 0"
proof -
  let ?u = "used (cache_abs 1 alloc_example) (sb alloc_example)"
  have b: "BBLOCK (of_nat m) (sb alloc_example) = 45" if "m < 40" for m
    using that BBLOCK_nat [of m "sb alloc_example"] by (simp add: alloc_example_ok BPB_val(1))
  have u: "?u m \<longleftrightarrow> m < 8" if "m < 40" for m
  proof -
    have "disk alloc_example 45 ! (m div 8) = (if m < 8 then - 1 else 0)"
      using that by (cases "m < 8") (auto simp: alloc_example_def nth_Cons' BSIZE_def)
    then show ?thesis using that b [OF that] by (simp add: used_def alloc_example_ok bmap_bit_iff BPB_val(1))
  qed
  have "find (\<lambda>n. \<not> ?u n) [0..<40] = Some 8" using u by (auto simp: find_Some_iff intro!: exI [of _ 8])
  moreover have "of_nat n \<noteq> (45 :: u32)" if "n < 40" for n
  proof
    assume "of_nat n = (45 :: u32)"
    then have "unat (of_nat n :: u32) = 45" by simp
    then show False using unat_of_nat_32 [of n] that by simp
  qed
  ultimately show ?thesis using balloc_correct [OF alloc_example_ok(1), of 40] b by (simp add: alloc_example_ok) blast
qed

end
