(* ===== verification/Directory.thy ===== *)
theory Directory
  imports Blockalloc
begin

text \<open>
  Directories as maps from names to inode numbers: what \<open>dirlookup\<close> and \<open>dirlink\<close> of \<open>kernel/fs.c\<close> find and add in the contents of
  a directory.
\<close>

section \<open>Entries\<close>

lemma namecmp_eq: "namecmp p q = 0 \<longleftrightarrow> cstr p DIRSIZ = cstr q DIRSIZ"
  by (simp add: namecmp_def strncmp_correct)

lemma dirent_fields:
  "length (dirent n nm) = 16" "de_inum (dirent n nm) = n" "cstr (de_name (dirent n nm)) DIRSIZ = cstr nm DIRSIZ"
proof -
  show "length (dirent n nm) = 16" by (simp add: dirent_def DIRSIZ_def)
  show "de_inum (dirent n nm) = n" by (simp add: dirent_def de_inum_def get16_def)
  show "cstr (de_name (dirent n nm)) DIRSIZ = cstr nm DIRSIZ"
    unfolding cstr_def by (rule cstr_from_cong) (simp add: de_name_def dirent_def nth_append)
qed

text \<open>The inode number that the directory has for a name, if any: the map that a directory is.\<close>

definition dir_map :: "u8 list \<Rightarrow> cobj \<Rightarrow> (nat \<times> u16) option" where
  "dir_map c nm = map_option (\<lambda>k. (k, de_inum (dir_entry c k))) (dir_find c nm [0..<length c div 16])"

text \<open>The place of a new entry: the first empty one, or the end.\<close>

definition dir_slot :: "u8 list \<Rightarrow> nat" where
  "dir_slot c = (case find (\<lambda>k. de_inum (dir_entry c k) = 0) [0..<length c div 16] of Some k \<Rightarrow> k | None \<Rightarrow> length c div 16)"

lemma dir_slot_facts:
  "dir_slot c \<le> length c div 16" "dir_slot c < length c div 16 \<Longrightarrow> de_inum (dir_entry c (dir_slot c)) = 0"
proof (atomize (full), cases "find (\<lambda>k. de_inum (dir_entry c k) = 0) [0..<length c div 16]")
  case (Some k)
  then have "k < length c div 16" "de_inum (dir_entry c k) = 0" by (auto simp: find_Some_iff)
  then show "dir_slot c \<le> length c div 16 \<and> (dir_slot c < length c div 16 \<longrightarrow> de_inum (dir_entry c (dir_slot c)) = 0)"
    using Some by (simp add: dir_slot_def)
qed (simp add: dir_slot_def)

lemma spliced_entry:
  assumes "16 * k \<le> length c" "length e = 16" "16 * j + 16 \<le> max (length c) (16 * k + 16)" "16 dvd length c"
  shows "dir_entry (take (16 * k) c @ e @ drop (16 * k + 16) c) j = (if j = k then e else dir_entry c j)"
proof (rule nth_equalityI)
  let ?c = "take (16 * k) c @ e @ drop (16 * k + 16) c"
  have l: "length ?c = max (length c) (16 * k + 16)" using assms(1,2) by auto
  have j: "j = k \<or> j < k \<and> 16 * j + 16 \<le> 16 * k \<or> k < j \<and> 16 * k + 16 \<le> 16 * j" by linarith
  have b: "j \<noteq> k \<Longrightarrow> 16 * j + 16 \<le> length c" using assms(1,3) j by linarith
  have len: "length (dir_entry x j) = 16" and nth: "i < 16 \<Longrightarrow> dir_entry x j ! i = x ! (16 * j + i)" if "16 * j + 16 \<le> length x" for x i
    using that by (simp_all add: dir_entry_def)
  have fit: "16 * j + 16 \<le> length ?c" using l assms(3) by simp
  show "length (dir_entry ?c j) = length (if j = k then e else dir_entry c j)"
    using len [OF fit] len [of c] b assms(2) by simp
  fix i assume "i < length (dir_entry ?c j)"
  then have i: "i < 16" using len [OF fit] by simp
  have "?c ! (16 * j + i) = (if j = k then e ! i else c ! (16 * j + i))"
    using i j assms(1,2) b by (auto simp: nth_append)
  then show "dir_entry ?c j ! i = (if j = k then e else dir_entry c j) ! i" using nth [OF fit i] nth [of c i] i b by auto
qed

lemma find_first: "P k \<Longrightarrow> k < n \<Longrightarrow> (\<And>j. j < k \<Longrightarrow> \<not> P j) \<Longrightarrow> find P [0..<n] = Some k"
  by (auto simp: find_Some_iff intro!: exI [of _ k])

text \<open>Adding an entry for a new name extends the map at that name only.\<close>

lemma dir_map_link:
  assumes c: "16 dvd length c" and n: "n \<noteq> 0" and new: "dir_map c nm = None" and e: "length e = 16" "de_inum e = n" "cstr (de_name e) DIRSIZ = cstr nm DIRSIZ"
  defines "c' \<equiv> take (16 * dir_slot c) c @ e @ drop (16 * dir_slot c + 16) c"
  shows "dir_map c' nm' = (if cstr nm' DIRSIZ = cstr nm DIRSIZ then Some (dir_slot c, n) else dir_map c nm')"
proof -
  let ?k = "dir_slot c" and ?n = "length c div 16"
  let ?P = "\<lambda>c nm k. de_inum (dir_entry c k) \<noteq> 0 \<and> namecmp nm (de_name (dir_entry c k)) = 0"
  note k = dir_slot_facts [of c]
  have l: "16 * ?k \<le> length c" "length c' = max (length c) (16 * ?k + 16)" using k(1) c e(1) by (auto simp: c'_def)
  have n': "length c' div 16 = max ?n (Suc ?k)" using l(2) c by (auto elim!: dvdE simp: max_def)
  have ent: "dir_entry c' j = (if j = ?k then e else dir_entry c j)" if "j < max ?n (Suc ?k)" for j
    unfolding c'_def by (rule spliced_entry [OF l(1) e(1) _ c]) (use that c in \<open>auto elim!: dvdE simp: max_def split: if_splits\<close>)
  have P': "?P c' nm' j \<longleftrightarrow> (if j = ?k then cstr nm' DIRSIZ = cstr nm DIRSIZ else ?P c nm' j)" if "j < max ?n (Suc ?k)" for j
    using ent [OF that] e n by (simp add: namecmp_eq)
  have none: "\<not> ?P c nm j" if "j < ?n" for j using new that by (auto simp: dir_map_def dir_find_def find_None_iff)
  show ?thesis
  proof (cases "cstr nm' DIRSIZ = cstr nm DIRSIZ")
    case True
    have "find (?P c' nm') [0..<max ?n (Suc ?k)] = Some ?k"
    proof (rule find_first)
      show "?P c' nm' ?k" using P' [of ?k] True by simp
      show "\<not> ?P c' nm' j" if "j < ?k" for j using P' [of j] none [of j] k(1) that True by (simp add: namecmp_eq)
    qed simp
    then show ?thesis using True ent [of ?k] e(2) by (simp add: dir_map_def dir_find_def n')
  next
    case False
    have old: "\<not> ?P c nm' ?k" if "?k < ?n" using k(2) [OF that] by simp
    have "find (?P c' nm') [0..<max ?n (Suc ?k)] = find (?P c nm') [0..<?n]"
    proof (cases "?k < ?n")
      case True
      then have "max ?n (Suc ?k) = ?n" by simp
      then show ?thesis using P' False old [OF True] by (simp only:) (rule find_cong_set, auto)
    next
      case app: False
      then have m: "?k = ?n" "max ?n (Suc ?k) = Suc ?n" using k(1) by auto
      have "find (?P c' nm') [0..<?n] = find (?P c nm') [0..<?n]" by (rule find_cong_set) (use P' m in auto)
      moreover have "\<not> ?P c' nm' ?n" using P' [of ?n] False m by simp
      ultimately show ?thesis using m(2) by (auto simp: find_append split: option.splits)
    qed
    then have f: "dir_find c' nm' [0..<length c' div 16] = dir_find c nm' [0..<?n]" by (simp add: dir_find_def n')
    have "de_inum (dir_entry c' j) = de_inum (dir_entry c j)" if "dir_find c nm' [0..<?n] = Some j" for j
      using that ent [of j] old by (auto simp: dir_find_def find_Some_iff)
    then show ?thesis using False f by (cases "dir_find c nm' [0..<?n]") (simp_all add: dir_map_def)
  qed
qed


section \<open>The search for a place\<close>

lemma can_write_same:
  assumes "same_cache d s t" "can_write d s ip off n"
  shows "can_write d t ip off n"
  using assms(2) in_op_same [OF assms(1)] same_cacheD [OF assms(1)] by (simp add: can_write_def Let_def)

lemma has_blocks_less: "has_blocks A r n \<Longrightarrow> m \<le> n \<Longrightarrow> has_blocks A r m"
  by (auto simp: has_blocks_def)

lemma can_write_less:
  assumes "can_write d s ip off n" "rounds off' n' = rounds off n" "off' + n' \<le> off + n"
  shows "can_write d s ip off' n'"
proof -
  note c = can_writeD [OF assms(1)]
  have m: "max (off' + n') (unat (isize (itable s ip))) \<le> max (off + n) (unat (isize (itable s ip)))" using assms(3) by simp
  have "separate (cache_abs d s) (itable s ip) (max (off' + n') (unat (isize (itable s ip))))"
    using c(4) less_le_trans [OF _ m] unfolding separate_def by blast
  then show ?thesis using c assms(2) has_blocks_less [OF c(3) m] less_le_trans [OF _ m] by (simp add: can_write_def Let_def)
qed

lemma dirlink_loop_run:
  fixes s :: "'z fs_state_scheme"
  assumes "cache_ok d s" "room (cache_abs d s)" "idev (itable s dp) = d"
    "has_blocks (cache_abs d s) (itable s dp) (unat (isize (itable s dp)))"
    "n = unat (isize (itable s dp)) div 16" "j \<le> n"
  shows "\<exists>t. same_cache d s t \<and> dirlink_loop dp (16 * j) (map (\<lambda>k. 16 * k) [j..<n]) s =
    Ret (16 * (case find (\<lambda>k. de_inum (dir_entry (contents (cache_abs d s) (itable s dp)) k) = 0) [j..<n] of Some k \<Rightarrow> k | None \<Rightarrow> n)) t"
  using assms
proof (induction "n - j" arbitrary: j s)
  case 0
  then show ?case using same_cache_refl [of d s] by auto
next
  case (Suc m)
  let ?c = "contents (cache_abs d s) (itable s dp)"
  have j: "j < n" "[j..<n] = j # [Suc j..<n]" using Suc.hyps(2) by (simp_all add: upt_conv_Cons)
  have "length ?c = unat (isize (itable s dp))" by (simp add: contents_def)
  then have e: "read_range ?c (of_nat (16 * j)) 16 = dir_entry ?c j" "length (dir_entry ?c j) = 16"
    using read_entry [of j ?c] j(1) Suc.prems(5) unat_lt_32 [of "isize (itable s dp)"] by simp_all
  obtain t where t: "readi dp DLocal (of_nat (16 * j)) 16 s = Ret (16, dir_entry ?c j) t" "same_cache d s t"
    by (rule readi_local [OF Suc.prems(1-4), of "of_nat (16 * j)" 16]) (simp add: e del: of_nat_mult)
  note st = same_cacheD [OF t(2)]
  show ?case
  proof (cases "de_inum (dir_entry ?c j) = 0")
    case True
    then show ?thesis using t j(2) by (auto simp: bindp_apply simp del: of_nat_mult)
  next
    case False
    have "m = n - Suc j" "Suc j \<le> n" using Suc.hyps(2) by simp_all
    from Suc.hyps(1) [OF this(1), of t, unfolded st(2,3), OF st(1) Suc.prems(2-5) this(2)]
    obtain u where u: "same_cache d t u" "dirlink_loop dp (16 * Suc j) (map (\<lambda>k. 16 * k) [Suc j..<n]) t =
        Ret (16 * (case find (\<lambda>k. de_inum (dir_entry ?c k) = 0) [Suc j..<n] of Some k \<Rightarrow> k | None \<Rightarrow> n)) u" by blast
    have "16 * j + 16 = 16 * Suc j" by simp
    then have "dirlink_loop dp (16 * j) (map (\<lambda>k. 16 * k) [j..<n]) s = dirlink_loop dp (16 * Suc j) (map (\<lambda>k. 16 * k) [Suc j..<n]) t"
      using t(1) j(2) False by (simp add: bindp_apply add.commute del: of_nat_mult)
    then show ?thesis using u j(2) False same_cache_trans [OF t(2) u(1)] by auto
  qed
qed

section \<open>What a directory promises\<close>

lemma dirlookup_map:
  fixes s :: "'z fs_state_scheme"
  assumes "cache_ok d s" "room (cache_abs d s)" "idev (itable s dp) = d"
    "has_blocks (cache_abs d s) (itable s dp) (unat (isize (itable s dp)))" "itype (itable s dp) = T_DIR" "16 dvd unat (isize (itable s dp))"
  shows "\<exists>t. same_cache d s t \<and> dirlookup dp nm s = (case dir_map (contents (cache_abs d s) (itable s dp)) nm of None \<Rightarrow> Ret None t
    | Some (k, i) \<Rightarrow> bindp (iget d (ucast i)) (\<lambda>ip. ret (Some (ip, 16 * k))) t)"
proof -
  let ?c = "contents (cache_abs d s) (itable s dp)"
  have "length ?c = unat (isize (itable s dp))" by (simp add: contents_def)
  then show ?thesis using dirlookup_run [OF assms, of nm]
    by (cases "dir_find ?c nm [0..<length ?c div 16]") (simp_all add: dir_map_def)
qed

text \<open>C4: \<open>dirlink\<close> of a new name inside an operation of the log that may write the entry. A directory is a map from names (the C strings
  of at most 14 bytes) to places and inode numbers, which \<open>dirlookup\<close> reads. The call returns 0, and the map has the new name at the
  first empty place, or at the end, and is the same for all other names. The inode in its block is up to date, the other inodes
  and the disk are as before.\<close>

theorem dirlink_correct:
  fixes s :: "'z fs_state_scheme"
  assumes cw: "can_write d s dp (16 * k) 16" and k: "k = dir_slot (contents (cache_abs d s) (itable s dp))" "16 * k + 16 \<le> MAXFILE * BSIZE"
    and dir: "itype (itable s dp) = T_DIR" "16 dvd unat (isize (itable s dp))"
    and new: "dir_map (contents (cache_abs d s) (itable s dp)) nm = None" and n: "(ucast n :: u16) \<noteq> 0"
  shows "\<exists>t. dirlink dp nm n s = Ret 0 t \<and> in_op d t 0 \<and> inode_stored d t dp \<and>
    (\<forall>nm'. dir_map (contents (cache_abs d t) (itable t dp)) nm' = (if cstr nm' DIRSIZ = cstr nm DIRSIZ then Some (k, ucast n)
       else dir_map (contents (cache_abs d s) (itable s dp)) nm')) \<and>
    (\<forall>ip. ip \<noteq> dp \<longrightarrow> itable t ip = itable s ip) \<and> cdisk (cache_abs d t) = cdisk (cache_abs d s) \<and> cwrites (cache_abs d t) = cwrites (cache_abs d s)"
proof -
  let ?c = "contents (cache_abs d s) (itable s dp)" and ?z = "unat (isize (itable s dp))"
  let ?e = "dirent (ucast n) (strncpy (\<lambda>_. 0) nm (int DIRSIZ))"
  note c = can_writeD [OF cw]
  have l: "length ?c = ?z" by (simp add: contents_def)
  have ok: "cache_ok d s" "room (cache_abs d s)" using in_op_room [of d s] c(1) by simp_all
  have hb: "has_blocks (cache_abs d s) (itable s dp) ?z" by (rule has_blocks_less [OF c(3)]) simp
  obtain t where t: "same_cache d s t" "dirlookup dp nm s = Ret None t"
    using dirlookup_map [OF ok c(2) hb dir, of nm] new by auto
  note st = same_cacheD [OF t(1)]
  have z: "(?z + 15) div 16 = ?z div 16" using dir(2) by (auto elim!: dvdE)
  obtain u where u: "same_cache d t u" "dirlink_loop dp (16 * 0) (map (\<lambda>k. 16 * k) [0..<?z div 16]) t = Ret (16 * k) u"
    using dirlink_loop_run [of d t dp "?z div 16" 0] st ok(2) c(2) hb k(1) l unfolding dir_slot_def by (auto split: option.splits)
  have su: "same_cache d s u" by (rule same_cache_trans [OF t(1) u(1)])
  note ss = same_cacheD [OF su]
  have k32: "unat (of_nat (16 * k) :: u32) = 16 * k"
    using k(2) by (intro unat_of_nat_32) (simp add: MAXFILE_def NDIRECT_def NINDIRECT_def BSIZE_def)
  have e: "length ?e = 16" "de_inum ?e = ucast n" "cstr (de_name ?e) DIRSIZ = cstr nm DIRSIZ"
    using dirent_fields cstr_from_strncpy_loop [of "\<lambda>_. 0" nm 0 DIRSIZ] by (simp_all add: strncpy_def cstr_def)
  have ks: "16 * k \<le> ?z" using dir_slot_facts(1) [of ?c] l k(1) by simp
  have cw': "can_write d u dp (unat (of_nat (16 * k) :: u32)) (unat (16 :: u32))" using can_write_same [OF su cw] unfolding k32 by simp
  obtain v where v: "writei dp (SLocal ?e) (of_nat (16 * k)) 16 u = Ret (int (unat (16 :: u32))) v" "in_op d v 0" "inode_stored d v dp"
      "itable v = (itable u)(dp := grown (itable u dp) (unat (of_nat (16 * k) :: u32) + unat (16 :: u32)))"
      "contents (cache_abs d v) (itable v dp) = take (16 * k) ?c @ ?e @ drop (16 * k + 16) ?c"
      "cdisk (cache_abs d v) = cdisk (cache_abs d u)" "cwrites (cache_abs d v) = cwrites (cache_abs d u)"
    using writei_run [OF cw', of "SLocal ?e" ?e] e(1) ks k(2) ss(2,3) unfolding k32 by (simp del: of_nat_mult) blast
  have "dirlink dp nm n s = Ret 0 v"
    using t(2) u(2) v(1) st(3) z by (simp add: dirlink_def bindp_apply geti_def dir_offsets_def del: of_nat_mult)
  moreover have "dir_map (contents (cache_abs d v) (itable v dp)) nm' = (if cstr nm' DIRSIZ = cstr nm DIRSIZ then Some (k, ucast n)
       else dir_map ?c nm')" for nm'
    unfolding v(5) using dir_map_link [of ?c "ucast n" nm ?e nm'] dir(2) l n new e k(1) by simp
  ultimately show ?thesis using v(2,3,4,6,7) ss by (intro exI [of _ v]) simp
qed

lemma dirlink_correct_witness:
  "\<exists>t. dirlink 0 (\<lambda>i. if i = 0 then 97 else 0) 5 write_example = Ret 0 t \<and>
     dir_map (contents (cache_abs 1 t) (itable t 0)) (\<lambda>i. if i = 0 then 97 else 0) = Some (0, 5)"
proof -
  let ?c = "contents (cache_abs 1 write_example) (itable write_example 0)"
  have z: "unat (isize (itable write_example 0)) = 32" "itype (itable write_example 0) = T_DIR"
    by (simp_all add: write_example_def file_example_fields)
  have e: "de_inum (dir_entry ?c k) = 0" if "k < 2" for k
    using that by (simp add: write_example_ok(2) dir_entry_def de_inum_def get16_def)
  have "dir_map ?c nm = None" for nm
    using e by (auto simp: dir_map_def dir_find_def find_None_iff write_example_ok(2))
  moreover have "dir_slot ?c = 0"
    using e [of 0] by (simp add: dir_slot_def write_example_ok(2) upt_conv_Cons)
  moreover have "can_write 1 write_example 0 (16 * 0) 16"
    by (rule can_write_less [OF write_example_ok(1)]) (simp_all add: rounds_def BSIZE_def)
  ultimately show ?thesis using dirlink_correct [of 1 write_example 0 0 "\<lambda>i. if i = 0 then 97 else 0" 5] z
    by (auto simp: MAXFILE_def NDIRECT_def NINDIRECT_def BSIZE_def)
qed

end
