(* ===== verification/Ring.thy ===== *)
theory Ring
  imports Prelude
begin

text \<open>
  Ring buffers. The kernel has three, of the same build: pipes, the transmit buffer of the UART and
  the input buffer of the console keep an array and two counters that only grow, and use the
  counters modulo the size of the array as indices. The counters are unsigned machine words that
  wrap around; since the size divides the range of the word, the contents are not affected.

  The locale \<open>byte_queue\<close> is what the users of such a buffer rely on. What it gives them is that
  the bytes taken out are, in order, those put in.
\<close>

section \<open>The contents of a ring\<close>

definition ring :: "nat \<Rightarrow> (nat \<Rightarrow> u8) \<Rightarrow> 'a::len word \<Rightarrow> 'a word \<Rightarrow> u8 list" where
  "ring n d r w = map (\<lambda>i. d ((unat r + i) mod n)) [0..<unat (w - r)]"

lemma length_ring [simp]: "length (ring n d r w) = unat (w - r)"
  by (simp add: ring_def)

lemma ring_empty: "ring n d r w = [] \<longleftrightarrow> r = w"
proof -
  have "ring n d r w = [] \<longleftrightarrow> unat (w - r) = 0" by (simp add: ring_def)
  also have "\<dots> \<longleftrightarrow> r = w" by (auto simp: unat_eq_0)
  finally show ?thesis .
qed

lemma ring_full:
  fixes r w :: "'a::len word"
  assumes "n < 2 ^ LENGTH('a)"
  shows "w = r + of_nat n \<longleftrightarrow> unat (w - r) = n"
proof -
  have "w = r + of_nat n \<longleftrightarrow> w - r = of_nat n" by (auto simp: algebra_simps)
  also have "\<dots> \<longleftrightarrow> unat (w - r) = n"
    using assms by (auto simp: word_unat_eq_iff unat_of_nat take_bit_nat_eq_self)
  finally show ?thesis .
qed

lemma unat_Suc: "x \<noteq> 0 \<Longrightarrow> unat (x :: 'a::len word) = Suc (unat (x - 1))"
  by (simp add: unat_minus_one unat_gt_0)

lemma counter_mod:
  fixes r :: "'a::len word"
  assumes "n dvd 2 ^ LENGTH('a)"
  shows "unat (r + of_nat i) mod n = (unat r + i) mod n"
  using assms by (simp add: unat_word_ariths unat_of_nat mod_mod_cancel take_bit_eq_mod mod_add_right_eq)

lemma ring_pop:
  fixes r w :: "'a::len word"
  assumes "n dvd 2 ^ LENGTH('a)" and "r \<noteq> w"
  shows "ring n d r w = d (unat r mod n) # ring n d (r + 1) w"
proof -
  have "w - r \<noteq> 0" using assms(2) by auto
  then have k: "unat (w - r) = Suc (unat (w - (r + 1)))" by (simp add: unat_Suc diff_diff_eq)
  have "(unat (r + 1) + i) mod n = (unat r + Suc i) mod n" for i
    using counter_mod [OF assms(1), of "r + 1" i] counter_mod [OF assms(1), of r "Suc i"]
    by (simp add: add.assoc)
  then show ?thesis
    by (simp add: ring_def k upt_conv_Cons map_Suc_upt [symmetric] del: upt_Suc)
qed

lemma ring_push:
  fixes r w :: "'a::len word"
  assumes "n dvd 2 ^ LENGTH('a)" and "n < 2 ^ LENGTH('a)" and "unat (w - r) < n"
  shows "ring n (d(unat w mod n := c)) r (w + 1) = ring n d r w @ [c]"
    and "unat (w + 1 - r) = Suc (unat (w - r))"
proof -
  let ?k = "unat (w - r)"
  have w: "w = r + of_nat ?k" by simp
  have wk: "unat w mod n = (unat r + ?k) mod n"
    by (subst w) (rule counter_mod [OF assms(1)])
  have ne: "(unat r + i) mod n \<noteq> (unat r + ?k) mod n" if "i < ?k" for i
  proof
    assume "(unat r + i) mod n = (unat r + ?k) mod n"
    then have "n dvd (unat r + ?k) - (unat r + i)"
      by (metis mod_eq_dvd_iff_nat add_le_cancel_left less_imp_le that)
    then show False using that assms(3) by (auto dest: dvd_imp_le)
  qed
  have "Suc ?k < 2 ^ LENGTH('a)" using assms(2,3) by linarith
  then have "unat (of_nat (Suc ?k) :: 'a word) = Suc ?k"
    by (simp add: unat_of_nat take_bit_nat_eq_self del: of_nat_Suc)
  moreover have "of_nat (Suc ?k) = w + 1 - r" by simp
  ultimately show u: "unat (w + 1 - r) = Suc ?k" by (simp only:)
  show "ring n (d(unat w mod n := c)) r (w + 1) = ring n d r w @ [c]"
    using ne by (simp add: ring_def wk u)
qed

lemma ring_append:
  fixes r w e :: "'a::len word"
  assumes "n dvd 2 ^ LENGTH('a)" and "unat (w - r) + unat (e - w) < 2 ^ LENGTH('a)"
  shows "ring n d r e = ring n d r w @ ring n d w e"
proof -
  have "e - r = (w - r) + (e - w)" by simp
  then have u: "unat (e - r) = unat (w - r) + unat (e - w)"
    using assms(2) unat_add_lem [of "w - r" "e - w"] by simp
  have "w = r + of_nat (unat (w - r))" by simp
  then have k: "(unat w + i) mod n = (unat r + (unat (w - r) + i)) mod n" for i
    using counter_mod [OF assms(1), of r "unat (w - r)"]
    by (metis add.assoc mod_add_left_eq)
  show ?thesis
  proof (rule nth_equalityI)
    fix i assume i: "i < length (ring n d r e)"
    have "i - unat (w - r) < unat (e - w)" if "\<not> i < unat (w - r)" using i u that by simp
    then show "ring n d r e ! i = (ring n d r w @ ring n d w e) ! i"
      using k [of "i - unat (w - r)"] u i by (cases "i < unat (w - r)") (simp_all add: ring_def nth_append)
  qed (simp add: u)
qed

lemma ring_unpush:
  fixes w e :: "'a::len word"
  assumes "n dvd 2 ^ LENGTH('a)" and "w \<noteq> e"
  shows "ring n d w e = ring n d w (e - 1) @ [d (unat (e - 1) mod n)]"
proof -
  have e: "e - w \<noteq> 0" using assms(2) by auto
  then have "unat (e - w) = Suc (unat (e - 1 - w))" using unat_Suc [OF e] by (simp add: algebra_simps)
  moreover have "unat (e - 1) mod n = (unat w + unat (e - 1 - w)) mod n"
    using counter_mod [OF assms(1), of w "unat (e - 1 - w)"] by simp
  ultimately show ?thesis by (simp add: ring_def)
qed

section \<open>Queues of bytes\<close>

datatype queue_op = Put u8 | Get

text \<open>
  The interface of a bounded queue of bytes: \<open>ok\<close> is the invariant of the representation and
  \<open>contents\<close> the bytes in it, the next one to be taken first.
\<close>

locale byte_queue =
  fixes ok :: "'q \<Rightarrow> bool"
    and contents :: "'q \<Rightarrow> u8 list"
    and cap :: nat
    and is_full is_empty :: "'q \<Rightarrow> bool"
    and put :: "u8 \<Rightarrow> 'q \<Rightarrow> 'q"
    and first :: "'q \<Rightarrow> u8"
    and pop :: "'q \<Rightarrow> 'q"
  assumes put_contents: "ok q \<Longrightarrow> \<not> is_full q \<Longrightarrow> ok (put c q) \<and> contents (put c q) = contents q @ [c]"
    and pop_contents: "ok q \<Longrightarrow> \<not> is_empty q \<Longrightarrow> ok (pop q) \<and> contents q = first q # contents (pop q)"
    and full_iff: "ok q \<Longrightarrow> is_full q \<longleftrightarrow> length (contents q) = cap"
    and empty_iff: "ok q \<Longrightarrow> is_empty q \<longleftrightarrow> contents q = []"
    and bounded: "ok q \<Longrightarrow> length (contents q) \<le> cap"
begin

text \<open>
  A run of the queue by clients that test for full and empty. It yields the bytes put, the bytes
  got, and the queue at the end; an operation whose test fails does nothing.
\<close>

fun serve_queue :: "queue_op list \<Rightarrow> 'q \<Rightarrow> u8 list \<times> u8 list \<times> 'q" where
  "serve_queue [] q = ([], [], q)"
| "serve_queue (Put c # ops) q =
     (if is_full q then serve_queue ops q
      else case serve_queue ops (put c q) of (ps, gs, q') \<Rightarrow> (c # ps, gs, q'))"
| "serve_queue (Get # ops) q =
     (if is_empty q then serve_queue ops q
      else case serve_queue ops (pop q) of (ps, gs, q') \<Rightarrow> (ps, first q # gs, q'))"

text \<open>First in, first out: nothing is lost, duplicated or reordered.\<close>

lemma fifo:
  assumes "ok q" and "serve_queue ops q = (ps, gs, q')"
  shows "ok q'" and "contents q @ ps = gs @ contents q'"
proof -
  have "ok q' \<and> contents q @ ps = gs @ contents q'"
    using assms
  proof (induction ops arbitrary: q ps gs)
    case Nil
    then show ?case by simp
  next
    case (Cons op ops)
    show ?case
    proof (cases op)
      case (Put c)
      show ?thesis
      proof (cases "is_full q")
        case True
        then show ?thesis using Cons Put by simp
      next
        case False
        then obtain ps' where "serve_queue ops (put c q) = (ps', gs, q')" "ps = c # ps'"
          using Cons.prems Put by (auto split: prod.splits)
        then show ?thesis
          using Cons.IH [of "put c q"] put_contents [OF Cons.prems(1) False, of c] by simp
      qed
    next
      case Get
      show ?thesis
      proof (cases "is_empty q")
        case True
        then show ?thesis using Cons Get by simp
      next
        case False
        then obtain gs' where "serve_queue ops (pop q) = (ps, gs', q')" "gs = first q # gs'"
          using Cons.prems Get by (auto split: prod.splits)
        then show ?thesis
          using Cons.IH [of "pop q"] pop_contents [OF Cons.prems(1) False] by simp
      qed
    qed
  qed
  then show "ok q'" "contents q @ ps = gs @ contents q'" by simp_all
qed

text \<open>Room for \<open>k\<close> more bytes, and what is there after \<open>k\<close> bytes are put or taken.\<close>

lemma puts_contents:
  assumes "ok q" and "length (contents q) + length cs \<le> cap"
  shows "ok (fold put cs q) \<and> contents (fold put cs q) = contents q @ cs"
  using assms
proof (induction cs arbitrary: q)
  case Nil
  then show ?case by simp
next
  case (Cons c cs)
  then have "\<not> is_full q" by (simp add: full_iff)
  then show ?case using Cons.IH [of "put c q"] Cons.prems put_contents [of q c] by simp
qed

lemma pops_contents:
  assumes "ok q" and "k \<le> length (contents q)"
  shows "ok ((pop ^^ k) q) \<and> contents ((pop ^^ k) q) = drop k (contents q)"
  using assms
proof (induction k)
  case 0
  then show ?case by simp
next
  case (Suc k)
  then have "\<not> is_empty ((pop ^^ k) q)" by (auto simp: empty_iff)
  then show ?case
    using Suc pop_contents [of "(pop ^^ k) q"] by (simp add: drop_Suc tl_drop [symmetric])
qed

end

end
