(* ===== verification/File.thy ===== *)
theory File
  imports Fs Ring
begin

text \<open>
  \<open>kernel/pipe.c\<close> and \<open>kernel/file.c\<close>: pipes, the table of open files and the operations on
  them. A \<open>struct file *\<close> is an index into \<open>ftable\<close>. A pipe lives in a page of its own; \<open>pipes\<close>
  gives the struct in each such page, by the address of the page.

  The C struct \<open>stat\<close> has four bytes of padding before its last field. \<open>filestat\<close> copies them to
  the user with the rest of the struct, uninitialised: \<open>stack_pad\<close> is what they hold.
\<close>

definition PIPESIZE :: nat where "PIPESIZE = 512"
definition NFILE :: nat where "NFILE = 100"
definition NOFILE :: nat where "NOFILE = 16"
definition NDEV :: int where "NDEV = 10"
definition CONSOLE :: u16 where "CONSOLE = 1"

record pipe =
  pdata :: "nat \<Rightarrow> u8"
  nread :: u32
  nwrite :: u32
  readopen :: u32
  writeopen :: u32

datatype fdtype = FD_NONE | FD_PIPE | FD_INODE | FD_DEVICE

record fstruct =
  ftype :: fdtype
  fref :: u32
  freadable :: u8
  fwritable :: u8
  fpipe :: u64
  fip :: "nat option"
  foff :: u32
  fmajor :: u16

record file_state = fs_state +
  ftable :: "nat \<Rightarrow> fstruct"
  pipes :: "u64 \<Rightarrow> pipe"
  stack_pad :: u32

definition getf :: "nat \<Rightarrow> (fstruct \<Rightarrow> 'a) \<Rightarrow> ('z file_state_scheme, 'a) prog" where
  "getf f g = gets (\<lambda>s. g (ftable s f))"

definition setf :: "nat \<Rightarrow> (fstruct \<Rightarrow> fstruct) \<Rightarrow> ('z file_state_scheme, unit) prog" where
  "setf f g = modify (\<lambda>s. s\<lparr>ftable := (ftable s)(f := g (ftable s f))\<rparr>)"

definition getpipe :: "u64 \<Rightarrow> (pipe \<Rightarrow> 'a) \<Rightarrow> ('z file_state_scheme, 'a) prog" where
  "getpipe pi g = gets (\<lambda>s. g (pipes s pi))"

definition setpipe :: "u64 \<Rightarrow> (pipe \<Rightarrow> pipe) \<Rightarrow> ('z file_state_scheme, unit) prog" where
  "setpipe pi g = modify (\<lambda>s. s\<lparr>pipes := (pipes s)(pi := g (pipes s pi))\<rparr>)"

text \<open>Using a pointer that may be null: \<open>msg\<close> is the panic that a null pointer leads to.\<close>

definition deref :: "string \<Rightarrow> nat option \<Rightarrow> (nat \<Rightarrow> ('s, 'a) prog) \<Rightarrow> ('s, 'a) prog" where
  "deref msg p f = (case p of None \<Rightarrow> panic msg | Some i \<Rightarrow> f i)"

section \<open>Pipes\<close>

definition pipeclose :: "u64 \<Rightarrow> bool \<Rightarrow> ('z file_state_scheme, unit) prog" where
  "pipeclose pi writable =
     block
      [lock_acquire (LPipe pi),
       if writable
       then seqp (setpipe pi (\<lambda>p. p\<lparr>writeopen := 0\<rparr>)) (wakeup (ChPipeRead pi))
       else seqp (setpipe pi (\<lambda>p. p\<lparr>readopen := 0\<rparr>)) (wakeup (ChPipeWrite pi)),
       bindp (getpipe pi (\<lambda>p. readopen p = 0 \<and> writeopen p = 0)) (\<lambda>done.
         seqp (lock_release (LPipe pi)) (whenp done (kfree pi)))]"

text \<open>The end of \<open>pipewrite\<close> and of \<open>piperead\<close>, with \<open>i\<close> bytes transferred.\<close>

definition pipe_done :: "chan \<Rightarrow> u64 \<Rightarrow> nat \<Rightarrow> ('z file_state_scheme, int) prog" where
  "pipe_done ch pi i = seqp (wakeup ch) (seqp (lock_release (LPipe pi)) (ret (int i)))"

definition pipe_put :: "u8 \<Rightarrow> pipe \<Rightarrow> pipe" where
  "pipe_put c p = p\<lparr>pdata := (pdata p)(unat (nwrite p) mod PIPESIZE := c), nwrite := nwrite p + 1\<rparr>"

definition pipe_full :: "pipe \<Rightarrow> bool" where
  "pipe_full p = (nwrite p = nread p + of_nat PIPESIZE)"

text \<open>The loop of \<open>pipewrite\<close> with \<open>i\<close> bytes written and \<open>k\<close> to go.\<close>

primrec pipewrite_loop :: "nat \<Rightarrow> nat \<Rightarrow> u64 \<Rightarrow> u64 \<Rightarrow> nat \<Rightarrow> ('z file_state_scheme, int) prog" where
  "pipewrite_loop 0 pr pi addr i = pipe_done (ChPipeRead pi) pi i"
| "pipewrite_loop (Suc k) pr pi addr i =
     bindp (getpipe pi readopen) (\<lambda>o'.
     bindp (if o' = 0 then ret 1 else killed pr) (\<lambda>d.
     if d \<noteq> 0 then seqp (lock_release (LPipe pi)) (ret (- 1)) else
     bindp (getpipe pi pipe_full) (\<lambda>full.
     if full then seqp (wakeup (ChPipeRead pi)) (sleep (ChPipeWrite pi) (LPipe pi))
     else
     bindp (getp pr pagetable) (\<lambda>pt.
     bindp (copyin pt (addr + of_nat i) 1) (\<lambda>(r, c).
     if r = - 1 then pipe_done (ChPipeRead pi) pi i
     else seqp (setpipe pi (pipe_put (hd c))) (pipewrite_loop k pr pi addr (Suc i)))))))"

definition pipewrite :: "u64 \<Rightarrow> u64 \<Rightarrow> u32 \<Rightarrow> ('z file_state_scheme, int) prog" where
  "pipewrite pi addr n =
     with_proc (\<lambda>pr.
     seqp (lock_acquire (LPipe pi)) (pipewrite_loop (nat (sint n)) pr pi addr 0))"

definition pipewrite_resume :: "nat \<Rightarrow> u64 \<Rightarrow> u64 \<Rightarrow> nat \<Rightarrow> ('z file_state_scheme, int) prog" where
  "pipewrite_resume k pi addr i =
     with_proc (\<lambda>pr. seqp (sleep_resume (LPipe pi)) (pipewrite_loop k pr pi addr i))"

definition pipe_empty :: "pipe \<Rightarrow> bool" where
  "pipe_empty p = (nread p = nwrite p)"

definition pipe_first :: "pipe \<Rightarrow> u8" where
  "pipe_first p = pdata p (unat (nread p) mod PIPESIZE)"

definition pipe_take :: "pipe \<Rightarrow> pipe" where
  "pipe_take p = p\<lparr>nread := nread p + 1\<rparr>"

text \<open>The copy loop of \<open>piperead\<close> with \<open>i\<close> bytes read and \<open>k\<close> still wanted.\<close>

primrec piperead_copy :: "nat \<Rightarrow> nat \<Rightarrow> u64 \<Rightarrow> u64 \<Rightarrow> nat \<Rightarrow> ('z file_state_scheme, int) prog" where
  "piperead_copy 0 pr pi addr i = pipe_done (ChPipeWrite pi) pi i"
| "piperead_copy (Suc k) pr pi addr i =
     bindp (getpipe pi id) (\<lambda>p.
     if pipe_empty p then pipe_done (ChPipeWrite pi) pi i else
     seqp (setpipe pi pipe_take) (
     bindp (getp pr pagetable) (\<lambda>pt.
     bindp (copyout pt (addr + of_nat i) [pipe_first p]) (\<lambda>r.
     if r = - 1 then pipe_done (ChPipeWrite pi) pi i
     else piperead_copy k pr pi addr (Suc i)))))"

definition piperead_loop :: "nat \<Rightarrow> nat \<Rightarrow> u64 \<Rightarrow> u64 \<Rightarrow> ('z file_state_scheme, int) prog" where
  "piperead_loop k pr pi addr =
     bindp (getpipe pi (\<lambda>p. pipe_empty p \<and> writeopen p \<noteq> 0)) (\<lambda>wait.
     if wait then
       bindp (killed pr) (\<lambda>d.
       if d \<noteq> 0 then seqp (lock_release (LPipe pi)) (ret (- 1))
       else sleep (ChPipeRead pi) (LPipe pi))
     else piperead_copy k pr pi addr 0)"

definition piperead :: "u64 \<Rightarrow> u64 \<Rightarrow> u32 \<Rightarrow> ('z file_state_scheme, int) prog" where
  "piperead pi addr n =
     with_proc (\<lambda>pr.
     seqp (lock_acquire (LPipe pi)) (piperead_loop (nat (sint n)) pr pi addr))"

definition piperead_resume :: "u64 \<Rightarrow> u64 \<Rightarrow> u32 \<Rightarrow> ('z file_state_scheme, int) prog" where
  "piperead_resume pi addr n =
     with_proc (\<lambda>pr. seqp (sleep_resume (LPipe pi)) (piperead_loop (nat (sint n)) pr pi addr))"

section \<open>The file table\<close>

definition fileinit :: "('z file_state_scheme, unit) prog" where
  "fileinit = lock_init LFtable"

fun filealloc_loop :: "nat list \<Rightarrow> ('z file_state_scheme, nat option) prog" where
  "filealloc_loop [] = seqp (lock_release LFtable) (ret None)"
| "filealloc_loop (f # fs) =
     bindp (getf f fref) (\<lambda>n.
     if n = 0 then
       seqp (setf f (\<lambda>r. r\<lparr>fref := 1\<rparr>)) (seqp (lock_release LFtable) (ret (Some f)))
     else filealloc_loop fs)"

definition filealloc :: "('z file_state_scheme, nat option) prog" where
  "filealloc = seqp (lock_acquire LFtable) (filealloc_loop [0..<NFILE])"

definition filedup :: "nat \<Rightarrow> ('z file_state_scheme, nat) prog" where
  "filedup f =
     seqp (lock_acquire LFtable) (
     bindp (getf f fref) (\<lambda>n.
     if sint n < 1 then panic ''filedup'' else
     seqp (setf f (\<lambda>r. r\<lparr>fref := fref r + 1\<rparr>)) (
     seqp (lock_release LFtable) (
     ret f))))"

definition fileclose :: "nat \<Rightarrow> ('z file_state_scheme, unit) prog" where
  "fileclose f =
     seqp (lock_acquire LFtable) (
     bindp (getf f fref) (\<lambda>n.
     if sint n < 1 then panic ''fileclose'' else
     seqp (setf f (\<lambda>r. r\<lparr>fref := fref r - 1\<rparr>)) (
     bindp (getf f id) (\<lambda>ff.
     if sint (fref ff) > 0 then lock_release LFtable else
     block
      [setf f (\<lambda>r. r\<lparr>fref := 0, ftype := FD_NONE\<rparr>),
       lock_release LFtable,
       if ftype ff = FD_PIPE then pipeclose (fpipe ff) (fwritable ff \<noteq> 0)
       else whenp (ftype ff = FD_INODE \<or> ftype ff = FD_DEVICE)
         (block
           [begin_op,
            deref ''kerneltrap'' (fip ff) iput,
            end_op])]))))"

definition stat_bytes :: "u32 \<Rightarrow> stat \<Rightarrow> u8 list" where
  "stat_bytes pad st =
     le_bytes 4 (st_dev st) @ le_bytes 4 (st_ino st) @ le_bytes 2 (st_type st) @
     le_bytes 2 (st_nlink st) @ le_bytes 4 pad @ le_bytes 8 (st_size st)"

definition filestat :: "nat \<Rightarrow> u64 \<Rightarrow> ('z file_state_scheme, int) prog" where
  "filestat f addr =
     with_proc (\<lambda>i.
     bindp (getf f id) (\<lambda>ff.
     if ftype ff = FD_INODE \<or> ftype ff = FD_DEVICE then
       deref ''ilock'' (fip ff) (\<lambda>ip.
       seqp (ilock ip) (
       bindp (stati ip) (\<lambda>st.
       seqp (iunlock ip) (
       bindp (getp i pagetable) (\<lambda>pt.
       bindp (gets stack_pad) (\<lambda>pad.
       bindp (copyout pt addr (stat_bytes pad st)) (\<lambda>r.
       if r < 0 then ret (- 1) else ret 0)))))))
     else ret (- 1)))"

text \<open>\<open>devsw[major]\<close> has functions for the console once \<open>consoleinit\<close> has run, and for no other device.\<close>

definition has_dev :: "u16 \<Rightarrow> ('z file_state_scheme, bool) prog" where
  "has_dev mj = gets (\<lambda>s. \<not> (sint mj < 0 \<or> sint mj \<ge> NDEV) \<and> mj = CONSOLE \<and> console_dev s)"

definition fileread :: "nat \<Rightarrow> u64 \<Rightarrow> u32 \<Rightarrow> ('z file_state_scheme, int) prog" where
  "fileread f addr n =
     bindp (getf f id) (\<lambda>ff.
     if freadable ff = 0 then ret (- 1) else
     case ftype ff of
       FD_PIPE \<Rightarrow> piperead (fpipe ff) addr n
     | FD_DEVICE \<Rightarrow>
         bindp (has_dev (fmajor ff)) (\<lambda>h.
         if \<not> h then ret (- 1) else consoleread True addr n)
     | FD_INODE \<Rightarrow>
         deref ''ilock'' (fip ff) (\<lambda>ip.
         seqp (ilock ip) (
         bindp (getf f foff) (\<lambda>off.
         bindp (readi ip (DUser addr) off n) (\<lambda>(r, _).
         seqp (whenp (r > 0) (setf f (\<lambda>q. q\<lparr>foff := foff q + of_int r\<rparr>))) (
         seqp (iunlock ip) (
         ret r))))))
     | FD_NONE \<Rightarrow> panic ''fileread'')"

definition MAXWRITE :: nat where
  "MAXWRITE = ((MAXOPBLOCKS - 1 - 1 - 2) div 2) * BSIZE"

text \<open>One round of the loop of \<open>filewrite\<close>: one transaction that writes \<open>n1\<close> bytes.\<close>

definition filewrite_chunk :: "nat \<Rightarrow> nat \<Rightarrow> u64 \<Rightarrow> nat \<Rightarrow> ('z file_state_scheme, int) prog" where
  "filewrite_chunk f ip addr n1 =
     seqp begin_op (
     seqp (ilock ip) (
     bindp (getf f foff) (\<lambda>off.
     bindp (writei ip (SUser addr) off (of_nat n1)) (\<lambda>r.
     seqp (whenp (r > 0) (setf f (\<lambda>q. q\<lparr>foff := foff q + of_int r\<rparr>))) (
     seqp (iunlock ip) (
     seqp end_op (
     ret r)))))))"

text \<open>Each round that goes on writes at least one byte, so \<open>n\<close> rounds are enough.\<close>

primrec filewrite_loop :: "nat \<Rightarrow> nat \<Rightarrow> nat \<Rightarrow> u64 \<Rightarrow> nat \<Rightarrow> nat \<Rightarrow> ('z file_state_scheme, nat) prog" where
  "filewrite_loop 0 f ip addr n i = ret i"
| "filewrite_loop (Suc k) f ip addr n i =
     (if \<not> i < n then ret i else
      let n1 = min (n - i) MAXWRITE in
      bindp (filewrite_chunk f ip (addr + of_nat i) n1) (\<lambda>r.
      if r \<noteq> int n1 then ret i else filewrite_loop k f ip addr n (i + n1)))"

definition filewrite :: "nat \<Rightarrow> u64 \<Rightarrow> u32 \<Rightarrow> ('z file_state_scheme, int) prog" where
  "filewrite f addr n =
     bindp (getf f id) (\<lambda>ff.
     if fwritable ff = 0 then ret (- 1) else
     case ftype ff of
       FD_PIPE \<Rightarrow> pipewrite (fpipe ff) addr n
     | FD_DEVICE \<Rightarrow>
         bindp (has_dev (fmajor ff)) (\<lambda>h.
         if \<not> h then ret (- 1) else consolewrite True addr n)
     | FD_INODE \<Rightarrow>
         (if sint n \<le> 0 then ret (if sint n = 0 then 0 else - 1) else
          deref ''ilock'' (fip ff) (\<lambda>ip.
          bindp (filewrite_loop (nat (sint n)) f ip addr (nat (sint n)) 0) (\<lambda>i.
          ret (if i = nat (sint n) then sint n else - 1))))
     | FD_NONE \<Rightarrow> panic ''filewrite'')"

definition pipealloc :: "('z file_state_scheme, (nat \<times> nat) option) prog" where
  "pipealloc =
     bindp filealloc (\<lambda>f0.
     case f0 of None \<Rightarrow> ret None
     | Some i0 \<Rightarrow>
     bindp filealloc (\<lambda>f1.
     case f1 of None \<Rightarrow> seqp (fileclose i0) (ret None)
     | Some i1 \<Rightarrow>
     bindp kalloc (\<lambda>pi.
     if pi = 0 then seqp (fileclose i0) (seqp (fileclose i1) (ret None))
     else
     seqp (block
      [setpipe pi (\<lambda>p. p\<lparr>readopen := 1, writeopen := 1, nwrite := 0, nread := 0\<rparr>),
       lock_init (LPipe pi),
       setf i0 (\<lambda>r. r\<lparr>ftype := FD_PIPE, freadable := 1, fwritable := 0, fpipe := pi\<rparr>),
       setf i1 (\<lambda>r. r\<lparr>ftype := FD_PIPE, freadable := 0, fwritable := 1, fpipe := pi\<rparr>)]) (
     ret (Some (i0, i1))))))"

section \<open>A pipe is a queue of bytes\<close>

definition pipe_ok :: "pipe \<Rightarrow> bool" where
  "pipe_ok p \<longleftrightarrow> unat (nwrite p - nread p) \<le> PIPESIZE"

definition pipe_contents :: "pipe \<Rightarrow> u8 list" where
  "pipe_contents p = ring PIPESIZE (pdata p) (nread p) (nwrite p)"

interpretation pipe_queue: byte_queue pipe_ok pipe_contents PIPESIZE pipe_full pipe_empty
  pipe_put pipe_first pipe_take
proof
  fix q c
  have P: "PIPESIZE dvd 2 ^ LENGTH(32)" "PIPESIZE < 2 ^ LENGTH(32)" by (simp_all add: PIPESIZE_def)
  assume ok: "pipe_ok q"
  show full: "pipe_full q \<longleftrightarrow> length (pipe_contents q) = PIPESIZE"
    unfolding pipe_full_def pipe_contents_def length_ring by (rule ring_full [OF P(2)])
  show empty: "pipe_empty q \<longleftrightarrow> pipe_contents q = []"
    by (simp add: pipe_empty_def pipe_contents_def ring_empty)
  show "length (pipe_contents q) \<le> PIPESIZE"
    using ok by (simp add: pipe_ok_def pipe_contents_def)
  show "pipe_ok (pipe_put c q) \<and> pipe_contents (pipe_put c q) = pipe_contents q @ [c]"
    if "\<not> pipe_full q"
  proof -
    have "unat (nwrite q - nread q) < PIPESIZE"
      using that full ok by (simp add: pipe_ok_def pipe_contents_def)
    from ring_push [OF P this] show ?thesis
      using \<open>unat (nwrite q - nread q) < PIPESIZE\<close>
      by (simp add: pipe_ok_def pipe_contents_def pipe_put_def)
  qed
  show "pipe_ok (pipe_take q) \<and> pipe_contents q = pipe_first q # pipe_contents (pipe_take q)"
    if "\<not> pipe_empty q"
  proof -
    have ne: "nread q \<noteq> nwrite q" using that by (simp add: pipe_empty_def)
    from ring_pop [OF P(1) ne, of "pdata q"]
    have e: "pipe_contents q = pipe_first q # pipe_contents (pipe_take q)"
      by (simp add: pipe_contents_def pipe_first_def pipe_take_def)
    then have "length (pipe_contents (pipe_take q)) \<le> length (pipe_contents q)" by simp
    then show ?thesis using e ok by (simp add: pipe_ok_def pipe_contents_def pipe_take_def)
  qed
qed

section \<open>An example state\<close>

definition file_example :: file_state where
  "file_example = fs_state.extend fs_example (file_state.fields
     (\<lambda>_. \<lparr>ftype = FD_NONE, fref = 0, freadable = 0, fwritable = 0, fpipe = 0, fip = None, foff = 0, fmajor = 0\<rparr>)
     (\<lambda>_. \<lparr>pdata = (\<lambda>_. 0), nread = 0, nwrite = 0, readopen = 1, writeopen = 1\<rparr>) 0)"

lemmas file_example_defs = file_example_def file_state.defs fs_example_defs

end
