(* ===== verification/Process.thy ===== *)
theory Process
  imports File
begin

text \<open>
  The rest of \<open>kernel/proc.c\<close>, which uses the file system (\<open>fork\<close>, \<open>exit\<close>, \<open>userinit\<close>), the
  fetching of system call arguments in \<open>kernel/syscall.c\<close>, and the process system calls of
  \<open>kernel/sysproc.c\<close>. A system call returns an unsigned 64-bit value; a C \<open>int\<close> is converted to it
  by sign extension.
\<close>

record sys_state = file_state +
  ticks :: u32
  initcode :: u64

section \<open>Trap frames\<close>

text \<open>The registers of the current process at their offsets in \<open>struct trapframe\<close>.\<close>

definition tf_get :: "nat \<Rightarrow> u64 \<Rightarrow> ('z proc_state_scheme, u64) prog" where
  "tf_get i off = bindp (getp i trapframe) (\<lambda>tf. gets (\<lambda>s. load64 (mem s) (tf + off)))"

definition tf_set :: "nat \<Rightarrow> u64 \<Rightarrow> u64 \<Rightarrow> ('z proc_state_scheme, unit) prog" where
  "tf_set i off v = bindp (getp i trapframe) (\<lambda>tf. modify (\<lambda>s. s\<lparr>mem := store64 (mem s) (tf + off) v\<rparr>))"

abbreviation TF_epc :: u64 where "TF_epc \<equiv> 24"
abbreviation TF_sp :: u64 where "TF_sp \<equiv> 48"
abbreviation TF_a0 :: u64 where "TF_a0 \<equiv> 112"
abbreviation TF_a1 :: u64 where "TF_a1 \<equiv> 120"
abbreviation TF_a7 :: u64 where "TF_a7 \<equiv> 168"
abbreviation TF_size :: nat where "TF_size \<equiv> 288"

text \<open>The object that holds the string \<open>bs\<close>.\<close>

definition str_obj :: "u8 list \<Rightarrow> cobj" where
  "str_obj bs = (\<lambda>i. if i < length bs then bs ! i else 0)"

section \<open>Creating and ending processes\<close>

definition userinit :: "('z sys_state_scheme, unit) prog" where
  "userinit =
     bindp allocproc (\<lambda>p.
     seqp (modify (\<lambda>s. s\<lparr>initproc := p\<rparr>)) (
     deref ''kerneltrap'' p (\<lambda>i.
     bindp (getp i pagetable) (\<lambda>pt.
     bindp (gets initcode) (\<lambda>src.
     block
      [uvmfirst pt src 52,
       setp i (\<lambda>p. p\<lparr>psz := PGSIZE\<rparr>),
       tf_set i TF_epc 0,
       tf_set i TF_sp PGSIZE,
       setp i (\<lambda>p. p\<lparr>pname := safestrcpy (pname p) (str_obj (bytes_of ''initcode'')) 16\<rparr>),
       bindp (namei [slash]) (\<lambda>d. setp i (\<lambda>p. p\<lparr>cwd := d\<rparr>)),
       setp i (\<lambda>p. p\<lparr>pstate := RUNNABLE\<rparr>),
       lock_release (LProc i)])))))"

definition fork_file :: "nat \<Rightarrow> nat \<Rightarrow> nat \<Rightarrow> ('z file_state_scheme, unit) prog" where
  "fork_file i np fd =
     bindp (getp i (\<lambda>p. ofile p ! fd)) (\<lambda>f.
     case f of None \<Rightarrow> ret ()
     | Some g \<Rightarrow> bindp (filedup g) (\<lambda>g'. setp np (\<lambda>p. p\<lparr>ofile := (ofile p)[fd := Some g']\<rparr>)))"

definition fork :: "('z file_state_scheme, int) prog" where
  "fork =
     with_proc (\<lambda>i.
     bindp allocproc (\<lambda>a.
     case a of None \<Rightarrow> ret (- 1)
     | Some np \<Rightarrow>
     bindp (getp i id) (\<lambda>p.
     bindp (getp np pagetable) (\<lambda>npt.
     bindp (uvmcopy (pagetable p) npt (psz p)) (\<lambda>r.
     if r < 0 then seqp (freeproc np) (seqp (lock_release (LProc np)) (ret (- 1)))
     else
     bindp (getp np trapframe) (\<lambda>ntf.
     seqp (block
      [setp np (\<lambda>q. q\<lparr>psz := psz p\<rparr>),
       modify (\<lambda>s. s\<lparr>mem := write_bytes (mem s) ntf (read_bytes (mem s) (trapframe p) TF_size)\<rparr>),
       tf_set np TF_a0 0,
       block (map (fork_file i np) [0..<NOFILE]),
       deref ''kerneltrap'' (cwd p) (\<lambda>d. bindp (idup d) (\<lambda>d'. setp np (\<lambda>q. q\<lparr>cwd := Some d'\<rparr>))),
       setp np (\<lambda>q. q\<lparr>pname := safestrcpy (pname q) (pname p) 16\<rparr>)]) (
     bindp (getp np pid) (\<lambda>n.
     seqp (block
      [lock_release (LProc np),
       lock_acquire LWait,
       setp np (\<lambda>q. q\<lparr>parent := Some i\<rparr>),
       lock_release LWait,
       lock_acquire (LProc np),
       setp np (\<lambda>q. q\<lparr>pstate := RUNNABLE\<rparr>),
       lock_release (LProc np)]) (
     ret (sint n))))))))))"

definition exit_file :: "nat \<Rightarrow> nat \<Rightarrow> ('z file_state_scheme, unit) prog" where
  "exit_file i fd =
     bindp (getp i (\<lambda>p. ofile p ! fd)) (\<lambda>f.
     case f of None \<Rightarrow> ret ()
     | Some g \<Rightarrow> seqp (fileclose g) (setp i (\<lambda>p. p\<lparr>ofile := (ofile p)[fd := None]\<rparr>)))"

definition exit :: "u32 \<Rightarrow> ('z file_state_scheme, unit) prog" where
  "exit status =
     bindp myproc (\<lambda>me.
     bindp (gets initproc) (\<lambda>ip.
     if me = ip then panic ''init exiting'' else
     deref ''kerneltrap'' me (\<lambda>i.
     block
      [block (map (exit_file i) [0..<NOFILE]),
       begin_op,
       bindp (getp i cwd) (\<lambda>d. deref ''kerneltrap'' d iput),
       end_op,
       setp i (\<lambda>p. p\<lparr>cwd := None\<rparr>),
       exit_tail status])))"

section \<open>System call arguments\<close>

definition fetchaddr :: "u64 \<Rightarrow> ('z proc_state_scheme, int \<times> u64) prog" where
  "fetchaddr addr =
     with_proc (\<lambda>i.
     bindp (getp i psz) (\<lambda>sz.
     if addr \<ge> sz \<or> addr + 8 > sz then ret (- 1, 0) else
     bindp (getp i pagetable) (\<lambda>pt.
     bindp (copyin pt addr 8) (\<lambda>(r, bs).
     if r \<noteq> 0 then ret (- 1, 0) else ret (0, le_word bs)))))"

text \<open>
  The result and the bytes that reached the buffer. When the result is not negative they are the
  string and its NUL.
\<close>

definition fetchstr :: "u64 \<Rightarrow> nat \<Rightarrow> ('z proc_state_scheme, int \<times> u8 list) prog" where
  "fetchstr addr mx =
     with_proc (\<lambda>i.
     bindp (getp i pagetable) (\<lambda>pt.
     bindp (copyinstr pt addr mx) (\<lambda>(r, bs).
     if r < 0 then ret (- 1, bs)
     else case strlen (str_obj bs) of None \<Rightarrow> (\<lambda>s. Diverge) | Some n \<Rightarrow> ret (int n, bs))))"

definition argraw :: "nat \<Rightarrow> ('z proc_state_scheme, u64) prog" where
  "argraw n =
     with_proc (\<lambda>i.
     if n \<le> 5 then tf_get i (TF_a0 + 8 * of_nat n) else panic ''argraw'')"

definition argint :: "nat \<Rightarrow> ('z proc_state_scheme, u32) prog" where
  "argint n = bindp (argraw n) (\<lambda>v. ret (ucast v))"

definition argaddr :: "nat \<Rightarrow> ('z proc_state_scheme, u64) prog" where
  "argaddr n = argraw n"

text \<open>\<open>argstr\<close> for callers that want the string: the result, and the bytes before the NUL.\<close>

definition argstr :: "nat \<Rightarrow> nat \<Rightarrow> ('z proc_state_scheme, int \<times> u8 list) prog" where
  "argstr n mx =
     bindp (argaddr n) (\<lambda>addr.
     bindp (fetchstr addr mx) (\<lambda>(r, bs). ret (r, takeWhile (\<lambda>c. c \<noteq> 0) bs)))"

section \<open>Process system calls\<close>

definition sys_exit :: "('z file_state_scheme, u64) prog" where
  "sys_exit = bindp (argint 0) (\<lambda>n. seqp (exit n) (ret 0))"

definition sys_getpid :: "('z proc_state_scheme, u64) prog" where
  "sys_getpid = with_proc (\<lambda>i. bindp (getp i pid) (\<lambda>n. ret (scast n)))"

definition sys_fork :: "('z file_state_scheme, u64) prog" where
  "sys_fork = bindp fork (\<lambda>r. ret (of_int r))"

definition sys_wait :: "('z proc_state_scheme, u64) prog" where
  "sys_wait = bindp (argaddr 0) (\<lambda>p. bindp (wait p) (\<lambda>r. ret (of_int r)))"

definition sys_sbrk :: "('z proc_state_scheme, u64) prog" where
  "sys_sbrk =
     bindp (argint 0) (\<lambda>n.
     with_proc (\<lambda>i.
     bindp (getp i psz) (\<lambda>addr.
     bindp (growproc n) (\<lambda>r.
     if r < 0 then ret (- 1) else ret addr))))"

definition sys_sleep_loop :: "u32 \<Rightarrow> u32 \<Rightarrow> ('z sys_state_scheme, u64) prog" where
  "sys_sleep_loop ticks0 n =
     bindp (gets ticks) (\<lambda>t.
     if t - ticks0 < n then
       with_proc (\<lambda>i.
       bindp (killed i) (\<lambda>k.
       if k \<noteq> 0 then seqp (lock_release LTicks) (ret (- 1))
       else sleep ChTicks LTicks))
     else seqp (lock_release LTicks) (ret 0))"

definition sys_sleep :: "('z sys_state_scheme, u64) prog" where
  "sys_sleep =
     bindp (argint 0) (\<lambda>n.
     seqp (lock_acquire LTicks) (
     bindp (gets ticks) (\<lambda>ticks0. sys_sleep_loop ticks0 n)))"

definition sys_sleep_resume :: "u32 \<Rightarrow> u32 \<Rightarrow> ('z sys_state_scheme, u64) prog" where
  "sys_sleep_resume ticks0 n = seqp (sleep_resume LTicks) (sys_sleep_loop ticks0 n)"

definition sys_kill :: "('z proc_state_scheme, u64) prog" where
  "sys_kill = bindp (argint 0) (\<lambda>n. bindp (kill n) (\<lambda>r. ret (of_int r)))"

definition sys_uptime :: "('z sys_state_scheme, u64) prog" where
  "sys_uptime =
     seqp (lock_acquire LTicks) (
     bindp (gets ticks) (\<lambda>t.
     seqp (lock_release LTicks) (
     ret (ucast t))))"

end
