(* ===== verification/Sysfile.thy ===== *)
theory Sysfile
  imports Process
begin

text \<open>
  \<open>kernel/sysfile.c\<close>: the file system calls, \<open>kernel/exec.c\<close>, and the dispatch in
  \<open>kernel/syscall.c\<close>. A path argument is the string that \<open>argstr\<close> fetched. Local buffers for path
  elements start uninitialised; \<open>nameiparent\<close> writes them before they are read.
\<close>

definition MAXPATH :: nat where "MAXPATH = 128"
definition MAXARG :: nat where "MAXARG = 32"
definition O_RDONLY :: u32 where "O_RDONLY = 0"
definition O_WRONLY :: u32 where "O_WRONLY = 1"
definition O_RDWR :: u32 where "O_RDWR = 2"
definition O_CREATE :: u32 where "O_CREATE = 0x200"
definition O_TRUNC :: u32 where "O_TRUNC = 0x400"

section \<open>File descriptors\<close>

definition argfd :: "nat \<Rightarrow> ('z file_state_scheme, (nat \<times> nat) option) prog" where
  "argfd n =
     bindp (argint n) (\<lambda>fd.
     if sint fd < 0 \<or> sint fd \<ge> int NOFILE then ret None else
     with_proc (\<lambda>i.
     bindp (getp i (\<lambda>p. ofile p ! unat fd)) (\<lambda>f.
     ret (case f of None \<Rightarrow> None | Some g \<Rightarrow> Some (unat fd, g)))))"

fun fdalloc_loop :: "nat \<Rightarrow> nat \<Rightarrow> nat list \<Rightarrow> ('z file_state_scheme, nat option) prog" where
  "fdalloc_loop i f [] = ret None"
| "fdalloc_loop i f (fd # fds) =
     bindp (getp i (\<lambda>p. ofile p ! fd)) (\<lambda>g.
     if g = None then seqp (setp i (\<lambda>p. p\<lparr>ofile := (ofile p)[fd := Some f]\<rparr>)) (ret (Some fd))
     else fdalloc_loop i f fds)"

definition fdalloc :: "nat \<Rightarrow> ('z file_state_scheme, nat option) prog" where
  "fdalloc f = with_proc (\<lambda>i. fdalloc_loop i f [0..<NOFILE])"

definition set_fd :: "nat \<Rightarrow> nat option \<Rightarrow> ('z file_state_scheme, unit) prog" where
  "set_fd fd f = with_proc (\<lambda>i. setp i (\<lambda>p. p\<lparr>ofile := (ofile p)[fd := f]\<rparr>))"

definition sys_dup :: "('z file_state_scheme, u64) prog" where
  "sys_dup =
     bindp (argfd 0) (\<lambda>a.
     case a of None \<Rightarrow> ret (- 1)
     | Some (_, f) \<Rightarrow>
     bindp (fdalloc f) (\<lambda>r.
     case r of None \<Rightarrow> ret (- 1)
     | Some fd \<Rightarrow> bindp (filedup f) (\<lambda>_. ret (of_nat fd))))"

definition sys_read :: "('z file_state_scheme, u64) prog" where
  "sys_read =
     bindp (argaddr 1) (\<lambda>p.
     bindp (argint 2) (\<lambda>n.
     bindp (argfd 0) (\<lambda>a.
     case a of None \<Rightarrow> ret (- 1)
     | Some (_, f) \<Rightarrow> bindp (fileread f p n) (\<lambda>r. ret (of_int r)))))"

definition sys_write :: "('z file_state_scheme, u64) prog" where
  "sys_write =
     bindp (argaddr 1) (\<lambda>p.
     bindp (argint 2) (\<lambda>n.
     bindp (argfd 0) (\<lambda>a.
     case a of None \<Rightarrow> ret (- 1)
     | Some (_, f) \<Rightarrow> bindp (filewrite f p n) (\<lambda>r. ret (of_int r)))))"

definition sys_close :: "('z file_state_scheme, u64) prog" where
  "sys_close =
     bindp (argfd 0) (\<lambda>a.
     case a of None \<Rightarrow> ret (- 1)
     | Some (fd, f) \<Rightarrow> seqp (set_fd fd None) (seqp (fileclose f) (ret 0)))"

definition sys_fstat :: "('z file_state_scheme, u64) prog" where
  "sys_fstat =
     bindp (argaddr 1) (\<lambda>st.
     bindp (argfd 0) (\<lambda>a.
     case a of None \<Rightarrow> ret (- 1)
     | Some (_, f) \<Rightarrow> bindp (filestat f st) (\<lambda>r. ret (of_int r))))"

section \<open>Links and directories\<close>

text \<open>The label \<open>bad\<close> of \<open>sys_link\<close>.\<close>

definition link_bad :: "nat \<Rightarrow> ('z fs_state_scheme, u64) prog" where
  "link_bad ip =
     seqp (block
      [ilock ip,
       seti ip (\<lambda>r. r\<lparr>inlink := inlink r - 1\<rparr>),
       iupdate ip,
       iunlockput ip,
       end_op]) (
     ret (- 1))"

definition sys_link :: "('z fs_state_scheme, u64) prog" where
  "sys_link =
     bindp (argstr 0 MAXPATH) (\<lambda>(r0, old).
     if r0 < 0 then ret (- 1) else
     bindp (argstr 1 MAXPATH) (\<lambda>(r1, new).
     if r1 < 0 then ret (- 1) else
     seqp begin_op (
     bindp (namei old) (\<lambda>f.
     case f of None \<Rightarrow> seqp end_op (ret (- 1))
     | Some ip \<Rightarrow>
     seqp (ilock ip) (
     bindp (geti ip itype) (\<lambda>ty.
     if ty = T_DIR then seqp (iunlockput ip) (seqp end_op (ret (- 1))) else
     seqp (block
      [seti ip (\<lambda>r. r\<lparr>inlink := inlink r + 1\<rparr>),
       iupdate ip,
       iunlock ip]) (
     bindp (nameiparent new (\<lambda>_. 0)) (\<lambda>(d, nm).
     case d of None \<Rightarrow> link_bad ip
     | Some dp \<Rightarrow>
     seqp (ilock dp) (
     bindp (geti dp idev) (\<lambda>ddev.
     bindp (geti ip id) (\<lambda>r.
     bindp (if ddev \<noteq> idev r then ret (- 1) else dirlink dp nm (inum r)) (\<lambda>l.
     if l < 0 then seqp (iunlockput dp) (link_bad ip)
     else seqp (block [iunlockput dp, iput ip, end_op]) (ret 0)))))))))))))"

fun isdirempty_loop :: "nat \<Rightarrow> nat list \<Rightarrow> ('z fs_state_scheme, bool) prog" where
  "isdirempty_loop dp [] = ret True"
| "isdirempty_loop dp (off # offs) =
     bindp (readi dp DLocal (of_nat off) 16) (\<lambda>(r, de).
     if r \<noteq> 16 then panic ''isdirempty: readi''
     else if de_inum de \<noteq> 0 then ret False
     else isdirempty_loop dp offs)"

definition isdirempty :: "nat \<Rightarrow> ('z fs_state_scheme, bool) prog" where
  "isdirempty dp = bindp (geti dp isize) (\<lambda>sz. isdirempty_loop dp (drop 2 (dir_offsets sz)))"

definition unlink_bad :: "nat \<Rightarrow> ('z fs_state_scheme, u64) prog" where
  "unlink_bad dp = seqp (iunlockput dp) (seqp end_op (ret (- 1)))"

text \<open>\<open>sys_unlink\<close> from the point where the entry at \<open>off\<close> and its inode are found and locked.\<close>

definition unlink_entry :: "nat \<Rightarrow> nat \<Rightarrow> nat \<Rightarrow> ('z fs_state_scheme, u64) prog" where
  "unlink_entry dp ip off =
     bindp (geti ip id) (\<lambda>q.
     if sint (inlink q) < 1 then panic ''unlink: nlink < 1'' else
     bindp (if itype q = T_DIR then isdirempty ip else ret True) (\<lambda>e.
     if \<not> e then seqp (iunlockput ip) (unlink_bad dp) else
     bindp (writei dp (SLocal (replicate 16 0)) (of_nat off) 16) (\<lambda>r.
     if r \<noteq> 16 then panic ''unlink: writei'' else
     seqp (block
      [bindp (geti ip itype) (\<lambda>ty. whenp (ty = T_DIR)
         (seqp (seti dp (\<lambda>r. r\<lparr>inlink := inlink r - 1\<rparr>)) (iupdate dp))),
       iunlockput dp,
       seti ip (\<lambda>r. r\<lparr>inlink := inlink r - 1\<rparr>),
       iupdate ip,
       iunlockput ip,
       end_op]) (
     ret 0))))"

definition sys_unlink :: "('z fs_state_scheme, u64) prog" where
  "sys_unlink =
     bindp (argstr 0 MAXPATH) (\<lambda>(r0, path).
     if r0 < 0 then ret (- 1) else
     seqp begin_op (
     bindp (nameiparent path (\<lambda>_. 0)) (\<lambda>(d, nm).
     case d of None \<Rightarrow> seqp end_op (ret (- 1))
     | Some dp \<Rightarrow>
     seqp (ilock dp) (
     if namecmp nm (str_obj (bytes_of ''.'')) = 0 \<or> namecmp nm (str_obj (bytes_of ''..'')) = 0
     then unlink_bad dp
     else
     bindp (dirlookup dp nm) (\<lambda>f.
     case f of None \<Rightarrow> unlink_bad dp
     | Some (ip, off) \<Rightarrow> seqp (ilock ip) (unlink_entry dp ip off))))))"

text \<open>The label \<open>fail\<close> of \<open>create\<close>.\<close>

definition create_fail :: "nat \<Rightarrow> nat \<Rightarrow> ('z fs_state_scheme, nat option) prog" where
  "create_fail dp ip =
     seqp (block
      [seti ip (\<lambda>r. r\<lparr>inlink := 0\<rparr>),
       iupdate ip,
       iunlockput ip,
       iunlockput dp]) (
     ret None)"

text \<open>\<open>create\<close> from the point where the new inode \<open>ip\<close> is allocated.\<close>

definition create_new :: "nat \<Rightarrow> cobj \<Rightarrow> nat \<Rightarrow> u16 \<Rightarrow> u16 \<Rightarrow> u16 \<Rightarrow> ('z fs_state_scheme, nat option) prog"
  where
  "create_new dp nm ip ty mj mn =
     seqp (block
      [ilock ip,
       seti ip (\<lambda>r. r\<lparr>imajor := mj, iminor := mn, inlink := 1\<rparr>),
       iupdate ip]) (
     bindp (geti ip inum) (\<lambda>n.
     bindp (if ty = T_DIR then
              bindp (dirlink ip (str_obj (bytes_of ''.'')) n) (\<lambda>a.
              if a < 0 then ret a else
              bindp (geti dp inum) (\<lambda>dn. dirlink ip (str_obj (bytes_of ''..'')) dn))
            else ret 0) (\<lambda>a.
     if a < 0 then create_fail dp ip else
     bindp (dirlink dp nm n) (\<lambda>b.
     if b < 0 then create_fail dp ip else
     seqp (block
      [whenp (ty = T_DIR) (seqp (seti dp (\<lambda>r. r\<lparr>inlink := inlink r + 1\<rparr>)) (iupdate dp)),
       iunlockput dp]) (
     ret (Some ip))))))"

definition create :: "u8 list \<Rightarrow> u16 \<Rightarrow> u16 \<Rightarrow> u16 \<Rightarrow> ('z fs_state_scheme, nat option) prog" where
  "create path ty mj mn =
     bindp (nameiparent path (\<lambda>_. 0)) (\<lambda>(d, nm).
     case d of None \<Rightarrow> ret None
     | Some dp \<Rightarrow>
     seqp (ilock dp) (
     bindp (dirlookup dp nm) (\<lambda>f.
     case f of
       Some (ip, _) \<Rightarrow>
         seqp (iunlockput dp) (
         seqp (ilock ip) (
         bindp (geti ip itype) (\<lambda>t.
         if ty = T_FILE \<and> (t = T_FILE \<or> t = T_DEVICE) then ret (Some ip)
         else seqp (iunlockput ip) (ret None))))
     | None \<Rightarrow>
         bindp (geti dp idev) (\<lambda>dev.
         bindp (ialloc dev ty) (\<lambda>a.
         case a of None \<Rightarrow> seqp (iunlockput dp) (ret None)
         | Some ip \<Rightarrow> create_new dp nm ip ty mj mn)))))"

section \<open>open, mkdir, mknod, chdir, pipe\<close>

text \<open>\<open>sys_open\<close> up to the locked inode.\<close>

definition open_inode :: "u8 list \<Rightarrow> u32 \<Rightarrow> ('z fs_state_scheme, nat option) prog" where
  "open_inode path omode =
     (if omode AND O_CREATE \<noteq> 0 then create path T_FILE 0 0
      else
      bindp (namei path) (\<lambda>f.
      case f of None \<Rightarrow> ret None
      | Some ip \<Rightarrow>
      seqp (ilock ip) (
      bindp (geti ip itype) (\<lambda>ty.
      if ty = T_DIR \<and> omode \<noteq> O_RDONLY then seqp (iunlockput ip) (ret None)
      else ret (Some ip)))))"

text \<open>A file and a descriptor for it, or nothing and no change.\<close>

definition open_fd :: "('z file_state_scheme, (nat \<times> nat) option) prog" where
  "open_fd =
     bindp filealloc (\<lambda>a.
     case a of None \<Rightarrow> ret None
     | Some f \<Rightarrow>
     bindp (fdalloc f) (\<lambda>r.
     case r of None \<Rightarrow> seqp (fileclose f) (ret None)
     | Some fd \<Rightarrow> ret (Some (f, fd))))"

definition sys_open :: "('z file_state_scheme, u64) prog" where
  "sys_open =
     bindp (argint 1) (\<lambda>omode.
     bindp (argstr 0 MAXPATH) (\<lambda>(n, path).
     if n < 0 then ret (- 1) else
     seqp begin_op (
     bindp (open_inode path omode) (\<lambda>a.
     case a of None \<Rightarrow> seqp end_op (ret (- 1))
     | Some ip \<Rightarrow>
     bindp (geti ip id) (\<lambda>q.
     if itype q = T_DEVICE \<and> (sint (imajor q) < 0 \<or> sint (imajor q) \<ge> NDEV)
     then seqp (iunlockput ip) (seqp end_op (ret (- 1)))
     else
     bindp open_fd (\<lambda>b.
     case b of None \<Rightarrow> seqp (iunlockput ip) (seqp end_op (ret (- 1)))
     | Some (f, fd) \<Rightarrow>
     seqp (block
      [if itype q = T_DEVICE
       then setf f (\<lambda>r. r\<lparr>ftype := FD_DEVICE, fmajor := imajor q\<rparr>)
       else setf f (\<lambda>r. r\<lparr>ftype := FD_INODE, foff := 0\<rparr>),
       setf f (\<lambda>r. r\<lparr>fip := Some ip\<rparr>),
       setf f (\<lambda>r. r\<lparr>freadable := (if omode AND O_WRONLY = 0 then 1 else 0)\<rparr>),
       setf f (\<lambda>r. r\<lparr>fwritable := (if omode AND O_WRONLY \<noteq> 0 \<or> omode AND O_RDWR \<noteq> 0 then 1 else 0)\<rparr>),
       whenp (omode AND O_TRUNC \<noteq> 0 \<and> itype q = T_FILE) (itrunc ip),
       iunlock ip,
       end_op]) (
     ret (of_nat fd))))))))"

definition sys_mkdir :: "('z fs_state_scheme, u64) prog" where
  "sys_mkdir =
     seqp begin_op (
     bindp (argstr 0 MAXPATH) (\<lambda>(n, path).
     bindp (if n < 0 then ret None else create path T_DIR 0 0) (\<lambda>a.
     case a of None \<Rightarrow> seqp end_op (ret (- 1))
     | Some ip \<Rightarrow> seqp (iunlockput ip) (seqp end_op (ret 0)))))"

definition sys_mknod :: "('z fs_state_scheme, u64) prog" where
  "sys_mknod =
     seqp begin_op (
     bindp (argint 1) (\<lambda>mj.
     bindp (argint 2) (\<lambda>mn.
     bindp (argstr 0 MAXPATH) (\<lambda>(n, path).
     bindp (if n < 0 then ret None else create path T_DEVICE (ucast mj) (ucast mn)) (\<lambda>a.
     case a of None \<Rightarrow> seqp end_op (ret (- 1))
     | Some ip \<Rightarrow> seqp (iunlockput ip) (seqp end_op (ret 0)))))))"

definition sys_chdir :: "('z fs_state_scheme, u64) prog" where
  "sys_chdir =
     with_proc (\<lambda>i.
     seqp begin_op (
     bindp (argstr 0 MAXPATH) (\<lambda>(n, path).
     bindp (if n < 0 then ret None else namei path) (\<lambda>a.
     case a of None \<Rightarrow> seqp end_op (ret (- 1))
     | Some ip \<Rightarrow>
     seqp (ilock ip) (
     bindp (geti ip itype) (\<lambda>ty.
     if ty \<noteq> T_DIR then seqp (iunlockput ip) (seqp end_op (ret (- 1))) else
     seqp (block
      [iunlock ip,
       bindp (getp i cwd) (\<lambda>d. deref ''kerneltrap'' d iput),
       end_op,
       setp i (\<lambda>p. p\<lparr>cwd := Some ip\<rparr>)]) (
     ret 0)))))))"

definition sys_pipe :: "('z file_state_scheme, u64) prog" where
  "sys_pipe =
     with_proc (\<lambda>i.
     bindp (argaddr 0) (\<lambda>fdarray.
     bindp pipealloc (\<lambda>a.
     case a of None \<Rightarrow> ret (- 1)
     | Some (rfile, wfile) \<Rightarrow>
     bindp (fdalloc rfile) (\<lambda>r0.
     case r0 of None \<Rightarrow> seqp (block [fileclose rfile, fileclose wfile]) (ret (- 1))
     | Some fd0 \<Rightarrow>
     bindp (fdalloc wfile) (\<lambda>r1.
     case r1 of None \<Rightarrow> seqp (block [set_fd fd0 None, fileclose rfile, fileclose wfile]) (ret (- 1))
     | Some fd1 \<Rightarrow>
     bindp (getp i pagetable) (\<lambda>pt.
     bindp (copyout pt fdarray (le_bytes 4 (of_nat fd0 :: u32))) (\<lambda>c0.
     bindp (if c0 < 0 then ret c0 else copyout pt (fdarray + 4) (le_bytes 4 (of_nat fd1 :: u32))) (\<lambda>c1.
     if c1 < 0
     then seqp (block [set_fd fd0 None, set_fd fd1 None, fileclose rfile, fileclose wfile]) (ret (- 1))
     else ret 0))))))))"

end
