(* ===== verification/Sh.thy ===== *)
theory Sh
  imports Sysfile
begin

text \<open>
  \<open>user/sh.c\<close>: the command parser of the shell. The line is a buffer of bytes that ends with a nul, pointers into it
  are positions, and a parsed word is the pair of positions \<open>q\<close>, \<open>eq\<close> of the code. A \<open>panic\<close> of the shell is an error
  value.
\<close>

section \<open>Commands\<close>

definition MAXARGS :: nat where "MAXARGS = 10"

text \<open>The words of a command are positions in the line while it is parsed; \<open>REDIR\<close> has its file, mode and descriptor.\<close>

datatype 'w cmd =
    EXEC "'w list"
  | REDIR "'w cmd" 'w u32 nat
  | PIPE "'w cmd" "'w cmd"
  | LIST "'w cmd" "'w cmd"
  | BACK "'w cmd"

type_synonym span = "nat \<times> nat"

text \<open>\<open>cmd->argv[argc] = q; cmd->eargv[argc] = eq\<close> on the \<open>execcmd\<close> that \<open>ret\<close> has inside its redirections.\<close>

fun add_arg :: "'w cmd \<Rightarrow> 'w \<Rightarrow> 'w cmd" where
  "add_arg (EXEC ws) w = EXEC (ws @ [w])"
| "add_arg (REDIR c f mode fd) w = REDIR (add_arg c w) f mode fd"
| "add_arg c w = c"

section \<open>Tokens\<close>

definition whitespace :: "u8 set" where "whitespace = {32, 9, 13, 10, 11}"
definition symbols :: "u8 set" where "symbols = {60, 124, 62, 38, 59, 40, 41}"

definition LPAREN :: u8 where "LPAREN = 40"
definition RPAREN :: u8 where "RPAREN = 41"
definition BAR :: u8 where "BAR = 124"
definition AMP :: u8 where "AMP = 38"
definition SEMI :: u8 where "SEMI = 59"
definition LESS :: u8 where "LESS = 60"
definition GREATER :: u8 where "GREATER = 62"

lemmas sh_chars = whitespace_def symbols_def LPAREN_def RPAREN_def BAR_def AMP_def SEMI_def LESS_def GREATER_def

text \<open>\<open>*s\<close>: the byte at a position, which is the nul at the end of the line.\<close>

definition at :: "u8 list \<Rightarrow> nat \<Rightarrow> u8" where
  "at b s = (if s < length b then b ! s else 0)"

function skip :: "(u8 \<Rightarrow> bool) \<Rightarrow> u8 list \<Rightarrow> nat \<Rightarrow> nat" where
  "skip P b s = (if s < length b \<and> P (b ! s) then skip P b (Suc s) else s)"
  by pat_completeness auto
termination by (relation "measure (\<lambda>(P, b, s). length b - s)") auto

definition skip_space :: "u8 list \<Rightarrow> nat \<Rightarrow> nat" where
  "skip_space = skip (\<lambda>c. c \<in> whitespace)"

datatype token = End | Sym u8 | Append | Word

text \<open>The token with \<open>q\<close> and \<open>eq\<close>, and the new position.\<close>

definition gettoken :: "u8 list \<Rightarrow> nat \<Rightarrow> token \<times> span \<times> nat" where
  "gettoken b s =
     (let q = skip_space b s; c = at b q;
          (tok, eq) =
            (if c = 0 then (End, q)
             else if c \<in> {BAR, LPAREN, RPAREN, SEMI, AMP, LESS} then (Sym c, Suc q)
             else if c = GREATER then (if at b (Suc q) = GREATER then (Append, Suc (Suc q)) else (Sym c, Suc q))
             else (Word, skip (\<lambda>c. c \<notin> whitespace \<and> c \<notin> symbols) b q))
      in (tok, (q, eq), skip_space b eq))"

definition peek :: "u8 list \<Rightarrow> nat \<Rightarrow> u8 set \<Rightarrow> bool \<times> nat" where
  "peek b s toks = (let p = skip_space b s in (at b p \<noteq> 0 \<and> at b p \<in> toks, p))"

section \<open>Positions\<close>

declare skip.simps [simp del]

lemma skip_ge: "s \<le> skip P b s"
  by (induction P b s rule: skip.induct) (subst skip.simps, auto)

lemma skip_le: "s \<le> length b \<Longrightarrow> skip P b s \<le> length b"
  by (induction P b s rule: skip.induct) (subst skip.simps, auto)

lemma skip_stop: "\<not> (skip P b s < length b \<and> P (b ! skip P b s))"
  by (induction P b s rule: skip.induct) (subst (1 2) skip.simps, auto)

lemma skip_idem: "skip P b (skip P b s) = skip P b s"
  using skip_stop [of P b s] by (subst skip.simps) auto

lemma skip_space_bounds: "s \<le> skip_space b s" "s \<le> length b \<Longrightarrow> skip_space b s \<le> length b"
  by (simp_all add: skip_space_def skip_ge skip_le)

text \<open>A token other than the end takes at least one byte.\<close>

lemma gettoken_bounds:
  assumes "gettoken b s = (tok, (q, eq), s')" "s \<le> length b"
  shows "s \<le> q" "q \<le> eq" "eq \<le> s'" "s' \<le> length b" "tok \<noteq> End \<Longrightarrow> q < eq"
proof -
  have q: "q = skip_space b s" and s': "s' = skip_space b eq"
    using assms(1) by (auto simp: gettoken_def Let_def split: if_splits prod.splits)
  note qb = skip_space_bounds [of s b, folded q]
  have lt: "q < length b" if "at b q \<noteq> 0" using that by (auto simp: at_def split: if_splits)
  have ws: "at b q \<notin> whitespace" using skip_stop [of "\<lambda>c. c \<in> whitespace" b s]
    by (auto simp: at_def q skip_space_def whitespace_def)
  have word: "q < skip (\<lambda>c. c \<notin> whitespace \<and> c \<notin> symbols) b q" if "at b q \<noteq> 0" "at b q \<notin> symbols"
  proof -
    have l: "q < length b" using lt that(1) by blast
    then have "b ! q \<notin> whitespace" "b ! q \<notin> symbols" using ws that(2) by (simp_all add: at_def)
    with l have "skip (\<lambda>c. c \<notin> whitespace \<and> c \<notin> symbols) b q = skip (\<lambda>c. c \<notin> whitespace \<and> c \<notin> symbols) b (Suc q)"
      by (subst skip.simps) simp
    then show ?thesis using skip_ge [of "Suc q" "\<lambda>c. c \<notin> whitespace \<and> c \<notin> symbols" b] by simp
  qed
  have sym: "symbols = {BAR, LPAREN, RPAREN, SEMI, AMP, LESS, GREATER}" by (auto simp: sh_chars)
  have g: "Suc q < length b" if "at b (Suc q) = GREATER" using that by (auto simp: at_def GREATER_def split: if_splits)
  show "s \<le> q" using qb by simp
  have "q \<le> eq \<and> eq \<le> length b \<and> (tok \<noteq> End \<longrightarrow> q < eq)"
  proof (cases "at b q \<in> insert 0 symbols")
    case True
    then consider "at b q = 0" | "at b q \<noteq> 0" "q < length b" "at b q \<in> symbols" using lt by blast
    then show ?thesis using assms(1) qb(2) [OF assms(2)] g
      by cases (auto simp: gettoken_def Let_def q [symmetric] sym Suc_le_eq split: if_splits)
  next
    case False
    then show ?thesis using assms(1) word skip_le [of q b] qb(2) [OF assms(2)]
      by (auto simp: gettoken_def Let_def q [symmetric] sym split: if_splits)
  qed
  then show "q \<le> eq" "eq \<le> s'" "s' \<le> length b" "tok \<noteq> End \<Longrightarrow> q < eq"
    using skip_space_bounds [of eq b] by (simp_all add: s')
qed

lemma peek_bounds:
  assumes "peek b s toks = (r, p)" "s \<le> length b"
  shows "s \<le> p" "p \<le> length b" "r \<Longrightarrow> p < length b"
  using assms skip_space_bounds [of s b] by (auto simp: peek_def Let_def at_def split: if_splits)


section \<open>The parser\<close>

text \<open>Results: a command and the new position, the message of a \<open>panic\<close>, or more calls than the bound allows.\<close>

datatype 'a presult = Ok 'a nat | Err string | Deep

text \<open>The body of the loop of \<open>parseredirs\<close>: no redirection, or its symbol and file.\<close>

definition redir_item :: "u8 list \<Rightarrow> nat \<Rightarrow> (token \<times> span) option presult" where
  "redir_item b s =
     (case peek b s {LESS, GREATER} of (r, p) \<Rightarrow>
      if \<not> r then Ok None p else
      case gettoken b p of (tok, _, s1) \<Rightarrow>
      case gettoken b s1 of (tok', w, s2) \<Rightarrow>
      if tok' \<noteq> Word then Err ''missing file for redirection'' else Ok (Some (tok, w)) s2)"

definition add_redir :: "token \<Rightarrow> 'w cmd \<Rightarrow> 'w \<Rightarrow> 'w cmd" where
  "add_redir tok cmd w =
     (if tok = Sym LESS then REDIR cmd w O_RDONLY 0
      else if tok = Sym GREATER then REDIR cmd w (O_WRONLY OR O_CREATE OR O_TRUNC) 1
      else if tok = Append then REDIR cmd w (O_WRONLY OR O_CREATE) 1
      else cmd)"

lemma peek_True: "peek b s toks = (True, p) \<Longrightarrow> s \<le> p \<and> p < length b"
  using skip_space_bounds(1) [of s b] by (auto simp: peek_def Let_def at_def split: if_splits)

lemma redir_item_shorter:
  assumes "redir_item b s = Ok (Some x) s2"
  shows "s < s2 \<and> s2 \<le> length b"
proof -
  obtain p tok q eq s1 q' eq' where p: "peek b s {LESS, GREATER} = (True, p)" "gettoken b p = (tok, (q, eq), s1)"
      "gettoken b s1 = (Word, (q', eq'), s2)"
    using assms by (auto simp: redir_item_def split: prod.splits if_splits)
  have t: "p \<le> s1" "s1 \<le> length b" "s \<le> p" using gettoken_bounds [OF p(2)] peek_True [OF p(1)] by simp_all
  show ?thesis using gettoken_bounds [OF p(3) t(2)] t by simp
qed

function parseredirs :: "u8 list \<Rightarrow> span cmd \<Rightarrow> nat \<Rightarrow> span cmd presult" where
  "parseredirs b cmd s =
     (case redir_item b s of
        Ok None p \<Rightarrow> Ok cmd p
      | Ok (Some (tok, w)) s2 \<Rightarrow> parseredirs b (add_redir tok cmd w) s2
      | Err msg \<Rightarrow> Err msg
      | Deep \<Rightarrow> Deep)"
  by pat_completeness auto
termination
  by (relation "measure (\<lambda>(b, c, s). length b - s)") (auto dest!: redir_item_shorter)

text \<open>One round of the loop of \<open>parseexec\<close>: the next argument, or the end of the command.\<close>

definition arg_item :: "u8 list \<Rightarrow> nat \<Rightarrow> span option presult" where
  "arg_item b s =
     (case peek b s {BAR, RPAREN, AMP, SEMI} of (r, p) \<Rightarrow>
      if r then Ok None p else
      case gettoken b p of (tok, w, s1) \<Rightarrow>
      if tok = End then Ok None s1
      else if tok \<noteq> Word then Err ''syntax''
      else Ok (Some w) s1)"

function parseargs :: "u8 list \<Rightarrow> nat \<Rightarrow> span cmd \<Rightarrow> nat \<Rightarrow> span cmd presult" where
  "parseargs b argc cmd s =
     (case arg_item b s of
        Ok None p \<Rightarrow> Ok cmd p
      | Ok (Some w) s1 \<Rightarrow>
          if Suc argc \<ge> MAXARGS then Err ''too many args'' else
          (case parseredirs b (add_arg cmd w) s1 of
             Ok cmd' s2 \<Rightarrow> parseargs b (Suc argc) cmd' s2
           | Err msg \<Rightarrow> Err msg
           | Deep \<Rightarrow> Deep)
      | Err msg \<Rightarrow> Err msg
      | Deep \<Rightarrow> Deep)"
  by pat_completeness auto
termination by (relation "measure (\<lambda>(b, argc, c, s). MAXARGS - argc)") auto

text \<open>\<open>if(peek(ps, es, ...)) gettoken(ps, es, 0, 0)\<close> for one symbol.\<close>

definition take_sym :: "u8 list \<Rightarrow> nat \<Rightarrow> u8 \<Rightarrow> bool \<times> nat" where
  "take_sym b s c =
     (case peek b s {c} of (r, p) \<Rightarrow> if r then (case gettoken b p of (_, _, s1) \<Rightarrow> (True, s1)) else (False, p))"

lemma take_sym_shorter:
  assumes "take_sym b s c = (True, s1)"
  shows "s < s1 \<and> s1 \<le> length b"
proof -
  obtain p tok q eq where p: "peek b s {c} = (True, p)" "gettoken b p = (tok, (q, eq), s1)"
    using assms by (auto simp: take_sym_def split: prod.splits if_splits)
  have "s \<le> p" "p < length b" using peek_True [OF p(1)] by simp_all
  moreover have "skip_space b p = p" "at b p \<noteq> 0"
    using p(1) by (auto simp: peek_def Let_def skip_space_def skip_idem)
  then have "tok \<noteq> End" using p(2) by (auto simp: gettoken_def Let_def split: if_splits)
  ultimately show ?thesis using gettoken_bounds [OF p(2)] by auto
qed

text \<open>The loop over the \<open>&\<close> of \<open>parseline\<close>.\<close>

function backs :: "u8 list \<Rightarrow> span cmd \<Rightarrow> nat \<Rightarrow> span cmd \<times> nat" where
  "backs b cmd s =
     (case take_sym b s AMP of (r, s1) \<Rightarrow> if r then backs b (BACK cmd) s1 else (cmd, s1))"
  by pat_completeness auto
termination by (relation "measure (\<lambda>(b, c, s). length b - s)") (auto dest!: take_sym_shorter [OF sym])

text \<open>The parsers that call each other, with a bound on the depth of their calls.\<close>

fun parseline :: "nat \<Rightarrow> u8 list \<Rightarrow> nat \<Rightarrow> span cmd presult"
  and parsepipe :: "nat \<Rightarrow> u8 list \<Rightarrow> nat \<Rightarrow> span cmd presult"
  and parseexec :: "nat \<Rightarrow> u8 list \<Rightarrow> nat \<Rightarrow> span cmd presult"
  and parseblock :: "nat \<Rightarrow> u8 list \<Rightarrow> nat \<Rightarrow> span cmd presult" where
  "parseline 0 b s = Deep"
| "parseline (Suc n) b s =
     (case parsepipe n b s of
        Ok cmd s1 \<Rightarrow>
          (case backs b cmd s1 of (cmd', s2) \<Rightarrow>
           case take_sym b s2 SEMI of (r, s3) \<Rightarrow>
           if r then (case parseline n b s3 of Ok cmd2 s4 \<Rightarrow> Ok (LIST cmd' cmd2) s4 | e \<Rightarrow> e)
           else Ok cmd' s3)
      | e \<Rightarrow> e)"
| "parsepipe 0 b s = Deep"
| "parsepipe (Suc n) b s =
     (case parseexec n b s of
        Ok cmd s1 \<Rightarrow>
          (case take_sym b s1 BAR of (r, s2) \<Rightarrow>
           if r then (case parsepipe n b s2 of Ok cmd2 s3 \<Rightarrow> Ok (PIPE cmd cmd2) s3 | e \<Rightarrow> e)
           else Ok cmd s2)
      | e \<Rightarrow> e)"
| "parseexec 0 b s = Deep"
| "parseexec (Suc n) b s =
     (case peek b s {LPAREN} of (r, p) \<Rightarrow>
      if r then parseblock n b p else
      case parseredirs b (EXEC []) p of Ok cmd s1 \<Rightarrow> parseargs b 0 cmd s1 | e \<Rightarrow> e)"
| "parseblock 0 b s = Deep"
| "parseblock (Suc n) b s =
     (case take_sym b s LPAREN of (r, s1) \<Rightarrow>
      if \<not> r then Err ''parseblock'' else
      case parseline n b s1 of
        Ok cmd s2 \<Rightarrow>
          (case take_sym b s2 RPAREN of (r, s3) \<Rightarrow>
           if \<not> r then Err ''syntax - missing )'' else parseredirs b cmd s3)
      | e \<Rightarrow> e)"

text \<open>\<open>nulterminate\<close> writes a nul after every word; the buffer has the nul of the line at its end.\<close>

fun nulterminate :: "span cmd \<Rightarrow> u8 list \<Rightarrow> u8 list" where
  "nulterminate (EXEC ws) buf = fold (\<lambda>(q, eq) buf. buf[eq := 0]) ws buf"
| "nulterminate (REDIR c (q, eq) mode fd) buf = (nulterminate c buf)[eq := 0]"
| "nulterminate (PIPE l r) buf = nulterminate r (nulterminate l buf)"
| "nulterminate (LIST l r) buf = nulterminate r (nulterminate l buf)"
| "nulterminate (BACK c) buf = nulterminate c buf"

text \<open>\<open>parsecmd\<close> on the line \<open>b\<close>: the tree and the buffer after it.\<close>

definition parsecmd :: "u8 list \<Rightarrow> (span cmd \<times> u8 list) presult" where
  "parsecmd b =
     (case parseline (4 * length b + 4) b 0 of
        Ok cmd s \<Rightarrow>
          (case peek b s {} of (_, p) \<Rightarrow>
           if p \<noteq> length b then Err ''syntax'' else Ok (cmd, nulterminate cmd (b @ [0])) p)
      | Err msg \<Rightarrow> Err msg
      | Deep \<Rightarrow> Deep)"

section \<open>The bound on the depth is enough\<close>

declare parseredirs.simps [simp del] parseargs.simps [simp del] backs.simps [simp del]

text \<open>A result at a later position of the line.\<close>

definition later :: "u8 list \<Rightarrow> nat \<Rightarrow> 'a presult \<Rightarrow> bool" where
  "later b s r = (case r of Ok c s' \<Rightarrow> s \<le> s' \<and> s' \<le> length b | Err msg \<Rightarrow> True | Deep \<Rightarrow> False)"

lemma later_simps [simp]: "later b s (Ok c s') \<longleftrightarrow> s \<le> s' \<and> s' \<le> length b" "later b s (Err msg)" "\<not> later b s Deep"
  by (simp_all add: later_def)

lemma later_mono: "later b s' r \<Longrightarrow> s \<le> s' \<Longrightarrow> later b s r"
  by (cases r) auto

lemma later_redir_item: "s \<le> length b \<Longrightarrow> later b s (redir_item b s)"
  using redir_item_shorter [of b s] peek_bounds [of b s "{LESS, GREATER}"]
  by (auto simp: redir_item_def split: prod.splits if_splits)

lemma later_arg_item: "s \<le> length b \<Longrightarrow> later b s (arg_item b s)"
proof -
  assume s: "s \<le> length b"
  obtain r p where p: "peek b s {BAR, RPAREN, AMP, SEMI} = (r, p)" by (cases "peek b s {BAR, RPAREN, AMP, SEMI}")
  obtain tok q eq s1 where t: "gettoken b p = (tok, (q, eq), s1)" by (cases "gettoken b p") auto
  show ?thesis using peek_bounds [OF p s] gettoken_bounds [OF t] by (auto simp: arg_item_def p t)
qed

lemma later_parseredirs: "s \<le> length b \<Longrightarrow> later b s (parseredirs b cmd s)"
proof (induction b cmd s rule: parseredirs.induct)
  case (1 b cmd s)
  show ?case
  proof (cases "redir_item b s")
    case (Ok x s1)
    then have s1: "s \<le> s1" "s1 \<le> length b" using later_redir_item [OF 1(2)] by simp_all
    show ?thesis
    proof (cases x)
      case (Some y)
      obtain tok w where y: "y = (tok, w)" by (cases y)
      have "later b s1 (parseredirs b (add_redir tok cmd w) s1)" using 1(1) [OF Ok Some y [symmetric] s1(2)] .
      then show ?thesis using s1 Ok Some y by (subst parseredirs.simps) (auto intro: later_mono)
    qed (use Ok s1 in \<open>subst parseredirs.simps; simp\<close>)
  qed (use later_redir_item [OF 1(2)] in \<open>subst parseredirs.simps; simp\<close>)+
qed

lemma later_parseargs: "s \<le> length b \<Longrightarrow> later b s (parseargs b argc cmd s)"
proof (induction b argc cmd s rule: parseargs.induct)
  case (1 b argc cmd s)
  show ?case
  proof (cases "arg_item b s")
    case (Ok w s1)
    then have s1: "s \<le> s1" "s1 \<le> length b" using later_arg_item [OF 1(2)] by simp_all
    show ?thesis
    proof (cases w)
      case (Some x)
      have "later b s1 (parseredirs b (add_arg cmd x) s1)" using s1 later_parseredirs by blast
      then show ?thesis using 1(1) [OF Ok Some] s1 Ok Some
        by (subst parseargs.simps) (auto split: presult.splits intro: later_mono)
    qed (use Ok s1 in \<open>subst parseargs.simps; simp\<close>)
  qed (use later_arg_item [OF 1(2)] in \<open>subst parseargs.simps; simp\<close>)+
qed

lemma take_sym_bounds: "take_sym b s c = (r, s1) \<Longrightarrow> s \<le> length b \<Longrightarrow> s \<le> s1 \<and> s1 \<le> length b"
  using take_sym_shorter [of b s c s1] peek_bounds [of b s "{c}"]
  by (cases r) (auto simp: take_sym_def split: prod.splits if_splits)

lemma backs_bounds: "backs b cmd s = (c, s1) \<Longrightarrow> s \<le> length b \<Longrightarrow> s \<le> s1 \<and> s1 \<le> length b"
proof (induction b cmd s rule: backs.induct)
  case (1 b cmd s)
  obtain r s2 where t: "take_sym b s AMP = (r, s2)" by (cases "take_sym b s AMP")
  have e: "backs b cmd s = (if r then backs b (BACK cmd) s2 else (cmd, s2))" by (subst backs.simps) (simp add: t)
  note s2 = take_sym_bounds [OF t 1(3)]
  show ?case
  proof (cases r)
    case True
    then show ?thesis using 1(1) [OF t [symmetric] True] 1(2) s2 e by fastforce
  next
    case False
    then show ?thesis using 1(2) s2 e by simp
  qed
qed

lemma later_line:
  "s \<le> length b \<Longrightarrow> 4 * (length b - s) + 4 \<le> n \<Longrightarrow> later b s (parseline n b s)"
  "s \<le> length b \<Longrightarrow> 4 * (length b - s) + 3 \<le> n \<Longrightarrow> later b s (parsepipe n b s)"
  "s \<le> length b \<Longrightarrow> 4 * (length b - s) + 2 \<le> n \<Longrightarrow> later b s (parseexec n b s)"
  "s \<le> length b \<Longrightarrow> 4 * (length b - s) + 1 \<le> n \<Longrightarrow> later b s (parseblock n b s)"
proof (induction n b s and n b s and n b s and n b s rule: parseline_parsepipe_parseexec_parseblock.induct)
  case (2 n b s)
  have p: "later b s (parsepipe n b s)" using 2(1,3,4) by simp
  show ?case
  proof (cases "parsepipe n b s")
    case (Ok cmd s1)
    obtain cmd' s2 where b: "backs b cmd s1 = (cmd', s2)" by (cases "backs b cmd s1")
    obtain r s3 where t: "take_sym b s2 SEMI = (r, s3)" by (cases "take_sym b s2 SEMI")
    have s: "s \<le> s1" "s1 \<le> s2" "s2 \<le> s3" "s3 \<le> length b" "r \<longrightarrow> s2 < s3"
      using p Ok backs_bounds [OF b] take_sym_bounds [OF t] take_sym_shorter [of b s2 SEMI s3] t by auto
    have "r \<Longrightarrow> later b s3 (parseline n b s3)" using 2(2) [OF Ok b [symmetric] t [symmetric]] 2(4) s by simp
    then show ?thesis using Ok b t s by (auto split: presult.splits intro: later_mono)
  qed (use p in simp_all)
next
  case (4 n b s)
  have p: "later b s (parseexec n b s)" using 4(1,3,4) by simp
  show ?case
  proof (cases "parseexec n b s")
    case (Ok cmd s1)
    obtain r s2 where t: "take_sym b s1 BAR = (r, s2)" by (cases "take_sym b s1 BAR")
    have s: "s \<le> s1" "s1 \<le> s2" "s2 \<le> length b" "r \<longrightarrow> s1 < s2"
      using p Ok take_sym_bounds [OF t] take_sym_shorter [of b s1 BAR s2] t by auto
    have "r \<Longrightarrow> later b s2 (parsepipe n b s2)" using 4(2) [OF Ok t [symmetric]] 4(4) s by simp
    then show ?thesis using Ok t s by (auto split: presult.splits intro: later_mono)
  qed (use p in simp_all)
next
  case (6 n b s)
  obtain r p where t: "peek b s {LPAREN} = (r, p)" by (cases "peek b s {LPAREN}")
  note s = peek_bounds [OF t 6(2)]
  have "later b p (parseredirs b (EXEC []) p)" using s later_parseredirs by blast
  moreover have "r \<Longrightarrow> later b p (parseblock n b p)" using 6(1) [OF t [symmetric]] 6(3) s by simp
  ultimately show ?case using t s
    by (auto split: presult.splits intro: later_mono later_mono [OF later_parseargs])
next
  case (8 n b s)
  obtain r s1 where t: "take_sym b s LPAREN = (r, s1)" by (cases "take_sym b s LPAREN")
  have s: "s1 \<le> length b" "r \<longrightarrow> s < s1" using take_sym_bounds [OF t 8(2)] take_sym_shorter [of b s LPAREN s1] t by auto
  have l: "r \<Longrightarrow> later b s1 (parseline n b s1)" using 8(1) [OF t [symmetric]] 8(3) s by simp
  show ?case
  proof (cases "parseline n b s1")
    case (Ok cmd s2)
    obtain r' s3 where t': "take_sym b s2 RPAREN = (r', s3)" by (cases "take_sym b s2 RPAREN")
    have "r \<Longrightarrow> s1 \<le> s3 \<and> s3 \<le> length b" using l Ok take_sym_bounds [OF t'] by auto
    then show ?thesis using t t' Ok s later_parseredirs [of s3 b cmd] by (auto intro: later_mono)
  qed (use l t in auto)
qed simp_all

section \<open>Well-formed commands\<close>

text \<open>Every command has fewer than \<open>MAXARGS\<close> arguments, so that \<open>argv\<close> ends with a null pointer, and proper words.\<close>

fun cmd_ok :: "('w \<Rightarrow> bool) \<Rightarrow> 'w cmd \<Rightarrow> bool" where
  "cmd_ok P (EXEC ws) \<longleftrightarrow> length ws < MAXARGS \<and> (\<forall>w\<in>set ws. P w)"
| "cmd_ok P (REDIR c f mode fd) \<longleftrightarrow> cmd_ok P c \<and> P f \<and>
     (mode, fd) \<in> {(O_RDONLY, 0), (O_WRONLY OR O_CREATE OR O_TRUNC, 1), (O_WRONLY OR O_CREATE, 1)}"
| "cmd_ok P (PIPE l r) \<longleftrightarrow> cmd_ok P l \<and> cmd_ok P r"
| "cmd_ok P (LIST l r) \<longleftrightarrow> cmd_ok P l \<and> cmd_ok P r"
| "cmd_ok P (BACK c) \<longleftrightarrow> cmd_ok P c"

text \<open>A word: not empty, without blanks and symbols, and followed by one of them or the end of the line.\<close>

definition delim :: "u8 \<Rightarrow> bool" where
  "delim c \<longleftrightarrow> c \<in> whitespace \<or> c \<in> symbols"

definition word_ok :: "u8 list \<Rightarrow> span \<Rightarrow> bool" where
  "word_ok b w = (case w of (q, eq) \<Rightarrow> q < eq \<and> eq \<le> length b \<and> (\<forall>i. q \<le> i \<and> i < eq \<longrightarrow> \<not> delim (b ! i)) \<and>
     (eq < length b \<longrightarrow> delim (b ! eq)))"

lemma skip_run: "s \<le> i \<Longrightarrow> i < skip P b s \<Longrightarrow> P (b ! i)"
proof (induction P b s rule: skip.induct)
  case (1 P b s)
  show ?case
  proof (cases "s < length b \<and> P (b ! s)")
    case True
    then have "skip P b s = skip P b (Suc s)" by (subst skip.simps) simp
    then show ?thesis using 1 True by (cases "i = s") auto
  next
    case False
    then have "skip P b s = s" by (subst skip.simps) auto
    then show ?thesis using 1(2,3) by simp
  qed
qed

lemma gettoken_word:
  assumes "gettoken b s = (Word, w, s')" "s \<le> length b"
  shows "word_ok b w"
proof -
  obtain q eq where w: "w = (q, eq)" by (cases w)
  let ?P = "\<lambda>c. c \<notin> whitespace \<and> c \<notin> symbols"
  have e: "eq = skip ?P b q" using assms(1) by (auto simp: gettoken_def Let_def w split: if_splits)
  note t = gettoken_bounds [OF assms(1) [unfolded w] assms(2)]
  show ?thesis using t skip_run [of q _ ?P b] skip_stop [of ?P b q]
    by (auto simp: word_ok_def w delim_def e [symmetric])
qed

fun leaf :: "'w cmd \<Rightarrow> 'w list option" where
  "leaf (EXEC ws) = Some ws"
| "leaf (REDIR c f mode fd) = leaf c"
| "leaf c = None"

lemma add_arg_ok:
  "cmd_ok P c \<Longrightarrow> leaf c = Some ws \<Longrightarrow> P w \<Longrightarrow> Suc (length ws) < MAXARGS \<Longrightarrow>
     cmd_ok P (add_arg c w) \<and> leaf (add_arg c w) = Some (ws @ [w])"
  by (induction c w rule: add_arg.induct) auto

lemma add_redir_ok: "cmd_ok P c \<Longrightarrow> P w \<Longrightarrow> cmd_ok P (add_redir tok c w) \<and> leaf (add_redir tok c w) = leaf c"
  by (simp add: add_redir_def)

lemma redir_item_word:
  assumes "redir_item b s = Ok (Some (tok, w)) s2" "s \<le> length b"
  shows "word_ok b w"
proof -
  obtain p q eq s1 where p: "peek b s {LESS, GREATER} = (True, p)" "gettoken b p = (tok, (q, eq), s1)"
      "gettoken b s1 = (Word, w, s2)"
    using assms by (auto simp: redir_item_def split: prod.splits if_splits)
  have "p \<le> length b" using peek_bounds [OF p(1) assms(2)] by simp
  then show ?thesis using gettoken_bounds [OF p(2)] gettoken_word [OF p(3)] by simp
qed

lemma arg_item_word: "arg_item b s = Ok (Some w) s1 \<Longrightarrow> s \<le> length b \<Longrightarrow> word_ok b w"
  using peek_bounds [of b s "{BAR, RPAREN, AMP, SEMI}"] gettoken_word
  by (auto simp: arg_item_def split: prod.splits if_splits)

lemma parseredirs_ok:
  "parseredirs b cmd s = Ok c s' \<Longrightarrow> s \<le> length b \<Longrightarrow> cmd_ok (word_ok b) cmd \<Longrightarrow> cmd_ok (word_ok b) c \<and> leaf c = leaf cmd"
proof (induction b cmd s rule: parseredirs.induct)
  case (1 b cmd s)
  note l = later_redir_item [OF 1(3)]
  obtain x s1 where x: "redir_item b s = Ok x s1" using 1(2) by (cases "redir_item b s") (simp_all add: parseredirs.simps [of b cmd s])
  show ?case
  proof (cases x)
    case None
    then show ?thesis using 1(2,4) x by (simp add: parseredirs.simps [of b cmd s])
  next
    case (Some y)
    obtain tok w where y: "y = (tok, w)" by (cases y)
    have "cmd_ok (word_ok b) (add_redir tok cmd w)" "leaf (add_redir tok cmd w) = leaf cmd"
      using add_redir_ok [OF 1(4)] redir_item_word [of b s tok w s1] x Some y 1(3) by simp_all
    then show ?thesis using 1(1) [OF x Some y [symmetric]] 1(2) x Some y l by (simp add: parseredirs.simps [of b cmd s])
  qed
qed

lemma parseargs_ok:
  "parseargs b argc cmd s = Ok c s' \<Longrightarrow> s \<le> length b \<Longrightarrow> cmd_ok (word_ok b) cmd \<Longrightarrow> leaf cmd = Some ws \<Longrightarrow>
     length ws = argc \<Longrightarrow> cmd_ok (word_ok b) c"
proof (induction b argc cmd s arbitrary: ws rule: parseargs.induct)
  case (1 b argc cmd s)
  note l = later_arg_item [OF 1(3)]
  obtain x s1 where x: "arg_item b s = Ok x s1" using 1(2) by (cases "arg_item b s") (simp_all add: parseargs.simps [of b argc])
  show ?case
  proof (cases x)
    case None
    then show ?thesis using 1(2,4) x by (simp add: parseargs.simps [of b argc])
  next
    case (Some w)
    obtain cmd' s2 where r: "\<not> MAXARGS \<le> Suc argc" "parseredirs b (add_arg cmd w) s1 = Ok cmd' s2" "parseargs b (Suc argc) cmd' s2 = Ok c s'"
      using 1(2) x Some by (auto simp: parseargs.simps [of b argc cmd] split: if_splits presult.splits)
    have a: "cmd_ok (word_ok b) (add_arg cmd w)" "leaf (add_arg cmd w) = Some (ws @ [w])"
      using add_arg_ok [OF 1(4,5)] arg_item_word [of b s w s1] x Some 1(3,6) r(1) by simp_all
    have s1: "s1 \<le> length b" using l x by simp
    have "cmd_ok (word_ok b) cmd'" "leaf cmd' = Some (ws @ [w])" using parseredirs_ok [OF r(2) s1 a(1)] a(2) by simp_all
    moreover have "s2 \<le> length b" using later_parseredirs [OF s1, of "add_arg cmd w"] r(2) by simp
    ultimately show ?thesis using 1(1) [OF x Some r(1,2)] r(3) 1(6) by simp
  qed
qed

lemma backs_ok: "backs b cmd s = (c, s') \<Longrightarrow> cmd_ok P cmd \<Longrightarrow> cmd_ok P c"
proof (induction b cmd s rule: backs.induct)
  case (1 b cmd s)
  obtain r s2 where t: "take_sym b s AMP = (r, s2)" by (cases "take_sym b s AMP")
  have e: "backs b cmd s = (if r then backs b (BACK cmd) s2 else (cmd, s2))" by (subst backs.simps) (simp add: t)
  show ?case using 1(1) [OF t [symmetric]] 1(2,3) e by (cases r) auto
qed

lemma parseline_ok:
  "parseline n b s = Ok c s' \<Longrightarrow> s \<le> length b \<Longrightarrow> cmd_ok (word_ok b) c \<and> s' \<le> length b"
  "parsepipe n b s = Ok c s' \<Longrightarrow> s \<le> length b \<Longrightarrow> cmd_ok (word_ok b) c \<and> s' \<le> length b"
  "parseexec n b s = Ok c s' \<Longrightarrow> s \<le> length b \<Longrightarrow> cmd_ok (word_ok b) c \<and> s' \<le> length b"
  "parseblock n b s = Ok c s' \<Longrightarrow> s \<le> length b \<Longrightarrow> cmd_ok (word_ok b) c \<and> s' \<le> length b"
proof (induction n b s and n b s and n b s and n b s arbitrary: c s' and c s' and c s' and c s'
    rule: parseline_parsepipe_parseexec_parseblock.induct)
  case (2 n b s)
  obtain cmd s1 where p: "parsepipe n b s = Ok cmd s1" using 2(3) by (auto split: presult.splits)
  obtain cmd' s2 where b: "backs b cmd s1 = (cmd', s2)" by (cases "backs b cmd s1")
  obtain r s3 where t: "take_sym b s2 SEMI = (r, s3)" by (cases "take_sym b s2 SEMI")
  have c: "cmd_ok (word_ok b) cmd" "s1 \<le> length b" using 2(1) [OF p 2(4)] by simp_all
  have s: "cmd_ok (word_ok b) cmd'" "s3 \<le> length b"
    using backs_ok [OF b c(1)] backs_bounds [OF b c(2)] take_sym_bounds [OF t] by auto
  show ?case using 2(2) [OF p b [symmetric] t [symmetric]] 2(3) p b t s by (auto split: presult.splits if_splits)
next
  case (4 n b s)
  obtain cmd s1 where p: "parseexec n b s = Ok cmd s1" using 4(3) by (auto split: presult.splits)
  obtain r s2 where t: "take_sym b s1 BAR = (r, s2)" by (cases "take_sym b s1 BAR")
  have c: "cmd_ok (word_ok b) cmd" "s1 \<le> length b" using 4(1) [OF p 4(4)] by simp_all
  have "s2 \<le> length b" using take_sym_bounds [OF t c(2)] by simp
  then show ?case using 4(2) [OF p t [symmetric]] 4(3) p t c by (auto split: presult.splits if_splits)
next
  case (6 n b s)
  obtain r p where t: "peek b s {LPAREN} = (r, p)" by (cases "peek b s {LPAREN}")
  note s = peek_bounds [OF t 6(3)]
  show ?case
  proof (cases r)
    case True
    then show ?thesis using 6(1) [OF t [symmetric]] 6(2) t s by simp
  next
    case False
    then obtain cmd s1 where c: "parseredirs b (EXEC []) p = Ok cmd s1" "parseargs b 0 cmd s1 = Ok c s'"
      using 6(2) t by (auto split: presult.splits)
    have k: "cmd_ok (word_ok b) cmd" "leaf cmd = Some []" using parseredirs_ok [OF c(1) s(2)] by (simp_all add: MAXARGS_def)
    have "s1 \<le> length b" using later_parseredirs [OF s(2), of "EXEC []"] c(1) by simp
    then show ?thesis using parseargs_ok [OF c(2) _ k] later_parseargs [of s1 b 0 cmd] c(2) by simp
  qed
next
  case (8 n b s)
  obtain r s1 where t: "take_sym b s LPAREN = (r, s1)" by (cases "take_sym b s LPAREN")
  then have r: "r" using 8(2) by (auto split: if_splits)
  have s1: "s1 \<le> length b" using take_sym_bounds [OF t 8(3)] by simp
  obtain cmd s2 where l: "parseline n b s1 = Ok cmd s2" using 8(2) t r by (auto split: presult.splits)
  obtain r' s3 where t': "take_sym b s2 RPAREN = (r', s3)" by (cases "take_sym b s2 RPAREN")
  have c: "cmd_ok (word_ok b) cmd" "s2 \<le> length b" using 8(1) [OF t [symmetric]] r l s1 by simp_all
  have s3: "s3 \<le> length b" using take_sym_bounds [OF t' c(2)] by simp
  have "parseredirs b cmd s3 = Ok c s'" using 8(2) t r l t' by (auto split: if_splits)
  then show ?case using parseredirs_ok [OF _ s3 c(1), of c s'] later_parseredirs [OF s3, of cmd] by simp
qed simp_all

section \<open>The strings after nulterminate\<close>

lemma length_nulterminate [simp]: "length (nulterminate c buf) = length buf"
proof -
  have "length (fold (\<lambda>(q, eq) buf. buf[eq := 0]) ws buf) = length buf" for ws and buf :: "u8 list"
    by (induction ws arbitrary: buf) (auto split: prod.splits)
  then show ?thesis by (induction c buf rule: nulterminate.induct) auto
qed

lemma takeWhile_zero: "0 \<notin> set xs \<Longrightarrow> takeWhile (\<lambda>x. x \<noteq> (0 :: u8)) (xs @ 0 # ys) = xs"
  by (induction xs) auto

lemma nth_update: "i < length xs \<Longrightarrow> xs[j := x] ! i = (if i = j then x else xs ! i)"
  by (cases "i = j") simp_all

lemma nth_nulterminate:
  "i < length buf \<Longrightarrow> nulterminate c buf ! i = (if i \<in> snd ` set_cmd c then 0 else buf ! i)"
proof -
  have "i < length buf \<Longrightarrow> fold (\<lambda>(q, eq) buf. buf[eq := 0]) ws buf ! i = (if i \<in> snd ` set ws then 0 else buf ! i)"
    for ws :: "span list" and buf :: "u8 list"
    by (induction ws arbitrary: buf) (auto split: prod.splits simp: nth_update)
  then show "i < length buf \<Longrightarrow> ?thesis"
    by (induction c buf rule: nulterminate.induct) (simp_all add: nth_update image_Un)
qed

lemma cmd_ok_words: "cmd_ok P c \<Longrightarrow> w \<in> set_cmd c \<Longrightarrow> P w"
  by (induction c) auto

text \<open>The byte that \<open>nulterminate\<close> writes for one word is not part of another, so every word is a string of its own.\<close>

lemma word_string:
  assumes c: "cmd_ok (word_ok b) c" and w: "(q, eq) \<in> set_cmd c" and z: "0 \<notin> set b"
  shows "takeWhile (\<lambda>x. x \<noteq> 0) (drop q (nulterminate c (b @ [0]))) = take (eq - q) (drop q b)"
proof -
  let ?n = "nulterminate c (b @ [0])"
  have k: "q < eq" "eq \<le> length b" "\<And>i. q \<le> i \<Longrightarrow> i < eq \<Longrightarrow> \<not> delim (b ! i)"
    using cmd_ok_words [OF c w] by (auto simp: word_ok_def)
  have same: "?n ! i = b ! i" if "q \<le> i" "i < eq" for i
  proof -
    have "i \<notin> snd ` set_cmd c"
    proof
      assume "i \<in> snd ` set_cmd c"
      then obtain q' where "(q', i) \<in> set_cmd c" by auto
      then have "word_ok b (q', i)" by (rule cmd_ok_words [OF c])
      then show False using k that by (auto simp: word_ok_def)
    qed
    then show ?thesis using k(2) that by (simp add: nth_nulterminate nth_append)
  qed
  have e: "?n ! eq = 0" using k w by (subst nth_nulterminate) (auto intro: rev_image_eqI)
  have "take (eq - q) (drop q ?n) = take (eq - q) (drop q b)"
    using k same by (intro nth_equalityI) auto
  moreover have "drop q ?n = take (eq - q) (drop q ?n) @ 0 # drop (Suc eq) ?n"
    using k e id_take_nth_drop [of "eq - q" "drop q ?n"] by simp
  ultimately have d: "drop q ?n = take (eq - q) (drop q b) @ 0 # drop (Suc eq) ?n" by simp
  have "0 \<notin> set (take (eq - q) (drop q b))" using z by (meson in_set_dropD in_set_takeD)
  then show ?thesis unfolding d by (rule takeWhile_zero)
qed

text \<open>C39: \<open>parsecmd\<close> always returns: an error, or a well-formed command, whose words are then strings in the buffer that
  end with a nul and have the text that they had in the line.\<close>

theorem parsecmd_well_formed:
  assumes "0 \<notin> set b"
  shows "case parsecmd b of Ok (c, buf) s \<Rightarrow> cmd_ok (word_ok b) c \<and>
        (\<forall>(q, eq) \<in> set_cmd c. takeWhile (\<lambda>x. x \<noteq> 0) (drop q buf) = take (eq - q) (drop q b))
      | Err msg \<Rightarrow> True | Deep \<Rightarrow> False"
proof (cases "parseline (4 * length b + 4) b 0")
  case (Ok c s)
  then have "cmd_ok (word_ok b) c" using parseline_ok(1) by blast
  then show ?thesis using Ok word_string [of b c] assms by (auto simp: parsecmd_def split: prod.splits)
next
  case Deep
  then show ?thesis using later_line(1) [of 0 b "4 * length b + 4"] by simp
qed (simp add: parsecmd_def)

lemma parse_example: "parsecmd [97, 62, 102] = Ok (REDIR (EXEC [(0, 1)]) (2, 3) 0x601 1, [97, 0, 102, 0]) 3"
  by code_simp

lemma parsecmd_well_formed_witness: "takeWhile (\<lambda>x. x \<noteq> 0) (drop 2 [97, 0, 102, 0]) = [102 :: u8]"
  using parsecmd_well_formed [of "[97, 62, 102]"] unfolding parse_example by simp

end
