(* ===== verification/Shell_Syntax.thy ===== *)
theory Shell_Syntax
  imports Sh
begin

text \<open>
  The language of the shell: a printer of command trees, with parentheses where the grammar of \<open>user/sh.c\<close> needs them,
  and the proof that \<open>parsecmd\<close> reads every printed tree back.
\<close>

section \<open>A printer\<close>

text \<open>Levels: 0 what \<open>parseexec\<close> parses, 1 what \<open>parsepipe\<close> does, 2 that with \<open>&\<close>, 3 what \<open>parseline\<close> parses.\<close>

definition redir_sym :: "u32 \<Rightarrow> u8 list" where
  "redir_sym mode =
     (if mode = O_RDONLY then [LESS] else if mode = O_WRONLY OR O_CREATE OR O_TRUNC then [GREATER] else [GREATER, GREATER])"

definition paren :: "bool \<Rightarrow> u8 list \<Rightarrow> u8 list" where
  "paren p x = (if p then LPAREN # x @ [RPAREN] else x)"

primrec print :: "u8 list cmd \<Rightarrow> nat \<Rightarrow> u8 list" where
  "print (EXEC ws) lvl = concat (map (\<lambda>w. w @ [32]) ws)"
| "print (REDIR c f mode fd) lvl = print c 0 @ redir_sym mode @ f @ [32]"
| "print (PIPE l r) lvl = paren (lvl < 1) (print l 0 @ BAR # print r 1)"
| "print (BACK c) lvl = paren (lvl < 2) (print c 2 @ [AMP])"
| "print (LIST l r) lvl = paren (lvl < 3) (print l 2 @ SEMI # print r 3)"

definition plain_word :: "u8 list \<Rightarrow> bool" where
  "plain_word w \<longleftrightarrow> w \<noteq> [] \<and> (\<forall>c\<in>set w. c \<noteq> 0 \<and> \<not> delim c)"

section \<open>Tokens of a line\<close>

definition norm :: "u8 list \<Rightarrow> u8 list" where
  "norm x = dropWhile (\<lambda>c. c \<in> whitespace) x"

text \<open>The line from position \<open>s\<close> is \<open>x\<close>.\<close>

definition reads :: "u8 list \<Rightarrow> nat \<Rightarrow> u8 list \<Rightarrow> bool" where
  "reads b s x \<longleftrightarrow> s \<le> length b \<and> drop s b = x \<and> 0 \<notin> set b"

definition span_text :: "u8 list \<Rightarrow> span \<Rightarrow> u8 list" where
  "span_text b w = (case w of (q, eq) \<Rightarrow> take (eq - q) (drop q b))"

lemma drop_skip: "s \<le> length b \<Longrightarrow> drop (skip P b s) b = dropWhile P (drop s b)"
proof (induction P b s rule: skip.induct)
  case (1 P b s)
  show ?case
  proof (cases "s < length b \<and> P (b ! s)")
    case True
    then have "skip P b s = skip P b (Suc s)" by (subst skip.simps) simp
    moreover have "drop s b = b ! s # drop (Suc s) b" using True by (simp add: Cons_nth_drop_Suc)
    ultimately show ?thesis using 1 True by simp
  next
    case False
    then have "skip P b s = s" by (subst skip.simps) auto
    then show ?thesis using False 1(2) by (cases "s = length b") (auto simp: Cons_nth_drop_Suc [symmetric])
  qed
qed

lemma reads_skip: "reads b s x \<Longrightarrow> reads b (skip_space b s) (norm x)"
  by (simp add: reads_def skip_space_def norm_def drop_skip skip_le)

lemma reads_at: "reads b s x \<Longrightarrow> at b s = (case x of [] \<Rightarrow> 0 | c # _ \<Rightarrow> c)"
  by (auto simp: reads_def at_def hd_drop_conv_nth [symmetric] split: list.splits)

lemma reads_nonzero: "reads b s (c # x) \<Longrightarrow> c \<noteq> 0"
  unfolding reads_def by (metis in_set_dropD list.set_intros(1))

lemma norm_idem [simp]: "norm (norm x) = norm x"
  by (simp add: norm_def)

lemma norm_nonspace: "c \<notin> whitespace \<Longrightarrow> norm (c # x) = c # x"
  by (simp add: norm_def)

lemma norm_space [simp]: "norm (32 # x) = norm x"
  by (simp add: norm_def whitespace_def)

lemma reads_append: "reads b s (w @ x) \<Longrightarrow> reads b (s + length w) x"
  unfolding reads_def by (metis add.commute append_eq_conv_conj drop_drop length_append length_drop le_add_diff_inverse nat_add_left_cancel_le le_add1)

lemma reads_Cons: "reads b s (c # x) \<Longrightarrow> reads b (Suc s) x"
  using reads_append [of b s "[c]" x] by simp

lemma reads_peek:
  assumes "reads b s x"
  obtains p where "peek b s toks = (norm x \<noteq> [] \<and> hd (norm x) \<in> toks, p)" "reads b p (norm x)"
proof -
  note r = reads_skip [OF assms]
  have "peek b s toks = (norm x \<noteq> [] \<and> hd (norm x) \<in> toks, skip_space b s)"
    using reads_at [OF r] reads_nonzero [of b "skip_space b s"] r by (cases "norm x") (auto simp: peek_def Let_def)
  then show thesis using that r by blast
qed

lemma reads_nth: "reads b s (c # x) \<Longrightarrow> s < length b \<and> b ! s = c"
  unfolding reads_def by (metis drop_all linorder_not_less list.distinct(1) nth_via_drop)

lemma reads_skip_self:
  assumes "reads b s (c # x)" "c \<notin> whitespace"
  shows "skip_space b s = s"
proof -
  have "s < length b" "b ! s = c" using reads_nth [OF assms(1)] by simp_all
  then show ?thesis using assms(2) by (simp add: skip_space_def skip.simps [of _ b s])
qed

lemma gettoken_sym:
  assumes r: "reads b s (c # x)" and c: "c \<in> {BAR, LPAREN, RPAREN, SEMI, AMP, LESS}"
  obtains w s' where "gettoken b s = (Sym c, w, s')" "reads b s' (norm x)"
proof -
  have "c \<notin> whitespace" using c by (auto simp: sh_chars)
  then have k: "skip_space b s = s" using reads_skip_self r by blast
  have "gettoken b s = (Sym c, (s, Suc s), skip_space b (Suc s))"
    using c reads_at [OF r] reads_nonzero [OF r] by (simp add: gettoken_def Let_def k)
  then show thesis using that reads_skip [OF reads_Cons [OF r]] by blast
qed

lemma plain_wordE:
  assumes "plain_word f"
  obtains d g where "f = d # g" "d \<noteq> 0" "d \<notin> whitespace" "d \<notin> symbols"
  using assms by (cases f) (auto simp: plain_word_def delim_def)

lemma gettoken_redir:
  assumes r: "reads b s (redir_sym mode @ f @ x)" and f: "plain_word f"
  obtains w s' where "gettoken b s = (if mode = O_RDONLY then Sym LESS else if mode = O_WRONLY OR O_CREATE OR O_TRUNC
      then Sym GREATER else Append, w, s')" "reads b s' (f @ x)"
proof -
  obtain d g where d: "f = d # g" "d \<noteq> 0" "d \<notin> whitespace" "d \<notin> symbols" using f by (rule plain_wordE)
  have "\<exists>c y. redir_sym mode @ f @ x = c # y \<and> c \<in> {LESS, GREATER}" by (simp add: redir_sym_def)
  then obtain c y where c: "redir_sym mode @ f @ x = c # y" "c \<in> {LESS, GREATER}" by blast
  have k: "skip_space b s = s" using reads_skip_self [OF r [unfolded c(1)]] c(2) by (auto simp: sh_chars)
  have nx: "norm (f @ x) = f @ x" using d by (simp add: norm_nonspace)
  consider (less) "mode = O_RDONLY" | (gt) "mode \<noteq> O_RDONLY" "mode = O_WRONLY OR O_CREATE OR O_TRUNC"
    | (app) "mode \<noteq> O_RDONLY" "mode \<noteq> O_WRONLY OR O_CREATE OR O_TRUNC" by blast
  then show thesis
  proof cases
    case less
    then have "reads b s (LESS # f @ x)" using r by (simp add: redir_sym_def)
    then show thesis using gettoken_sym [of b s LESS "f @ x"] that less nx by auto
  next
    case gt
    then have r: "reads b s (GREATER # f @ x)" using r by (simp add: redir_sym_def)
    have "at b (Suc s) \<noteq> GREATER" using reads_at [OF reads_Cons [OF r]] d by (auto simp: symbols_def GREATER_def)
    then have "gettoken b s = (Sym GREATER, (s, Suc s), skip_space b (Suc s))"
      using reads_at [OF r] by (simp add: gettoken_def Let_def k sh_chars)
    then show thesis using that gt reads_skip [OF reads_Cons [OF r]] nx by auto
  next
    case app
    then have r: "reads b s (GREATER # GREATER # f @ x)" using r by (simp add: redir_sym_def)
    have "gettoken b s = (Append, (s, Suc (Suc s)), skip_space b (Suc (Suc s)))"
      using reads_at [OF r] reads_at [OF reads_Cons [OF r]] by (simp add: gettoken_def Let_def k sh_chars)
    then show thesis using that app reads_skip [OF reads_Cons [OF reads_Cons [OF r]]] nx by auto
  qed
qed

lemma gettoken_plain:
  assumes r: "reads b s (w @ 32 # x)" and w: "plain_word w"
  obtains sp s' where "gettoken b s = (Word, sp, s')" "span_text b sp = w" "reads b s' (norm x)"
proof -
  let ?P = "\<lambda>c. c \<notin> whitespace \<and> c \<notin> symbols"
  obtain d g where d: "w = d # g" "d \<noteq> 0" "d \<notin> whitespace" "d \<notin> symbols" using w by (rule plain_wordE)
  have k: "skip_space b s = s" using reads_skip_self [of b s d "g @ 32 # x"] r d by simp
  have dw: "dropWhile ?P (w @ 32 # x) = 32 # x"
    using w by (subst dropWhile_append2) (auto simp: plain_word_def delim_def whitespace_def)
  have len: "s + length w \<le> length b" using reads_append [OF r] by (simp add: reads_def)
  have "drop (skip ?P b s) b = drop (s + length w) b"
    using drop_skip [of s b ?P] dw r reads_append [OF r] by (simp add: reads_def)
  then have "length b - skip ?P b s = length b - (s + length w)" by (metis length_drop)
  then have e: "skip ?P b s = s + length w" using len skip_le [of s b ?P] by simp
  have "d \<notin> {BAR, LPAREN, RPAREN, SEMI, AMP, LESS, GREATER}" using d(4) by (auto simp: sh_chars)
  then have "gettoken b s = (Word, (s, s + length w), skip_space b (s + length w))"
    using reads_at [OF r] d(1,2) e by (simp add: gettoken_def Let_def k)
  moreover have "span_text b (s, s + length w) = w" using r by (simp add: span_text_def reads_def)
  ultimately show thesis using that reads_skip [OF reads_append [OF r]] by simp
qed

lemma reads_take_sym:
  assumes r: "reads b s x" and c: "c \<in> {BAR, LPAREN, RPAREN, SEMI, AMP, LESS}"
  obtains (yes) y s' where "norm x = c # y" "take_sym b s c = (True, s')" "reads b s' (norm y)"
    | (no) p where "norm x = [] \<or> hd (norm x) \<noteq> c" "take_sym b s c = (False, p)" "reads b p (norm x)"
proof -
  obtain p where p: "peek b s {c} = (norm x \<noteq> [] \<and> hd (norm x) \<in> {c}, p)" "reads b p (norm x)"
    by (rule reads_peek [OF r])
  show thesis
  proof (cases "norm x \<noteq> [] \<and> hd (norm x) = c")
    case True
    then obtain y where y: "norm x = c # y" by (cases "norm x") auto
    then obtain w s' where "gettoken b p = (Sym c, w, s')" "reads b s' (norm y)"
      using gettoken_sym [OF p(2) [unfolded y] c] by blast
    then show thesis using yes y p(1) by (auto simp: take_sym_def)
  next
    case False
    then show thesis using no p by (auto simp: take_sym_def)
  qed
qed

lemma gettoken_end:
  assumes "reads b s []"
  obtains w s' where "gettoken b s = (End, w, s')" "reads b s' []"
proof -
  have r: "reads b (skip_space b s) []" using reads_skip [OF assms] by (simp add: norm_def)
  have "gettoken b s = (End, (skip_space b s, skip_space b s), skip_space b (skip_space b s))"
    using reads_at [OF r] by (simp add: gettoken_def Let_def)
  then show thesis using that reads_skip [OF r] by (simp add: norm_def)
qed

section \<open>Redirections and arguments\<close>

type_synonym redir = "u8 list \<times> u32 \<times> nat"

definition redir_ok :: "redir \<Rightarrow> bool" where
  "redir_ok r = (case r of (f, mode, fd) \<Rightarrow> plain_word f \<and>
     (mode, fd) \<in> {(O_RDONLY, 0), (O_WRONLY OR O_CREATE OR O_TRUNC, 1), (O_WRONLY OR O_CREATE, 1)})"

definition print_redirs :: "redir list \<Rightarrow> u8 list" where
  "print_redirs rs = concat (map (\<lambda>(f, mode, fd). redir_sym mode @ f @ [32]) rs)"

definition add_redirs :: "u8 list cmd \<Rightarrow> redir list \<Rightarrow> u8 list cmd" where
  "add_redirs c rs = fold (\<lambda>(f, mode, fd) c. REDIR c f mode fd) rs c"

abbreviation cmd_text :: "u8 list \<Rightarrow> span cmd \<Rightarrow> u8 list cmd" where
  "cmd_text b \<equiv> map_cmd (span_text b)"

definition starts :: "u8 list \<Rightarrow> u8 set \<Rightarrow> bool" where
  "starts x A \<longleftrightarrow> norm x = [] \<or> hd (norm x) \<in> A"

lemma norm_head: "norm x \<noteq> [] \<Longrightarrow> hd (norm x) \<notin> whitespace"
  using hd_dropWhile [of "\<lambda>c. c \<in> whitespace" x] by (simp add: norm_def)

lemma norm_redirs:
  assumes "redir_ok r"
  shows "norm (print_redirs (r # rs) @ x) = print_redirs (r # rs) @ x" "hd (print_redirs (r # rs) @ x) \<in> {LESS, GREATER}"
  by (auto simp: print_redirs_def redir_sym_def norm_def sh_chars split: prod.splits)

lemma redir_modes: "O_WRONLY OR O_CREATE OR O_TRUNC \<noteq> O_RDONLY" "O_WRONLY OR O_CREATE \<noteq> O_RDONLY"
    "O_WRONLY OR O_CREATE \<noteq> O_WRONLY OR O_CREATE OR O_TRUNC"
  by (simp_all add: O_WRONLY_def O_CREATE_def O_TRUNC_def O_RDONLY_def)

lemma redir_item_none:
  assumes "reads b s y" "norm y = [] \<or> hd (norm y) \<notin> {LESS, GREATER}"
  obtains p where "redir_item b s = Ok None p" "reads b p (norm y)"
proof -
  obtain p where "peek b s {LESS, GREATER} = (norm y \<noteq> [] \<and> hd (norm y) \<in> {LESS, GREATER}, p)" "reads b p (norm y)"
    by (rule reads_peek [OF assms(1)])
  then show thesis using that assms(2) by (auto simp: redir_item_def)
qed

lemma redir_item_some:
  assumes r: "reads b s y" and y: "norm y = redir_sym mode @ f @ 32 # x" and ok: "redir_ok (f, mode, fd)"
  obtains tok sp s' where "redir_item b s = Ok (Some (tok, sp)) s'" "reads b s' (norm x)" "span_text b sp = f"
    "\<And>c :: span cmd. add_redir tok c sp = REDIR c sp mode fd"
proof -
  have f: "plain_word f" using ok by (simp add: redir_ok_def)
  obtain p where p0: "peek b s {LESS, GREATER} = (norm y \<noteq> [] \<and> hd (norm y) \<in> {LESS, GREATER}, p)" "reads b p (norm y)"
    by (rule reads_peek [OF r])
  have "norm y \<noteq> [] \<and> hd (norm y) \<in> {LESS, GREATER}" by (simp add: y redir_sym_def)
  then have p: "peek b s {LESS, GREATER} = (True, p)" "reads b p (norm y)" using p0 by simp_all
  obtain w s1 where t: "gettoken b p = (if mode = O_RDONLY then Sym LESS else if mode = O_WRONLY OR O_CREATE OR O_TRUNC
      then Sym GREATER else Append, w, s1)" "reads b s1 (f @ 32 # x)"
    by (rule gettoken_redir [OF p(2) [unfolded y] f])
  obtain sp s2 where t2: "gettoken b s1 = (Word, sp, s2)" "span_text b sp = f" "reads b s2 (norm x)"
    by (rule gettoken_plain [OF t(2) f])
  show thesis
    by (rule that [OF _ t2(3,2)]) (use p t t2 ok redir_modes in \<open>auto simp: redir_item_def redir_ok_def add_redir_def GREATER_def LESS_def\<close>)
qed

lemma parseredirs_run:
  assumes "reads b s y" "norm y = norm (print_redirs rs @ x)" "\<forall>r\<in>set rs. redir_ok r"
    "norm x = [] \<or> hd (norm x) \<notin> {LESS, GREATER}"
  shows "\<exists>c' s'. parseredirs b c s = Ok c' s' \<and> cmd_text b c' = add_redirs (cmd_text b c) rs \<and> reads b s' (norm x)"
  using assms
proof (induction rs arbitrary: s y c)
  case Nil
  then have "norm y = norm x" by (simp add: print_redirs_def)
  then obtain p where "redir_item b s = Ok None p" "reads b p (norm x)"
    using redir_item_none [OF Nil(1)] Nil(4) by auto
  then show ?case by (simp add: parseredirs.simps [of b c s] add_redirs_def)
next
  case (Cons r rs)
  obtain f mode fd where r: "r = (f, mode, fd)" by (cases r)
  have ok: "redir_ok (f, mode, fd)" using Cons.prems(3) r by simp
  have y: "norm y = redir_sym mode @ f @ 32 # (print_redirs rs @ x)"
    using Cons.prems(2) norm_redirs(1) [of r rs x] ok r by (simp add: print_redirs_def)
  obtain tok sp s' where t: "redir_item b s = Ok (Some (tok, sp)) s'" "reads b s' (norm (print_redirs rs @ x))" "span_text b sp = f"
      "\<And>c :: span cmd. add_redir tok c sp = REDIR c sp mode fd"
    by (rule redir_item_some [OF Cons.prems(1) y ok]) blast
  from Cons.IH [OF t(2) _ _ Cons.prems(4), of "REDIR c sp mode fd"] Cons.prems(3) show ?case
    by (simp add: parseredirs.simps [of b c s] t(1,3,4) add_redirs_def r)
qed


abbreviation words :: "u8 list list \<Rightarrow> u8 list" where
  "words ws \<equiv> concat (map (\<lambda>w. w @ [32]) ws)"

lemma starts_mono: "starts x A \<Longrightarrow> A \<subseteq> B \<Longrightarrow> starts x B"
  by (auto simp: starts_def)

lemma starts_Cons: "c \<notin> whitespace \<Longrightarrow> starts (c # x) A \<longleftrightarrow> c \<in> A"
  by (simp add: starts_def norm_nonspace)

lemma norm_words:
  assumes "plain_word w"
  shows "norm (words (w # ws) @ x) = w @ 32 # words ws @ x" "hd (words (w # ws) @ x) \<notin> symbols"
proof -
  obtain d g where d: "w = d # g" "d \<noteq> 0" "d \<notin> whitespace" "d \<notin> symbols" using assms by (rule plain_wordE)
  then show "norm (words (w # ws) @ x) = w @ 32 # words ws @ x" "hd (words (w # ws) @ x) \<notin> symbols"
    by (simp_all add: norm_nonspace)
qed

lemma parseargs_end:
  assumes "reads b s y" "norm y = norm x" "starts x {BAR, RPAREN, AMP, SEMI}"
  obtains p where "parseargs b argc c s = Ok c p" "reads b p (norm x)"
proof -
  obtain p where p: "peek b s {BAR, RPAREN, AMP, SEMI} = (norm y \<noteq> [] \<and> hd (norm y) \<in> {BAR, RPAREN, AMP, SEMI}, p)"
      "reads b p (norm y)"
    by (rule reads_peek [OF assms(1)])
  show thesis
  proof (cases "norm x = []")
    case True
    then obtain w s' where "gettoken b p = (End, w, s')" "reads b s' []" using gettoken_end [of b p] p(2) assms(2) by auto
    then show thesis using that True p(1) assms(2) by (simp add: parseargs.simps [of b argc c s] arg_item_def)
  next
    case False
    then have "peek b s {BAR, RPAREN, AMP, SEMI} = (True, p)" using p(1) assms(2,3) by (simp add: starts_def)
    then show thesis using that p(2) assms(2) by (simp add: parseargs.simps [of b argc c s] arg_item_def)
  qed
qed

lemma arg_item_some:
  assumes r: "reads b s y" and y: "norm y = w @ 32 # x" and w: "plain_word w"
  obtains sp s' where "arg_item b s = Ok (Some sp) s'" "reads b s' (norm x)" "span_text b sp = w"
proof -
  obtain d g where d: "w = d # g" "d \<noteq> 0" "d \<notin> whitespace" "d \<notin> symbols" using w by (rule plain_wordE)
  obtain p where p: "peek b s {BAR, RPAREN, AMP, SEMI} = (norm y \<noteq> [] \<and> hd (norm y) \<in> {BAR, RPAREN, AMP, SEMI}, p)"
      "reads b p (norm y)"
    by (rule reads_peek [OF r])
  have "hd (norm y) \<notin> {BAR, RPAREN, AMP, SEMI}" using d by (auto simp: y sh_chars)
  then have f: "peek b s {BAR, RPAREN, AMP, SEMI} = (False, p)" using p(1) by simp
  obtain sp s' where "gettoken b p = (Word, sp, s')" "span_text b sp = w" "reads b s' (norm x)"
    by (rule gettoken_plain [OF p(2) [unfolded y] w])
  then show thesis using that f by (simp add: arg_item_def)
qed

lemma starts_no_redir: "starts x {BAR, RPAREN, AMP, SEMI} \<Longrightarrow> norm x = [] \<or> hd (norm x) \<notin> {LESS, GREATER}"
  by (auto simp: starts_def sh_chars)

lemma parseargs_run:
  assumes "reads b s y" "norm y = norm (words ws @ print_redirs rs @ x)" "\<forall>w\<in>set ws. plain_word w" "\<forall>r\<in>set rs. redir_ok r"
    "starts x {BAR, RPAREN, AMP, SEMI}" "argc + length ws < MAXARGS" "ws \<noteq> []"
  shows "\<exists>c' s'. parseargs b argc (EXEC vs) s = Ok c' s' \<and> cmd_text b c' = add_redirs (EXEC (map (span_text b) vs @ ws)) rs \<and>
      reads b s' (norm x)"
  using assms
proof (induction ws arbitrary: s y argc vs)
  case (Cons w ws)
  have w: "plain_word w" using Cons.prems(3) by simp
  have y: "norm y = w @ 32 # words ws @ print_redirs rs @ x"
    using Cons.prems(2) norm_words(1) [OF w, of ws "print_redirs rs @ x"] by simp
  obtain sp s1 where a: "arg_item b s = Ok (Some sp) s1" "reads b s1 (norm (words ws @ print_redirs rs @ x))" "span_text b sp = w"
    by (rule arg_item_some [OF Cons.prems(1) y w])
  have e: "parseargs b argc (EXEC vs) s =
      (case parseredirs b (EXEC (vs @ [sp])) s1 of Ok cmd' s2 \<Rightarrow> parseargs b (Suc argc) cmd' s2 | Err msg \<Rightarrow> Err msg | Deep \<Rightarrow> Deep)"
    using Cons.prems(6) by (simp add: parseargs.simps [of b argc] a(1))
  show ?case
  proof (cases "ws = []")
    case True
    then have r: "reads b s1 (norm (print_redirs rs @ x))" using a(2) by simp
    obtain c' s2 where p: "parseredirs b (EXEC (vs @ [sp])) s1 = Ok c' s2" "reads b s2 (norm x)"
        "cmd_text b c' = add_redirs (cmd_text b (EXEC (vs @ [sp]))) rs"
      using parseredirs_run [OF r _ Cons.prems(4) starts_no_redir [OF Cons.prems(5)], of "EXEC (vs @ [sp])"] by auto
    obtain p where "parseargs b (Suc argc) c' s2 = Ok c' p" "reads b p (norm x)"
      by (rule parseargs_end [OF p(2) _ Cons.prems(5)]) auto
    then show ?thesis using e p a(3) True by simp
  next
    case False
    then obtain w' ws' where ws: "ws = w' # ws'" by (cases ws) auto
    let ?z = "words ws @ print_redirs rs @ x"
    have w': "plain_word w'" using Cons.prems(3) ws by simp
    have "norm ?z = ?z" "hd ?z \<notin> symbols" using norm_words [OF w', of ws' "print_redirs rs @ x"] by (simp_all add: ws)
    then have h: "norm ?z = [] \<or> hd (norm ?z) \<notin> {LESS, GREATER}" by (auto simp: sh_chars)
    obtain p where "redir_item b s1 = Ok None p" "reads b p (norm ?z)" using redir_item_none [OF a(2)] h by auto
    moreover from this have "parseredirs b (EXEC (vs @ [sp])) s1 = Ok (EXEC (vs @ [sp])) p"
      by (simp add: parseredirs.simps [of b "EXEC (vs @ [sp])"])
    ultimately show ?thesis using Cons.IH [of p "norm ?z" "Suc argc" "vs @ [sp]"] Cons.prems(3-6) False e a(3) by simp
  qed
qed simp

section \<open>Trees\<close>

text \<open>The parser has read a text with the tree \<open>c\<close> and stands before \<open>x\<close>, or the bound on the depth was too small.\<close>

definition got :: "u8 list \<Rightarrow> span cmd presult \<Rightarrow> u8 list cmd \<Rightarrow> u8 list \<Rightarrow> bool" where
  "got b r c x \<longleftrightarrow> r = Deep \<or> (\<exists>t s. r = Ok t s \<and> cmd_text b t = c \<and> reads b s (norm x))"

definition exec_reads :: "u8 list cmd \<Rightarrow> bool" where
  "exec_reads c \<longleftrightarrow> (\<forall>b n s y rs x. reads b s y \<longrightarrow> norm y = norm (print c 0 @ print_redirs rs @ x) \<longrightarrow> (\<forall>r\<in>set rs. redir_ok r) \<longrightarrow>
     starts x {BAR, RPAREN, AMP, SEMI} \<longrightarrow> got b (parseexec n b s) (add_redirs c rs) x)"

definition pipe_reads :: "u8 list cmd \<Rightarrow> bool" where
  "pipe_reads c \<longleftrightarrow> (\<forall>b n s y x. reads b s y \<longrightarrow> norm y = norm (print c 1 @ x) \<longrightarrow>
     starts x {RPAREN, AMP, SEMI} \<longrightarrow> got b (parsepipe n b s) c x)"

definition back_reads :: "u8 list cmd \<Rightarrow> bool" where
  "back_reads c \<longleftrightarrow> (\<forall>b n s y m x. reads b s y \<longrightarrow> norm y = norm (print c 2 @ replicate m AMP @ x) \<longrightarrow>
     starts x {RPAREN, SEMI} \<longrightarrow> parsepipe n b s = Deep \<or>
     (\<exists>t s1 t' s2. parsepipe n b s = Ok t s1 \<and> backs b t s1 = (t', s2) \<and> cmd_text b t' = (BACK ^^ m) c \<and> reads b s2 (norm x)))"

definition line_reads :: "u8 list cmd \<Rightarrow> bool" where
  "line_reads c \<longleftrightarrow> (\<forall>b n s y x. reads b s y \<longrightarrow> norm y = norm (print c 3 @ x) \<longrightarrow>
     starts x {RPAREN} \<longrightarrow> got b (parseline n b s) c x)"


lemmas reads_defs = exec_reads_def pipe_reads_def back_reads_def line_reads_def

lemma add_redirs_Nil [simp]: "add_redirs c [] = c" "print_redirs [] = []"
  by (simp_all add: add_redirs_def print_redirs_def)

lemma gotE:
  assumes "got b r c x" "r \<noteq> Deep"
  obtains t s where "r = Ok t s" "cmd_text b t = c" "reads b s (norm x)"
  using assms by (auto simp: got_def)

lemma exec_reads_EXEC:
  assumes "length ws < MAXARGS" "\<forall>w\<in>set ws. plain_word w"
  shows "exec_reads (EXEC ws)"
  unfolding exec_reads_def
proof (intro allI impI)
  fix b n s y rs x
  assume r: "reads b s y" and y: "norm y = norm (print (EXEC ws) 0 @ print_redirs rs @ x)"
    and rs: "\<forall>r\<in>set rs. redir_ok r" and x: "starts x {BAR, RPAREN, AMP, SEMI}"
  let ?z = "words ws @ print_redirs rs @ x"
  have z: "norm y = norm ?z" using y by simp
  have h: "norm ?z = [] \<or> hd (norm ?z) \<noteq> LPAREN"
    using norm_words [of "hd ws" "tl ws" "print_redirs rs @ x"] norm_redirs [of "hd rs" "tl rs" x] assms(2) rs x
    by (cases ws; cases rs) (auto simp: starts_def sh_chars)
  obtain p where "peek b s {LPAREN} = (norm y \<noteq> [] \<and> hd (norm y) \<in> {LPAREN}, p)" and p: "reads b p (norm y)"
    by (rule reads_peek [OF r])
  then have pk: "peek b s {LPAREN} = (False, p)" using h z by auto
  have nx: "norm x = [] \<or> hd (norm x) \<notin> {LESS, GREATER}" using starts_no_redir [OF x] .
  show "got b (parseexec n b s) (add_redirs (EXEC ws) rs) x"
  proof (cases n)
    case n: (Suc k)
    show ?thesis
    proof (cases "ws = []")
      case True
      then have z: "norm (norm y) = norm (print_redirs rs @ x)" using z by simp
      obtain c' s' where c: "parseredirs b (EXEC []) p = Ok c' s'" "reads b s' (norm x)" "cmd_text b c' = add_redirs (EXEC []) rs"
        using parseredirs_run [OF p z rs nx, of "EXEC []"] by auto
      obtain q where "parseargs b 0 c' s' = Ok c' q" "reads b q (norm x)"
        by (rule parseargs_end [OF c(2) _ x]) auto
      then show ?thesis using c pk True n by (simp add: got_def)
    next
      case False
      then obtain w ws' where ws: "ws = w # ws'" by (cases ws) auto
      then have "hd (norm (norm y)) \<notin> symbols" using norm_words [of w ws' "print_redirs rs @ x"] assms(2) z by simp
      then have "norm (norm y) = [] \<or> hd (norm (norm y)) \<notin> {LESS, GREATER}" by (auto simp: sh_chars)
      then obtain q where q: "redir_item b p = Ok None q" "reads b q (norm y)" using redir_item_none [OF p] by auto
      then have "parseredirs b (EXEC []) p = Ok (EXEC []) q" by (simp add: parseredirs.simps [of b "EXEC []"])
      then show ?thesis using parseargs_run [OF q(2), of ws rs x 0 "[]"] z assms rs x False pk n by (auto simp: got_def)
    qed
  qed (simp add: got_def)
qed

lemma exec_reads_REDIR:
  assumes "exec_reads c" "redir_ok (f, mode, fd)"
  shows "exec_reads (REDIR c f mode fd)"
  unfolding exec_reads_def
proof (intro allI impI)
  fix b n s y rs x
  assume "reads b s y" "norm y = norm (print (REDIR c f mode fd) 0 @ print_redirs rs @ x)"
    "\<forall>r\<in>set rs. redir_ok r" "starts x {BAR, RPAREN, AMP, SEMI}"
  then have "got b (parseexec n b s) (add_redirs c ((f, mode, fd) # rs)) x"
    using assms unfolding exec_reads_def by (simp add: print_redirs_def)
  then show "got b (parseexec n b s) (add_redirs (REDIR c f mode fd) rs) x" by (simp add: add_redirs_def)
qed

lemma paren_starts: "norm (LPAREN # x) = LPAREN # x" "norm (RPAREN # x) = RPAREN # x" "norm (BAR # x) = BAR # x"
    "norm (SEMI # x) = SEMI # x" "norm (AMP # x) = AMP # x"
  by (simp_all add: norm_def sh_chars)

text \<open>A symbol that is, or is not, next.\<close>

lemma take_sym_yes:
  assumes "reads b s (c # y)" "c \<in> {BAR, LPAREN, RPAREN, SEMI, AMP}"
  obtains s' where "take_sym b s c = (True, s')" "reads b s' (norm y)"
proof -
  have "norm (c # y) = c # y" using assms(2) paren_starts by auto
  then show thesis using reads_take_sym [OF assms(1), of c] assms(2) that by auto
qed

lemma take_sym_no:
  assumes "reads b s (norm x)" "starts x A" "c \<notin> A"
  obtains s' where "take_sym b s c = (False, s')" "reads b s' (norm x)"
proof -
  obtain p where p: "peek b s {c} = (norm (norm x) \<noteq> [] \<and> hd (norm (norm x)) \<in> {c}, p)" "reads b p (norm (norm x))"
    by (rule reads_peek [OF assms(1)])
  have "\<not> (norm x \<noteq> [] \<and> hd (norm x) = c)" using assms(2,3) by (auto simp: starts_def)
  then have "take_sym b s c = (False, p)" using p(1) by (auto simp: take_sym_def)
  then show thesis using that p(2) by simp
qed

lemma exec_reads_block:
  assumes "line_reads c" "print c 0 = LPAREN # print c 3 @ [RPAREN]"
  shows "exec_reads c"
  unfolding exec_reads_def
proof (intro allI impI)
  fix b n s y rs x
  assume r: "reads b s y" and y: "norm y = norm (print c 0 @ print_redirs rs @ x)"
    and rs: "\<forall>r\<in>set rs. redir_ok r" and x: "starts x {BAR, RPAREN, AMP, SEMI}"
  let ?z = "print_redirs rs @ x"
  have y: "norm y = LPAREN # print c 3 @ RPAREN # ?z" using y assms(2) by (simp add: paren_starts)
  obtain p where "peek b s {LPAREN} = (norm y \<noteq> [] \<and> hd (norm y) \<in> {LPAREN}, p)" and p: "reads b p (norm y)"
    by (rule reads_peek [OF r])
  then have pk: "peek b s {LPAREN} = (True, p)" using y by simp
  obtain s1 where s1: "take_sym b p LPAREN = (True, s1)" "reads b s1 (norm (print c 3 @ RPAREN # ?z))"
    by (rule take_sym_yes [OF p [unfolded y]]) auto
  have st: "starts (RPAREN # ?z) {RPAREN}" by (simp add: starts_def paren_starts)
  have g: "got b (parseline k b s1) c (RPAREN # ?z)" for k
    using assms(1) s1(2) st unfolding line_reads_def by (metis norm_idem)
  consider (deep) "n = 0 \<or> n = 1" | (more) k where "n = Suc (Suc k)" by (metis One_nat_def not0_implies_Suc)
  then show "got b (parseexec n b s) (add_redirs c rs) x"
  proof cases
    case deep
    then show ?thesis using pk s1(1) by (auto simp: got_def)
  next
    case (more k)
    show ?thesis
    proof (cases "parseline k b s1 = Deep")
      case True
      then show ?thesis using pk s1(1) more by (simp add: got_def)
    next
      case False
      obtain t s2 where t: "parseline k b s1 = Ok t s2" "cmd_text b t = c" "reads b s2 (norm (RPAREN # ?z))"
        by (rule gotE [OF g False])
      obtain s3 where s3: "take_sym b s2 RPAREN = (True, s3)" "reads b s3 (norm ?z)"
        by (rule take_sym_yes [OF t(3) [unfolded paren_starts]]) auto
      show ?thesis using parseredirs_run [OF s3(2) _ rs starts_no_redir [OF x], of t] pk s1(1) t(1,2) s3(1) more
        by (auto simp: got_def)
    qed
  qed
qed


lemma pipe_reads_exec:
  assumes "exec_reads c" "print c 1 = print c 0"
  shows "pipe_reads c"
  unfolding pipe_reads_def
proof (intro allI impI)
  fix b n s y x
  assume r: "reads b s y" and y: "norm y = norm (print c 1 @ x)" and x: "starts x {RPAREN, AMP, SEMI}"
  have g: "got b (parseexec k b s) c x" for k
    using assms(1) [unfolded exec_reads_def, rule_format, of b s y "[]" x k] r y assms(2) starts_mono [OF x] by simp
  show "got b (parsepipe n b s) c x"
  proof (cases "\<exists>k. n = Suc k \<and> parseexec k b s \<noteq> Deep")
    case True
    then obtain k where k: "n = Suc k" "parseexec k b s \<noteq> Deep" by blast
    obtain t s1 where t: "parseexec k b s = Ok t s1" "cmd_text b t = c" "reads b s1 (norm x)" by (rule gotE [OF g k(2)])
    obtain s2 where "take_sym b s1 BAR = (False, s2)" "reads b s2 (norm x)"
      by (rule take_sym_no [OF t(3) x]) (auto simp: sh_chars)
    then show ?thesis using t k(1) by (simp add: got_def)
  qed (cases n; simp add: got_def)
qed

lemma pipe_reads_PIPE:
  assumes "exec_reads l" "pipe_reads r"
  shows "pipe_reads (PIPE l r)"
  unfolding pipe_reads_def
proof (intro allI impI)
  fix b n s y x
  assume rd: "reads b s y" and y: "norm y = norm (print (PIPE l r) 1 @ x)" and x: "starts x {RPAREN, AMP, SEMI}"
  let ?z = "print r 1 @ x"
  have z: "starts (BAR # ?z) {BAR, RPAREN, AMP, SEMI}" by (simp add: starts_def paren_starts)
  have g: "got b (parseexec k b s) l (BAR # ?z)" for k
    using assms(1) [unfolded exec_reads_def, rule_format, of b s y "[]" "BAR # ?z" k] rd y z by (simp add: paren_def)
  show "got b (parsepipe n b s) (PIPE l r) x"
  proof (cases "\<exists>k. n = Suc k \<and> parseexec k b s \<noteq> Deep")
    case True
    then obtain k where k: "n = Suc k" "parseexec k b s \<noteq> Deep" by blast
    obtain t s1 where t: "parseexec k b s = Ok t s1" "cmd_text b t = l" "reads b s1 (norm (BAR # ?z))" by (rule gotE [OF g k(2)])
    obtain s2 where s2: "take_sym b s1 BAR = (True, s2)" "reads b s2 (norm ?z)"
      by (rule take_sym_yes [OF t(3) [unfolded paren_starts]]) auto
    have "got b (parsepipe k b s2) r x"
      using assms(2) [unfolded pipe_reads_def, rule_format, of b s2 "norm ?z" x k] s2(2) x by simp
    then show ?thesis using t s2 k(1) by (auto simp: got_def)
  qed (cases n; simp add: got_def)
qed

lemma funpow_BACK: "(BACK ^^ m) (BACK c) = BACK ((BACK ^^ m) c)"
  by (induction m) simp_all

lemma backs_run:
  assumes "reads b s (norm (replicate m AMP @ x))" "starts x {RPAREN, SEMI}"
  shows "\<exists>t' s'. backs b t s = (t', s') \<and> cmd_text b t' = (BACK ^^ m) (cmd_text b t) \<and> reads b s' (norm x)"
  using assms
proof (induction m arbitrary: s t)
  case 0
  then have r: "reads b s (norm x)" by simp
  obtain s2 where "take_sym b s AMP = (False, s2)" "reads b s2 (norm x)"
    by (rule take_sym_no [OF r 0(2)]) (auto simp: sh_chars)
  then show ?case by (simp add: backs.simps [of b t])
next
  case (Suc m)
  then have r: "reads b s (AMP # replicate m AMP @ x)" by (simp add: paren_starts)
  obtain s2 where "take_sym b s AMP = (True, s2)" "reads b s2 (norm (replicate m AMP @ x))"
    by (rule take_sym_yes [OF r]) auto
  then show ?case using Suc.IH [of s2 "BACK t"] Suc.prems(2) by (simp add: backs.simps [of b t] funpow_BACK)
qed

lemma back_reads_pipe:
  assumes "pipe_reads c" "print c 2 = print c 1"
  shows "back_reads c"
  unfolding back_reads_def
proof (intro allI impI)
  fix b n s y m x
  assume r: "reads b s y" and y: "norm y = norm (print c 2 @ replicate m AMP @ x)" and x: "starts x {RPAREN, SEMI}"
  let ?z = "replicate m AMP @ x"
  have "starts ?z {RPAREN, AMP, SEMI}" using starts_mono [OF x] by (cases m) (auto simp: starts_def paren_starts)
  then have g: "got b (parsepipe n b s) c ?z"
    using assms(1) [unfolded pipe_reads_def, rule_format, of b s y ?z n] r y assms(2) by simp
  show "parsepipe n b s = Deep \<or> (\<exists>t s1 t' s2. parsepipe n b s = Ok t s1 \<and> backs b t s1 = (t', s2) \<and>
      cmd_text b t' = (BACK ^^ m) c \<and> reads b s2 (norm x))"
    using g backs_run [OF _ x] by (auto simp: got_def)
qed

lemma back_reads_BACK:
  assumes "back_reads c"
  shows "back_reads (BACK c)"
  unfolding back_reads_def
proof (intro allI impI)
  fix b n s y m x
  assume r: "reads b s y" "norm y = norm (print (BACK c) 2 @ replicate m AMP @ x)" "starts x {RPAREN, SEMI}"
  then show "parsepipe n b s = Deep \<or> (\<exists>t s1 t' s2. parsepipe n b s = Ok t s1 \<and> backs b t s1 = (t', s2) \<and>
      cmd_text b t' = (BACK ^^ m) (BACK c) \<and> reads b s2 (norm x))"
    using assms [unfolded back_reads_def, rule_format, of b s y "Suc m" x n] by (simp add: paren_def funpow_BACK)
qed

lemma line_reads_back:
  assumes "back_reads c" "print c 3 = print c 2"
  shows "line_reads c"
  unfolding line_reads_def
proof (intro allI impI)
  fix b n s y x
  assume r: "reads b s y" and y: "norm y = norm (print c 3 @ x)" and x: "starts x {RPAREN}"
  show "got b (parseline n b s) c x"
  proof (cases "\<exists>k. n = Suc k \<and> parsepipe k b s \<noteq> Deep")
    case True
    then obtain k where k: "n = Suc k" "parsepipe k b s \<noteq> Deep" by blast
    obtain t s1 t' s2 where t: "parsepipe k b s = Ok t s1" "backs b t s1 = (t', s2)" "cmd_text b t' = c" "reads b s2 (norm x)"
      using assms(1) [unfolded back_reads_def, rule_format, of b s y 0 x k] r y assms(2) starts_mono [OF x] k(2) by auto
    obtain s3 where "take_sym b s2 SEMI = (False, s3)" "reads b s3 (norm x)"
      by (rule take_sym_no [OF t(4) x]) (auto simp: sh_chars)
    then show ?thesis using t k(1) by (simp add: got_def)
  qed (cases n; simp add: got_def)
qed

lemma line_reads_LIST:
  assumes "back_reads l" "line_reads r"
  shows "line_reads (LIST l r)"
  unfolding line_reads_def
proof (intro allI impI)
  fix b n s y x
  assume rd: "reads b s y" and y: "norm y = norm (print (LIST l r) 3 @ x)" and x: "starts x {RPAREN}"
  let ?z = "print r 3 @ x"
  have z: "starts (SEMI # ?z) {RPAREN, SEMI}" by (simp add: starts_def paren_starts)
  show "got b (parseline n b s) (LIST l r) x"
  proof (cases "\<exists>k. n = Suc k \<and> parsepipe k b s \<noteq> Deep")
    case True
    then obtain k where k: "n = Suc k" "parsepipe k b s \<noteq> Deep" by blast
    obtain t s1 t' s2 where t: "parsepipe k b s = Ok t s1" "backs b t s1 = (t', s2)" "cmd_text b t' = l" "reads b s2 (norm (SEMI # ?z))"
      using assms(1) [unfolded back_reads_def, rule_format, of b s y 0 "SEMI # ?z" k] rd y z k(2) by (auto simp: paren_def)
    obtain s3 where s3: "take_sym b s2 SEMI = (True, s3)" "reads b s3 (norm ?z)"
      by (rule take_sym_yes [OF t(4) [unfolded paren_starts]]) auto
    have "got b (parseline k b s3) r x"
      using assms(2) [unfolded line_reads_def, rule_format, of b s3 "norm ?z" x k] s3(2) x by simp
    then show ?thesis using t s3 k(1) by (auto simp: got_def)
  qed (cases n; simp add: got_def)
qed

text \<open>Every well-formed tree, at every level of the grammar.\<close>

lemma all_read: "cmd_ok plain_word c \<Longrightarrow> exec_reads c \<and> pipe_reads c \<and> back_reads c \<and> line_reads c"
proof (induction c)
  case (EXEC ws)
  then have "exec_reads (EXEC ws)" by (intro exec_reads_EXEC) auto
  then show ?case by (simp add: pipe_reads_exec back_reads_pipe line_reads_back)
next
  case (REDIR c f mode fd)
  then have "exec_reads (REDIR c f mode fd)" by (intro exec_reads_REDIR) (auto simp: redir_ok_def)
  then show ?case by (simp add: pipe_reads_exec back_reads_pipe line_reads_back)
next
  case (PIPE l r)
  then have "pipe_reads (PIPE l r)" by (simp add: pipe_reads_PIPE)
  then show ?case by (simp add: exec_reads_block back_reads_pipe line_reads_back paren_def)
next
  case (LIST l r)
  then have "line_reads (LIST l r)" by (simp add: line_reads_LIST)
  then show ?case by (simp add: exec_reads_block back_reads_pipe pipe_reads_exec paren_def)
next
  case (BACK c)
  then have "back_reads (BACK c)" by (simp add: back_reads_BACK)
  then show ?case by (simp add: exec_reads_block pipe_reads_exec line_reads_back paren_def)
qed

lemma print_nonzero: "cmd_ok plain_word c \<Longrightarrow> 0 \<notin> set (print c lvl)"
  by (induction c arbitrary: lvl) (auto simp: plain_word_def paren_def redir_sym_def sh_chars)

text \<open>C10: The parser reads back every well-formed tree from its printed form: \<open>parsecmd\<close> returns a tree whose words, as the strings
  in the buffer after \<open>nulterminate\<close>, make the tree that was printed. The grammar of the shell reaches every tree, and
  pipes, lists, \<open>&\<close>, parentheses and redirections bind as the printer says.\<close>

theorem parse_print:
  assumes "cmd_ok plain_word c"
  shows "\<exists>t buf s. parsecmd (print c 3) = Ok (t, buf) s \<and> map_cmd (\<lambda>(q, eq). takeWhile (\<lambda>x. x \<noteq> 0) (drop q buf)) t = c"
proof -
  let ?b = "print c 3"
  have z: "0 \<notin> set ?b" using print_nonzero [OF assms] .
  have r: "reads ?b 0 ?b" using z by (simp add: reads_def)
  have nd: "parseline (4 * length ?b + 4) ?b 0 \<noteq> Deep" using later_line(1) [of 0 ?b "4 * length ?b + 4"] by auto
  have "got ?b (parseline (4 * length ?b + 4) ?b 0) c []"
    using all_read [OF assms] r unfolding line_reads_def by (simp add: starts_def norm_def)
  then obtain t s where t: "parseline (4 * length ?b + 4) ?b 0 = Ok t s" "cmd_text ?b t = c" "reads ?b s (norm [])"
    by (rule gotE [OF _ nd])
  then have s: "s = length ?b" by (simp add: reads_def norm_def)
  then have p: "peek ?b s {} = (False, length ?b)"
    using skip_space_bounds [of s ?b] by (simp add: peek_def Let_def)
  have ok: "cmd_ok (word_ok ?b) t" using parseline_ok(1) [OF t(1)] by simp
  have "map_cmd (\<lambda>(q, eq). takeWhile (\<lambda>x. x \<noteq> 0) (drop q (nulterminate t (?b @ [0])))) t = cmd_text ?b t"
    using word_string [OF ok _ z] by (intro cmd.map_cong0) (auto simp: span_text_def)
  then show ?thesis using t p by (simp add: parsecmd_def)
qed

lemma parse_print_witness:
  "\<exists>t buf s. parsecmd [97, 32, 62, 102, 32, 124, 40, 98, 32, 38, 59, 99, 32, 41] = Ok (t, buf) s \<and>
     map_cmd (\<lambda>(q, eq). takeWhile (\<lambda>x. x \<noteq> 0) (drop q buf)) t =
       PIPE (REDIR (EXEC [[97]]) [102] (O_WRONLY OR O_CREATE OR O_TRUNC) 1) (LIST (BACK (EXEC [[98]])) (EXEC [[99]]))"
proof -
  let ?c = "PIPE (REDIR (EXEC [[97]]) [102] (O_WRONLY OR O_CREATE OR O_TRUNC) 1) (LIST (BACK (EXEC [[98]])) (EXEC [[99]]))"
  have "print ?c 3 = [97, 32, 62, 102, 32, 124, 40, 98, 32, 38, 59, 99, 32, 41]"
    using redir_modes by (simp add: paren_def redir_sym_def sh_chars)
  moreover have "cmd_ok plain_word ?c" by (simp add: plain_word_def delim_def MAXARGS_def sh_chars)
  ultimately show ?thesis using parse_print [of ?c] by simp
qed

end
