(* ===== verification/Grep.thy ===== *)
theory Grep
  imports Prelude
begin

text \<open>
  \<open>user/grep.c\<close>: the regular expression matcher and the loop over the lines of a file. A C string is the list of
  its bytes before the nul. The result of the matcher is compared with the language of the expression, and the loop,
  which sees the file in pieces of whatever size \<open>read\<close> returns, with the list of lines.
\<close>

section \<open>The matcher\<close>

definition CARET :: u8 where "CARET = 94"
definition DOLLAR :: u8 where "DOLLAR = 36"
definition STAR :: u8 where "STAR = 42"
definition DOT :: u8 where "DOT = 46"
definition NEWLINE :: u8 where "NEWLINE = 10"

function (sequential) matchhere :: "u8 list \<Rightarrow> u8 list \<Rightarrow> bool"
  and matchstar :: "u8 \<Rightarrow> u8 list \<Rightarrow> u8 list \<Rightarrow> bool" where
  "matchhere [] tx = True"
| "matchhere (c # re) tx =
     (if re \<noteq> [] \<and> hd re = STAR then matchstar c (tl re) tx
      else if c = DOLLAR \<and> re = [] then tx = []
      else if tx \<noteq> [] \<and> (c = DOT \<or> c = hd tx) then matchhere re (tl tx)
      else False)"
| "matchstar c re tx =
     (if matchhere re tx then True
      else if tx \<noteq> [] \<and> (hd tx = c \<or> c = DOT) then matchstar c re (tl tx)
      else False)"
  by pat_completeness auto
termination
  by (relation "measures [\<lambda>x. case x of Inl (re, t) \<Rightarrow> length re | Inr (c, re, t) \<Rightarrow> Suc (length re),
      \<lambda>x. case x of Inl (re, t) \<Rightarrow> length t | Inr (c, re, t) \<Rightarrow> length t]")
    (auto simp: neq_Nil_conv)

text \<open>The loop of \<open>match\<close>: try every position of the tx, the empty string at its end included.\<close>

fun match_loop :: "u8 list \<Rightarrow> u8 list \<Rightarrow> bool" where
  "match_loop re [] = matchhere re []"
| "match_loop re (c # cs) = (if matchhere re (c # cs) then True else match_loop re cs)"

definition match :: "u8 list \<Rightarrow> u8 list \<Rightarrow> bool" where
  "match re tx = (if re \<noteq> [] \<and> hd re = CARET then matchhere (tl re) tx else match_loop re tx)"

section \<open>The loop over the lines\<close>

text \<open>\<open>strchr(p, '\n')\<close> on the buffer from \<open>p\<close>: what is before and after the newline. It does not look past a nul.\<close>

definition strchr_nl :: "u8 list \<Rightarrow> (u8 list \<times> u8 list) option" where
  "strchr_nl p =
     (let l = takeWhile (\<lambda>c. c \<noteq> NEWLINE \<and> c \<noteq> 0) p; r = drop (length l) p in
      if r \<noteq> [] \<and> hd r = NEWLINE then Some (l, tl r) else None)"

lemma strchr_nl_shorter: "strchr_nl p = Some (l, r) \<Longrightarrow> length r < length p"
  by (auto simp: strchr_nl_def Let_def split: if_splits)

text \<open>The inner loop: what it writes, and what is left from \<open>p\<close> on.\<close>

function grep_lines :: "u8 list \<Rightarrow> u8 list \<Rightarrow> u8 list \<times> u8 list" where
  "grep_lines pattern p =
     (case strchr_nl p of
        None \<Rightarrow> ([], p)
      | Some (l, r) \<Rightarrow> apfst (\<lambda>out. (if match pattern l then l @ [NEWLINE] else []) @ out) (grep_lines pattern r))"
  by pat_completeness auto
termination by (relation "measure (\<lambda>(re, p). length p)") (auto dest: strchr_nl_shorter)

text \<open>
  The outer loop. \<open>rd k inp\<close> is the number of bytes that \<open>read\<close> returns when it is asked for \<open>k\<close> and the rest of the
  file is \<open>inp\<close>; \<open>buf\<close> is the \<open>m\<close> bytes at the start of the buffer of 1024. The result is what is written to the
  standard output.
\<close>

function grep_loop :: "(nat \<Rightarrow> u8 list \<Rightarrow> nat) \<Rightarrow> u8 list \<Rightarrow> u8 list \<Rightarrow> u8 list \<Rightarrow> u8 list" where
  "grep_loop rd pattern buf inp =
     (let n = rd (1024 - length buf - 1) inp; got = take n inp in
      if got = [] then []
      else case grep_lines pattern (buf @ got) of (out, rest) \<Rightarrow> out @ grep_loop rd pattern rest (drop n inp))"
  by pat_completeness auto
termination by (relation "measure (\<lambda>(rd, re, buf, inp). length inp)") auto

definition grep :: "(nat \<Rightarrow> u8 list \<Rightarrow> nat) \<Rightarrow> u8 list \<Rightarrow> u8 list \<Rightarrow> u8 list" where
  "grep rd pattern inp = grep_loop rd pattern [] inp"

text \<open>
  \<open>main\<close>: \<open>opn\<close> is the contents of a file that can be opened. The result is what is written to the standard
  output and the exit status; the messages are on the same output for a file and on the error output for the usage.
\<close>

primrec grep_files :: "(nat \<Rightarrow> u8 list \<Rightarrow> nat) \<Rightarrow> (u8 list \<rightharpoonup> u8 list) \<Rightarrow> u8 list \<Rightarrow> u8 list list \<Rightarrow> u8 list \<times> nat" where
  "grep_files rd opn pattern [] = ([], 0)"
| "grep_files rd opn pattern (f # fs) =
     (case opn f of
        None \<Rightarrow> (map (of_nat \<circ> of_char) ''grep: cannot open '' @ f @ [NEWLINE], 1)
      | Some inp \<Rightarrow> apfst (\<lambda>out. grep rd pattern inp @ out) (grep_files rd opn pattern fs))"

definition grep_main :: "(nat \<Rightarrow> u8 list \<Rightarrow> nat) \<Rightarrow> (u8 list \<rightharpoonup> u8 list) \<Rightarrow> u8 list list \<Rightarrow> u8 list \<Rightarrow> u8 list \<times> nat" where
  "grep_main rd opn argv stdin =
     (case argv of
        [] \<Rightarrow> ([], 1)
      | [_] \<Rightarrow> ([], 1)
      | [_, pattern] \<Rightarrow> (grep rd pattern stdin, 0)
      | _ # pattern # files \<Rightarrow> grep_files rd opn pattern files)"

section \<open>The language of an expression\<close>

text \<open>An expression is a sequence of items, each a character or any character, once or repeated, and may end with \<open>$\<close>.\<close>

datatype atom = Chr u8 | Any

datatype item = Single atom | Many atom

fun holds :: "atom \<Rightarrow> u8 \<Rightarrow> bool" where
  "holds (Chr c) x \<longleftrightarrow> x = c"
| "holds Any x \<longleftrightarrow> True"

definition atom_of :: "u8 \<Rightarrow> atom" where
  "atom_of c = (if c = DOT then Any else Chr c)"

fun items :: "u8 list \<Rightarrow> item list \<times> bool" where
  "items [] = ([], False)"
| "items [c] = (if c = DOLLAR then ([], True) else ([Single (atom_of c)], False))"
| "items (c # d # re) =
     (if d = STAR then apfst (Cons (Many (atom_of c))) (items re)
      else apfst (Cons (Single (atom_of c))) (items (d # re)))"

fun item_lang :: "item \<Rightarrow> u8 list set" where
  "item_lang (Single a) = {[x] | x. holds a x}"
| "item_lang (Many a) = {xs. \<forall>x \<in> set xs. holds a x}"

fun lang :: "item list \<Rightarrow> u8 list set" where
  "lang [] = {[]}"
| "lang (i # is) = {u @ v | u v. u \<in> item_lang i \<and> v \<in> lang is}"

text \<open>A match at the start of the text, and a match anywhere unless the expression starts with \<open>^\<close>.\<close>

definition begins :: "item list \<Rightarrow> bool \<Rightarrow> u8 list \<Rightarrow> bool" where
  "begins is whole tx \<longleftrightarrow> (\<exists>u v. tx = u @ v \<and> u \<in> lang is \<and> (whole \<longrightarrow> v = []))"

definition prefix_match :: "u8 list \<Rightarrow> u8 list \<Rightarrow> bool" where
  "prefix_match re tx = (case items re of (is, whole) \<Rightarrow> begins is whole tx)"

definition re_match :: "u8 list \<Rightarrow> u8 list \<Rightarrow> bool" where
  "re_match re tx \<longleftrightarrow>
     (if re \<noteq> [] \<and> hd re = CARET then prefix_match (tl re) tx
      else \<exists>before rest. tx = before @ rest \<and> prefix_match re rest)"

lemma holds_atom_of: "holds (atom_of c) x \<longleftrightarrow> c = DOT \<or> x = c"
  by (simp add: atom_of_def)

lemma begins_Nil: "begins [] whole tx \<longleftrightarrow> (whole \<longrightarrow> tx = [])"
  by (auto simp: begins_def)

lemma begins_Cons: "begins (i # is) whole tx \<longleftrightarrow> (\<exists>u rest. tx = u @ rest \<and> u \<in> item_lang i \<and> begins is whole rest)"
  (is "?L \<longleftrightarrow> ?R")
proof
  assume ?L
  then obtain x w where x: "tx = x @ w" "x \<in> lang (i # is)" "whole \<longrightarrow> w = []" unfolding begins_def by blast
  then obtain u v where "x = u @ v" "u \<in> item_lang i" "v \<in> lang is" by auto
  note x this
  then show ?R unfolding begins_def by (intro exI [of _ u] exI [of _ "v @ w"]) auto
next
  assume ?R
  then obtain u v w where "tx = u @ v @ w" "u \<in> item_lang i" "v \<in> lang is" "whole \<longrightarrow> w = []"
    by (auto simp: begins_def)
  then show ?L unfolding begins_def by (intro exI [of _ "u @ v"] exI [of _ w]) auto
qed

lemma begins_single: "begins (Single a # is) whole tx \<longleftrightarrow> (\<exists>x xs. tx = x # xs \<and> holds a x \<and> begins is whole xs)"
  by (auto simp: begins_Cons) (metis append_Cons append_Nil)

lemma begins_many:
  "begins (Many a # is) whole tx \<longleftrightarrow>
     begins is whole tx \<or> (\<exists>x xs. tx = x # xs \<and> holds a x \<and> begins (Many a # is) whole xs)" (is "?L \<longleftrightarrow> ?R")
proof
  assume ?L
  then obtain u rest where u: "tx = u @ rest" "\<forall>x\<in>set u. holds a x" "begins is whole rest" by (auto simp: begins_Cons)
  then show ?R by (cases u) (auto simp: begins_Cons)
next
  assume ?R
  then show ?L
  proof
    assume "begins is whole tx"
    then show ?L unfolding begins_Cons by (intro exI [of _ "[]"] exI [of _ tx]) simp
  next
    assume "\<exists>x xs. tx = x # xs \<and> holds a x \<and> begins (Many a # is) whole xs"
    then obtain x u rest where "tx = (x # u) @ rest" "\<forall>y\<in>set (x # u). holds a y" "begins is whole rest"
      by (auto simp: begins_Cons)
    then show ?L unfolding begins_Cons by (intro exI [of _ "x # u"] exI [of _ rest]) simp
  qed
qed

lemma prefix_match_Nil [simp]: "prefix_match [] tx"
  by (simp add: prefix_match_def begins_Nil)

lemma prefix_match_end [simp]: "prefix_match [DOLLAR] tx \<longleftrightarrow> tx = []"
  by (simp add: prefix_match_def begins_Nil)

lemma prefix_match_single:
  assumes "re = [] \<Longrightarrow> c \<noteq> DOLLAR" "re \<noteq> [] \<Longrightarrow> hd re \<noteq> STAR"
  shows "prefix_match (c # re) tx \<longleftrightarrow> (\<exists>x xs. tx = x # xs \<and> (c = DOT \<or> x = c) \<and> prefix_match re xs)"
proof -
  have "items (c # re) = apfst (Cons (Single (atom_of c))) (items re)"
    using assms by (cases re) auto
  then show ?thesis by (cases "items re") (simp add: prefix_match_def begins_single holds_atom_of)
qed

lemma prefix_match_many:
  "prefix_match (c # STAR # re) tx \<longleftrightarrow>
     prefix_match re tx \<or> (\<exists>x xs. tx = x # xs \<and> (c = DOT \<or> x = c) \<and> prefix_match (c # STAR # re) xs)"
  by (cases "items re") (simp add: prefix_match_def begins_many [of _ _ _ tx] holds_atom_of)

lemma matchhere_prefix: "matchhere re tx \<longleftrightarrow> prefix_match re tx"
  and matchstar_prefix: "matchstar c re tx \<longleftrightarrow> prefix_match (c # STAR # re) tx"
proof (induction re tx and c re tx rule: matchhere_matchstar.induct)
  case (2 c re tx)
  consider (many) "re \<noteq> [] \<and> hd re = STAR" | (dollar) "c = DOLLAR" "re = []"
    | (single) "re = [] \<Longrightarrow> c \<noteq> DOLLAR" "re \<noteq> [] \<Longrightarrow> hd re \<noteq> STAR" by blast
  then show ?case
  proof cases
    case many
    then obtain re' where "re = STAR # re'" by (cases re) auto
    then show ?thesis using 2 by simp
  next
    case dollar
    then show ?thesis by simp
  next
    case single
    then show ?thesis using 2 by (cases tx) (auto simp: prefix_match_single)
  qed
next
  case (3 c re tx)
  then show ?case by (subst prefix_match_many) (cases tx; auto)
qed simp

lemma match_loop_iff: "match_loop re tx \<longleftrightarrow> (\<exists>before rest. tx = before @ rest \<and> prefix_match re rest)"
proof (induction tx)
  case (Cons x xs)
  have "(\<exists>before rest. x # xs = before @ rest \<and> prefix_match re rest) \<longleftrightarrow>
      prefix_match re (x # xs) \<or> (\<exists>before rest. xs = before @ rest \<and> prefix_match re rest)"
    by (metis append_Cons append_Nil append_eq_Cons_conv)
  then show ?case using Cons by (simp add: matchhere_prefix)
qed (simp add: matchhere_prefix)

lemma match_correct_iff: "match re tx \<longleftrightarrow> re_match re tx"
  by (simp add: match_def re_match_def matchhere_prefix match_loop_iff)

text \<open>C37: the matcher of grep accepts a line exactly when the language of the expression has a word there: at the start
  of the line if the expression starts with \<open>^\<close>, anywhere otherwise, and up to the end if it ends with \<open>$\<close>.\<close>

theorem match_correct: "match re tx \<longleftrightarrow> re_match re tx"
  by (rule match_correct_iff)

section \<open>Lines\<close>

text \<open>The complete lines of a file, without their newlines, and what follows the last newline.\<close>

fun split_lines :: "u8 list \<Rightarrow> u8 list list \<times> u8 list" where
  "split_lines [] = ([], [])"
| "split_lines (c # cs) =
     (case split_lines cs of (ls, r) \<Rightarrow>
      if c = NEWLINE then ([] # ls, r)
      else case ls of [] \<Rightarrow> ([], c # r) | l # ls' \<Rightarrow> ((c # l) # ls', r))"

definition grep_spec :: "u8 list \<Rightarrow> u8 list list \<Rightarrow> u8 list" where
  "grep_spec pattern ls = concat (map (\<lambda>l. l @ [NEWLINE]) (filter (re_match pattern) ls))"

text \<open>What \<open>read\<close> promises: not more than asked for, and something unless the file is at its end.\<close>

definition read_ok :: "(nat \<Rightarrow> u8 list \<Rightarrow> nat) \<Rightarrow> bool" where
  "read_ok rd \<longleftrightarrow> (\<forall>k inp. rd k inp \<le> k \<and> (k > 0 \<and> inp \<noteq> [] \<longrightarrow> rd k inp > 0))"

lemma split_lines_no_newline: "NEWLINE \<notin> set r \<Longrightarrow> split_lines r = ([], r)"
  by (induction r) auto

lemma split_lines_rest: "NEWLINE \<notin> set (snd (split_lines p))"
  by (induction p) (auto split: prod.splits list.splits)

lemma split_lines_line: "NEWLINE \<notin> set l \<Longrightarrow> split_lines (l @ NEWLINE # p) = apfst (Cons l) (split_lines p)"
  by (cases "split_lines p", induction l) auto

lemma split_lines_append:
  "split_lines (a @ b) = apfst (append (fst (split_lines a))) (split_lines (snd (split_lines a) @ b))"
proof (induction a)
  case Nil
  then show ?case by (cases "split_lines b") simp
next
  case (Cons c a)
  then show ?case
    by (cases "split_lines a"; cases "split_lines (snd (split_lines a) @ b)") (auto split: list.splits)
qed

lemma set_split_lines: "set (snd (split_lines p)) \<subseteq> set p"
  by (induction p) (auto split: prod.splits list.splits)

text \<open>Either there is no complete line, or the first one ends at the first newline.\<close>

lemma split_lines_cases:
  obtains "NEWLINE \<notin> set p" | l r where "p = l @ NEWLINE # r" "NEWLINE \<notin> set l"
  using split_list_first [of NEWLINE p] by blast

lemma strchr_nl_none: "NEWLINE \<notin> set p \<Longrightarrow> strchr_nl p = None"
  unfolding strchr_nl_def Let_def by (metis (no_types, lifting) hd_in_set in_set_dropD)

lemma strchr_nl_some:
  assumes "NEWLINE \<notin> set l" "0 \<notin> set l"
  shows "strchr_nl (l @ NEWLINE # r) = Some (l, r)"
proof -
  have "takeWhile (\<lambda>c. c \<noteq> NEWLINE \<and> c \<noteq> 0) (l @ NEWLINE # r) = l"
    using assms by (subst takeWhile_append2) (auto)
  then show ?thesis by (simp add: strchr_nl_def)
qed

declare grep_lines.simps [simp del] grep_loop.simps [simp del]

lemma grep_lines_correct:
  "0 \<notin> set p \<Longrightarrow> grep_lines pattern p = (grep_spec pattern (fst (split_lines p)), snd (split_lines p))"
proof (induction "length p" arbitrary: p rule: less_induct)
  case less
  show ?case
  proof (cases p rule: split_lines_cases)
    case 1
    then show ?thesis by (subst grep_lines.simps) (simp add: strchr_nl_none split_lines_no_newline grep_spec_def)
  next
    case (2 l r)
    then have "grep_lines pattern r = (grep_spec pattern (fst (split_lines r)), snd (split_lines r))" using less by simp
    then show ?thesis using 2 less.prems
      by (subst grep_lines.simps) (simp add: strchr_nl_some split_lines_line grep_spec_def match_correct_iff)
  qed
qed

lemma grep_loop_correct:
  assumes rd: "read_ok rd"
  shows "NEWLINE \<notin> set buf \<Longrightarrow> 0 \<notin> set (buf @ inp) \<Longrightarrow> \<forall>l \<in> set (fst (split_lines (buf @ inp))). length l < 1023 \<Longrightarrow>
    grep_loop rd pattern buf inp = grep_spec pattern (fst (split_lines (buf @ inp)))"
proof (induction "length inp" arbitrary: buf inp rule: less_induct)
  case less
  let ?n = "rd (1024 - length buf - 1) inp"
  show ?case
  proof (cases "take ?n inp = []")
    case True
    have "NEWLINE \<notin> set (buf @ inp)"
    proof (cases "inp = []")
      case False
      then have "?n = 0" using True by simp
      moreover have "1024 - length buf - 1 > 0 \<longrightarrow> ?n > 0" using rd False unfolding read_ok_def by blast
      ultimately have long: "1023 \<le> length buf" by linarith
      show ?thesis
      proof (cases "buf @ inp" rule: split_lines_cases)
        case (2 l r)
        have "length l < 1023" using less.prems(3) 2 by (simp add: split_lines_line)
        moreover have "NEWLINE \<in> set (take (Suc (length l)) (buf @ inp))" using 2 by simp
        ultimately show ?thesis using long less.prems(1) by (auto dest: in_set_takeD)
      qed simp
    qed (use less.prems in simp)
    then show ?thesis using True by (subst grep_loop.simps) (simp add: split_lines_no_newline grep_spec_def Let_def)
  next
    case False
    let ?p = "buf @ take ?n inp" and ?i = "drop ?n inp"
    have z: "0 \<notin> set ?p" "0 \<notin> set ?i" using less.prems(2) by (auto dest: in_set_takeD in_set_dropD)
    have sp: "split_lines (buf @ inp) = apfst (append (fst (split_lines ?p))) (split_lines (snd (split_lines ?p) @ ?i))"
      using split_lines_append [of ?p ?i] by simp
    have "grep_loop rd pattern (snd (split_lines ?p)) ?i = grep_spec pattern (fst (split_lines (snd (split_lines ?p) @ ?i)))"
    proof (rule less.hyps)
      show "length ?i < length inp" using False by auto
      show "0 \<notin> set (snd (split_lines ?p) @ ?i)" using z set_split_lines [of ?p] by auto
    qed (use less.prems(3) sp split_lines_rest in auto)
    then show ?thesis using False z
      by (subst grep_loop.simps) (simp add: Let_def grep_lines_correct sp grep_spec_def)
  qed
qed

text \<open>C38: whatever the sizes of the pieces that \<open>read\<close> returns, grep writes the complete lines that match the expression, in
  order, if the file has no nul and no complete line of more than 1022 bytes.\<close>

theorem grep_correct:
  assumes "read_ok rd" "0 \<notin> set inp" "\<forall>l \<in> set (fst (split_lines inp)). length l < 1023"
  shows "grep rd pattern inp = concat (map (\<lambda>l. l @ [NEWLINE]) (filter (re_match pattern) (fst (split_lines inp))))"
  using grep_loop_correct [OF assms(1), of "[]" inp pattern] assms(2,3) by (simp add: grep_def grep_spec_def)

text \<open>A \<open>read\<close> that returns one byte at a time.\<close>

lemma grep_correct_witness:
  "grep (\<lambda>k inp. min 1 k) [97, DOT, DOLLAR] [97, 98, NEWLINE, 98, NEWLINE, 97] = [97, 98, NEWLINE]"
proof -
  let ?i = "[97, 98, NEWLINE, 98, NEWLINE, 97] :: u8 list"
  have s: "split_lines ?i = ([[97, 98], [98]], [97])" by (simp add: NEWLINE_def)
  have "filter (re_match [97, DOT, DOLLAR]) [[97, 98], [98]] = [[97, 98]]"
    by (simp add: match_correct_iff [symmetric] match_def CARET_def DOT_def DOLLAR_def STAR_def)
  then show ?thesis using grep_correct [of "\<lambda>k inp. min 1 k" ?i "[97, DOT, DOLLAR]"]
    by (simp add: s read_ok_def) (simp add: NEWLINE_def)
qed

end
