(* ===== verification/Exec.thy ===== *)
theory Exec
  imports Sysfile
begin

text \<open>
  \<open>kernel/exec.c\<close>, the system call \<open>exec\<close> of \<open>kernel/sysfile.c\<close>, and \<open>syscall\<close> of
  \<open>kernel/syscall.c\<close>. The argument vector of \<open>exec\<close> is the list of the kernel addresses of its
  strings. \<open>ustack\<close> has \<open>MAXARG\<close> elements; writing past its end is undefined in C and a failing
  branch here.
\<close>

section \<open>ELF\<close>

definition get64 :: "u8 list \<Rightarrow> nat \<Rightarrow> u64" where
  "get64 d off = le_word (take 8 (drop off d))"

record elfhdr =
  e_magic :: u32
  e_entry :: u64
  e_phoff :: u64
  e_phnum :: u16

record proghdr =
  ph_type :: u32
  ph_flags :: u32
  ph_off :: u64
  ph_vaddr :: u64
  ph_filesz :: u64
  ph_memsz :: u64

definition ELF_MAGIC :: u32 where "ELF_MAGIC = 0x464C457F"
definition ELF_PROG_LOAD :: u32 where "ELF_PROG_LOAD = 1"

definition elfhdr_of :: "u8 list \<Rightarrow> elfhdr" where
  "elfhdr_of d = \<lparr>e_magic = get32 d 0, e_entry = get64 d 24, e_phoff = get64 d 32, e_phnum = get16 d 56\<rparr>"

definition proghdr_of :: "u8 list \<Rightarrow> proghdr" where
  "proghdr_of d =
     \<lparr>ph_type = get32 d 0, ph_flags = get32 d 4, ph_off = get64 d 8, ph_vaddr = get64 d 16,
      ph_filesz = get64 d 32, ph_memsz = get64 d 40\<rparr>"

definition flags2perm :: "u32 \<Rightarrow> u64" where
  "flags2perm flags = (if flags AND 1 \<noteq> 0 then PTE_X else 0) OR (if flags AND 2 \<noteq> 0 then PTE_W else 0)"

section \<open>exec\<close>

fun loadseg_loop :: "u64 \<Rightarrow> u64 \<Rightarrow> nat \<Rightarrow> u32 \<Rightarrow> nat \<Rightarrow> nat list \<Rightarrow> ('z fs_state_scheme, int) prog" where
  "loadseg_loop pt va ip offset sz [] = ret 0"
| "loadseg_loop pt va ip offset sz (i # is) =
     bindp (walkaddr pt (va + of_nat i)) (\<lambda>pa.
     if pa = 0 then panic ''loadseg: address should exist'' else
     let n = min (sz - i) 4096 in
     bindp (readi ip (DKernel pa) (offset + of_nat i) (of_nat n)) (\<lambda>(r, _).
     if r \<noteq> int n then ret (- 1) else loadseg_loop pt va ip offset sz is))"

definition loadseg :: "u64 \<Rightarrow> u64 \<Rightarrow> nat \<Rightarrow> u32 \<Rightarrow> u32 \<Rightarrow> ('z fs_state_scheme, int) prog" where
  "loadseg pt va ip offset sz =
     loadseg_loop pt va ip offset (unat sz) (map (\<lambda>k. 4096 * k) [0..<(unat sz + 4095) div 4096])"

text \<open>
  The loop over the program headers, with \<open>k\<close> of them left: whether it gets to its end, and \<open>sz\<close>
  when it does or at the jump to \<open>bad\<close>.
\<close>

primrec exec_segs :: "nat \<Rightarrow> u64 \<Rightarrow> nat \<Rightarrow> u32 \<Rightarrow> u64 \<Rightarrow> ('z fs_state_scheme, bool \<times> u64) prog" where
  "exec_segs 0 pt ip off sz = ret (True, sz)"
| "exec_segs (Suc k) pt ip off sz =
     bindp (readi ip DLocal off 56) (\<lambda>(r, bs).
     let ph = proghdr_of bs in
     if r \<noteq> 56 then ret (False, sz)
     else if ph_type ph \<noteq> ELF_PROG_LOAD then exec_segs k pt ip (off + 56) sz
     else if ph_memsz ph < ph_filesz ph then ret (False, sz)
     else if ph_vaddr ph + ph_memsz ph < ph_vaddr ph then ret (False, sz)
     else if ph_vaddr ph mod PGSIZE \<noteq> 0 then ret (False, sz)
     else
     bindp (uvmalloc pt sz (ph_vaddr ph + ph_memsz ph) (flags2perm (ph_flags ph))) (\<lambda>sz1.
     if sz1 = 0 then ret (False, sz) else
     bindp (loadseg pt (ph_vaddr ph) ip (ucast (ph_off ph)) (ucast (ph_filesz ph))) (\<lambda>l.
     if l < 0 then ret (False, sz1) else exec_segs k pt ip (off + 56) sz1)))"

text \<open>The string at a kernel address, which \<open>strlen\<close> walks to its NUL.\<close>

definition kstrlen :: "u64 \<Rightarrow> ('z machine_scheme, nat) prog" where
  "kstrlen p s = (case strlen (\<lambda>i. mem s (p + of_nat i)) of None \<Rightarrow> Diverge | Some n \<Rightarrow> Ret n s)"

text \<open>The loop that pushes the argument strings; \<open>None\<close> is the jump to \<open>bad\<close>.\<close>

fun exec_push ::
    "u64 \<Rightarrow> u64 \<Rightarrow> u64 list \<Rightarrow> u64 \<Rightarrow> u64 list \<Rightarrow> ('z proc_state_scheme, (u64 \<times> u64 list) option) prog"
  where
  "exec_push pt stackbase [] sp0 ustack = ret (Some (sp0, ustack))"
| "exec_push pt stackbase (p # ps) sp0 ustack =
     (if length ustack \<ge> MAXARG then ret None else
      bindp (kstrlen p) (\<lambda>n.
      let sp1 = sp0 - (of_nat n + 1);
          sp2 = sp1 - sp1 mod 16
      in
      if sp2 < stackbase then ret None else
      bindp (gets (\<lambda>s. read_bytes (mem s) p (n + 1))) (\<lambda>bs.
      bindp (copyout pt sp2 bs) (\<lambda>r.
      if r < 0 then ret None else exec_push pt stackbase ps sp2 (ustack @ [sp2])))))"

text \<open>The array of pointers below the strings; \<open>None\<close> is the jump to \<open>bad\<close>.\<close>

definition exec_ustack :: "u64 \<Rightarrow> u64 \<Rightarrow> u64 \<Rightarrow> u64 list \<Rightarrow> ('z proc_state_scheme, u64 option) prog" where
  "exec_ustack pt stackbase sp0 ustack =
     (if length ustack \<ge> MAXARG then undefined_behaviour else
      let sp1 = sp0 - (of_nat (length ustack) + 1) * 8;
          sp2 = sp1 - sp1 mod 16
      in
      if sp2 < stackbase then ret None else
      bindp (copyout pt sp2 (concat (map (le_bytes 8) (ustack @ [0])))) (\<lambda>r.
      if r < 0 then ret None else ret (Some sp2)))"

definition exec_bad :: "u64 \<Rightarrow> u64 \<Rightarrow> nat option \<Rightarrow> ('z fs_state_scheme, int) prog" where
  "exec_bad pt sz ip =
     seqp (block
      [whenp (pt \<noteq> 0) (proc_freepagetable pt sz),
       case ip of None \<Rightarrow> ret () | Some j \<Rightarrow> block [iunlockput j, end_op]]) (
     ret (- 1))"

definition base_name :: "u8 list \<Rightarrow> u8 list" where
  "base_name path = rev (takeWhile (\<lambda>c. c \<noteq> slash) (rev path))"

text \<open>\<open>exec\<close> from the point where the program is loaded and the inode released.\<close>

definition exec_commit ::
    "nat \<Rightarrow> u8 list \<Rightarrow> u64 \<Rightarrow> u64 \<Rightarrow> u64 \<Rightarrow> u64 \<Rightarrow> nat \<Rightarrow> u64 \<Rightarrow> ('z fs_state_scheme, int) prog" where
  "exec_commit i path pt sz oldsz sp0 argc entry =
     seqp (block
      [tf_set i TF_a1 sp0,
       setp i (\<lambda>p. p\<lparr>pname := safestrcpy (pname p) (str_obj (base_name path)) 16\<rparr>)]) (
     bindp (getp i pagetable) (\<lambda>oldpt.
     seqp (block
      [setp i (\<lambda>p. p\<lparr>pagetable := pt\<rparr>),
       setp i (\<lambda>p. p\<lparr>psz := sz\<rparr>),
       tf_set i TF_epc entry,
       tf_set i TF_sp sp0,
       proc_freepagetable oldpt oldsz]) (
     ret (int argc))))"

definition exec_stack ::
    "nat \<Rightarrow> u8 list \<Rightarrow> u64 list \<Rightarrow> u64 \<Rightarrow> u64 \<Rightarrow> u64 \<Rightarrow> ('z fs_state_scheme, int) prog" where
  "exec_stack i path argv pt sz0 entry =
     bindp (getp i psz) (\<lambda>oldsz.
     let sz = PGROUNDUP sz0 in
     bindp (uvmalloc pt sz (sz + 2 * PGSIZE) PTE_W) (\<lambda>sz1.
     if sz1 = 0 then exec_bad pt sz None else
     seqp (uvmclear pt (sz1 - 2 * PGSIZE)) (
     bindp (exec_push pt (sz1 - PGSIZE) argv sz1 []) (\<lambda>a.
     case a of None \<Rightarrow> exec_bad pt sz1 None
     | Some (sp0, ustack) \<Rightarrow>
     bindp (exec_ustack pt (sz1 - PGSIZE) sp0 ustack) (\<lambda>b.
     case b of None \<Rightarrow> exec_bad pt sz1 None
     | Some sp2 \<Rightarrow> exec_commit i path pt sz1 oldsz sp2 (length ustack) entry)))))"

definition exec :: "u8 list \<Rightarrow> u64 list \<Rightarrow> ('z fs_state_scheme, int) prog" where
  "exec path argv =
     with_proc (\<lambda>i.
     seqp begin_op (
     bindp (namei path) (\<lambda>f.
     case f of None \<Rightarrow> seqp end_op (ret (- 1))
     | Some ip \<Rightarrow>
     seqp (ilock ip) (
     bindp (readi ip DLocal 0 64) (\<lambda>(r, bs).
     let elf = elfhdr_of bs in
     if r \<noteq> 64 then exec_bad 0 0 (Some ip)
     else if e_magic elf \<noteq> ELF_MAGIC then exec_bad 0 0 (Some ip)
     else
     bindp (proc_pagetable i) (\<lambda>pt.
     if pt = 0 then exec_bad 0 0 (Some ip) else
     bindp (exec_segs (unat (e_phnum elf)) pt ip (ucast (e_phoff elf)) 0) (\<lambda>(ok, sz).
     if \<not> ok then exec_bad pt sz (Some ip) else
     seqp (block [iunlockput ip, end_op]) (
     exec_stack i path argv pt sz (e_entry elf)))))))))"

section \<open>The system call\<close>

text \<open>The loop that fetches the arguments, with room for \<open>k\<close> more; \<open>False\<close> is the jump to \<open>bad\<close>.\<close>

primrec sys_exec_args :: "nat \<Rightarrow> u64 \<Rightarrow> u64 list \<Rightarrow> ('z proc_state_scheme, bool \<times> u64 list) prog" where
  "sys_exec_args 0 uargv argv = ret (False, argv)"
| "sys_exec_args (Suc k) uargv argv =
     bindp (fetchaddr (uargv + 8 * of_nat (length argv))) (\<lambda>(r, uarg).
     if r < 0 then ret (False, argv)
     else if uarg = 0 then ret (True, argv)
     else
     bindp kalloc (\<lambda>pg.
     if pg = 0 then ret (False, argv) else
     bindp (fetchstr uarg 4096) (\<lambda>(l, bs).
     seqp (modify (\<lambda>s. s\<lparr>mem := write_bytes (mem s) pg bs\<rparr>)) (
     if l < 0 then ret (False, argv @ [pg])
     else sys_exec_args k uargv (argv @ [pg])))))"

definition sys_exec :: "('z fs_state_scheme, u64) prog" where
  "sys_exec =
     bindp (argaddr 1) (\<lambda>uargv.
     bindp (argstr 0 MAXPATH) (\<lambda>(n, path).
     if n < 0 then ret (- 1) else
     bindp (sys_exec_args MAXARG uargv []) (\<lambda>(ok, argv).
     if ok then
       bindp (exec path argv) (\<lambda>r.
       seqp (block (map kfree argv)) (
       ret (of_int r)))
     else seqp (block (map kfree argv)) (ret (- 1)))))"

section \<open>Dispatch\<close>

text \<open>The table \<open>syscalls\<close>, with the numbers of \<open>kernel/syscall.h\<close>.\<close>

definition syscalls :: "int \<Rightarrow> ('z sys_state_scheme, u64) prog option" where
  "syscalls num =
     (if num = 1 then Some sys_fork else if num = 2 then Some sys_exit
      else if num = 3 then Some sys_wait else if num = 4 then Some sys_pipe
      else if num = 5 then Some sys_read else if num = 6 then Some sys_kill
      else if num = 7 then Some sys_exec else if num = 8 then Some sys_fstat
      else if num = 9 then Some sys_chdir else if num = 10 then Some sys_dup
      else if num = 11 then Some sys_getpid else if num = 12 then Some sys_sbrk
      else if num = 13 then Some sys_sleep else if num = 14 then Some sys_uptime
      else if num = 15 then Some sys_open else if num = 16 then Some sys_write
      else if num = 17 then Some sys_mknod else if num = 18 then Some sys_unlink
      else if num = 19 then Some sys_link else if num = 20 then Some sys_mkdir
      else if num = 21 then Some sys_close else None)"

definition syscall :: "('z sys_state_scheme, unit) prog" where
  "syscall =
     with_proc (\<lambda>i.
     bindp (tf_get i TF_a7) (\<lambda>a7.
     let num = sint (ucast a7 :: u32) in
     case syscalls num of
       Some f \<Rightarrow> bindp f (\<lambda>r. tf_set i TF_a0 r)
     | None \<Rightarrow>
         bindp (getp i id) (\<lambda>p.
         seqp (printf (''%d %s: unknown sys call %d'' @ [CHR 0x0A])
           [AInt (pid p), AStr (Some (cstr (pname p) 16)), AInt (ucast a7)]) (
         tf_set i TF_a0 (- 1)))))"

end
