(* ===== verification/Virtio.thy ===== *)
theory Virtio
  imports Exec
begin

text \<open>
  \<open>kernel/virtio_disk.c\<close>: the driver of the virtio disk. The descriptor table, the two rings and
  \<open>struct disk\<close> are fields of the state. A descriptor's address is one of the objects that the
  driver gives to the device: a request header, the data of a buffer, or a status byte.

  The buffer cache uses the contract \<open>disk_rw\<close> of this driver. Here a request is submitted, the
  process sleeps, the device writes the used ring and interrupts, and \<open>virtio_disk_intr\<close> wakes the
  process, which goes on with \<open>virtio_disk_rw_resume\<close>. The device registers that the driver reads
  (identification, features, queue size) are fields of the state as well.
\<close>

definition NUM :: nat where "NUM = 8"

datatype daddr = ANull | AOps nat | AData nat | AStatus nat

record vdesc =
  daddr :: daddr
  dlen :: u32
  dflags :: u16
  dnext :: u16

record vreq =
  vtype :: u32
  vreserved :: u32
  vsector :: u64

record vd_state = sys_state +
  vdesc :: "nat \<Rightarrow> vdesc"
  avail_idx :: u16
  avail_ring :: "nat \<Rightarrow> u16"
  used_idx :: u16
  used_ring :: "nat \<Rightarrow> u32"
  vfree :: "nat \<Rightarrow> u8"
  seen_idx :: u16
  vinfo_b :: "nat \<Rightarrow> nat option"
  vinfo_status :: "nat \<Rightarrow> u8"
  vops :: "nat \<Rightarrow> vreq"
  vpages :: "u64 list"
  vreg :: "nat \<Rightarrow> u32"
  vstatus_mask :: u32

definition VRING_DESC_F_NEXT :: u16 where "VRING_DESC_F_NEXT = 1"
definition VRING_DESC_F_WRITE :: u16 where "VRING_DESC_F_WRITE = 2"
definition VIRTIO_BLK_T_IN :: u32 where "VIRTIO_BLK_T_IN = 0"
definition VIRTIO_BLK_T_OUT :: u32 where "VIRTIO_BLK_T_OUT = 1"

section \<open>Initialisation\<close>

text \<open>Registers, by their offset. The device keeps the status bits that it accepts.\<close>

definition vread :: "nat \<Rightarrow> ('z vd_state_scheme, u32) prog" where
  "vread r = gets (\<lambda>s. vreg s r)"

definition vwrite :: "nat \<Rightarrow> u32 \<Rightarrow> ('z vd_state_scheme, unit) prog" where
  "vwrite r v = modify (\<lambda>s.
     s\<lparr>vreg := (vreg s)(r := if r = 0x70 then v AND vstatus_mask s else v)\<rparr>)"

definition vfeatures :: "u32 \<Rightarrow> u32" where
  "vfeatures f = fold (\<lambda>k x. x AND NOT (push_bit k 1)) [5, 7, 11, 12, 27, 29, 28] f"

definition vwrite_addr :: "nat \<Rightarrow> u64 \<Rightarrow> ('z vd_state_scheme, unit) prog" where
  "vwrite_addr r a = seqp (vwrite r (ucast a)) (vwrite (r + 4) (ucast (drop_bit 32 a)))"

text \<open>The part of \<open>virtio_disk_init\<close> that finds the device and agrees on its features.\<close>

definition virtio_negotiate :: "('z vd_state_scheme, u32) prog" where
  "virtio_negotiate =
     seqp (lock_init LDisk) (
     bindp (gets vreg) (\<lambda>r.
     if r 0 \<noteq> 0x74726976 \<or> r 4 \<noteq> 2 \<or> r 8 \<noteq> 2 \<or> r 0xc \<noteq> 0x554d4551
     then panic ''could not find virtio disk''
     else
     seqp (block
      [vwrite 0x70 0,
       vwrite 0x70 1,
       vwrite 0x70 (1 OR 2),
       bindp (vread 0x10) (\<lambda>f. vwrite 0x20 (vfeatures f)),
       vwrite 0x70 (1 OR 2 OR 8)]) (
     bindp (vread 0x70) (\<lambda>status.
     if status AND 8 = 0 then panic ''virtio disk FEATURES_OK unset''
     else ret status))))"

definition virtio_disk_init :: "('z vd_state_scheme, unit) prog" where
  "virtio_disk_init =
     bindp virtio_negotiate (\<lambda>status.
     seqp (vwrite 0x30 0) (
     bindp (vread 0x44) (\<lambda>ready.
     if ready \<noteq> 0 then panic ''virtio disk should not be ready'' else
     bindp (vread 0x34) (\<lambda>mx.
     if mx = 0 then panic ''virtio disk has no queue 0''
     else if mx < of_nat NUM then panic ''virtio disk max queue too short''
     else
     bindp kalloc (\<lambda>desc.
     bindp kalloc (\<lambda>avail.
     bindp kalloc (\<lambda>used.
     if desc = 0 \<or> avail = 0 \<or> used = 0 then panic ''virtio disk kalloc'' else
     block
      [fill_page desc 0,
       fill_page avail 0,
       fill_page used 0,
       modify (\<lambda>s. s\<lparr>vdesc := (\<lambda>_. \<lparr>daddr = ANull, dlen = 0, dflags = 0, dnext = 0\<rparr>),
                     avail_idx := 0, avail_ring := (\<lambda>_. 0), used_idx := 0, used_ring := (\<lambda>_. 0),
                     vpages := [desc, avail, used]\<rparr>),
       vwrite 0x38 (of_nat NUM),
       vwrite_addr 0x80 desc,
       vwrite_addr 0x90 avail,
       vwrite_addr 0xa0 used,
       vwrite 0x44 1,
       modify (\<lambda>s. s\<lparr>vfree := (\<lambda>i. if i < NUM then 1 else vfree s i)\<rparr>),
       vwrite 0x70 (status OR 4)])))))))"

section \<open>Descriptors\<close>

definition alloc_desc :: "('z vd_state_scheme, nat option) prog" where
  "alloc_desc =
     bindp (gets vfree) (\<lambda>fr.
     case find (\<lambda>i. fr i \<noteq> 0) [0..<NUM] of
       None \<Rightarrow> ret None
     | Some i \<Rightarrow> seqp (modify (\<lambda>s. s\<lparr>vfree := (vfree s)(i := 0)\<rparr>)) (ret (Some i)))"

definition free_desc :: "nat \<Rightarrow> ('z vd_state_scheme, unit) prog" where
  "free_desc i =
     (if i \<ge> NUM then panic ''free_desc 1'' else
      bindp (gets (\<lambda>s. vfree s i)) (\<lambda>f.
      if f \<noteq> 0 then panic ''free_desc 2'' else
      block
       [modify (\<lambda>s. s\<lparr>vdesc := (vdesc s)(i := \<lparr>daddr = ANull, dlen = 0, dflags = 0, dnext = 0\<rparr>)\<rparr>),
        modify (\<lambda>s. s\<lparr>vfree := (vfree s)(i := 1)\<rparr>),
        wakeup ChDiskFree]))"

text \<open>
  \<open>free_chain\<close> ends after at most \<open>NUM\<close> descriptors, since \<open>free_desc\<close> panics on one that is free
  already; the first argument counts them.
\<close>

primrec free_chain_loop :: "nat \<Rightarrow> nat \<Rightarrow> ('z vd_state_scheme, unit) prog" where
  "free_chain_loop 0 i = free_desc i"
| "free_chain_loop (Suc k) i =
     bindp (gets (\<lambda>s. vdesc s i)) (\<lambda>d.
     seqp (free_desc i) (
     whenp (dflags d AND VRING_DESC_F_NEXT \<noteq> 0) (free_chain_loop k (unat (dnext d)))))"

definition free_chain :: "nat \<Rightarrow> ('z vd_state_scheme, unit) prog" where
  "free_chain i = free_chain_loop NUM i"

definition alloc3_desc :: "('z vd_state_scheme, (nat \<times> nat \<times> nat) option) prog" where
  "alloc3_desc =
     bindp alloc_desc (\<lambda>a.
     case a of None \<Rightarrow> ret None
     | Some i0 \<Rightarrow>
     bindp alloc_desc (\<lambda>b.
     case b of None \<Rightarrow> seqp (free_desc i0) (ret None)
     | Some i1 \<Rightarrow>
     bindp alloc_desc (\<lambda>c.
     case c of None \<Rightarrow> seqp (free_desc i0) (seqp (free_desc i1) (ret None))
     | Some i2 \<Rightarrow> ret (Some (i0, i1, i2)))))"

section \<open>Requests\<close>

definition set_vdesc :: "nat \<Rightarrow> vdesc \<Rightarrow> ('z vd_state_scheme, unit) prog" where
  "set_vdesc i d = modify (\<lambda>s. s\<lparr>vdesc := (vdesc s)(i := d)\<rparr>)"

text \<open>From the formatting of the descriptors to the notification of the device.\<close>

definition virtio_submit :: "nat \<Rightarrow> bool \<Rightarrow> nat \<times> nat \<times> nat \<Rightarrow> ('z vd_state_scheme, unit) prog" where
  "virtio_submit b write idx =
     (case idx of (i0, i1, i2) \<Rightarrow>
     bindp (getb (Buf b) bblockno) (\<lambda>bno.
     block
      [modify (\<lambda>s. s\<lparr>vops := (vops s)(i0 :=
         \<lparr>vtype = (if write then VIRTIO_BLK_T_OUT else VIRTIO_BLK_T_IN), vreserved = 0,
          vsector = ucast (bno * 2)\<rparr>)\<rparr>),
       set_vdesc i0 \<lparr>daddr = AOps i0, dlen = 16, dflags = VRING_DESC_F_NEXT, dnext = of_nat i1\<rparr>,
       set_vdesc i1 \<lparr>daddr = AData b, dlen = of_nat BSIZE,
         dflags = (if write then 0 else VRING_DESC_F_WRITE) OR VRING_DESC_F_NEXT, dnext = of_nat i2\<rparr>,
       modify (\<lambda>s. s\<lparr>vinfo_status := (vinfo_status s)(i0 := 0xff)\<rparr>),
       set_vdesc i2 \<lparr>daddr = AStatus i0, dlen = 1, dflags = VRING_DESC_F_WRITE, dnext = 0\<rparr>,
       setb (Buf b) (\<lambda>r. r\<lparr>bdisk := 1\<rparr>),
       modify (\<lambda>s. s\<lparr>vinfo_b := (vinfo_b s)(i0 := Some b)\<rparr>),
       modify (\<lambda>s. s\<lparr>avail_ring := (avail_ring s)(unat (avail_idx s) mod NUM := of_nat i0)\<rparr>),
       modify (\<lambda>s. s\<lparr>avail_idx := avail_idx s + 1\<rparr>),
       vwrite 0x50 0]))"

text \<open>The wait for the interrupt and what follows it.\<close>

definition virtio_wait :: "nat \<Rightarrow> nat \<Rightarrow> ('z vd_state_scheme, unit) prog" where
  "virtio_wait b i0 =
     bindp (getb (Buf b) bdisk) (\<lambda>d.
     if d = 1 then sleep (ChBuf b) LDisk
     else
     block
      [modify (\<lambda>s. s\<lparr>vinfo_b := (vinfo_b s)(i0 := None)\<rparr>),
       free_chain i0,
       lock_release LDisk])"

definition virtio_disk_rw_loop :: "nat \<Rightarrow> bool \<Rightarrow> ('z vd_state_scheme, unit) prog" where
  "virtio_disk_rw_loop b write =
     bindp alloc3_desc (\<lambda>a.
     case a of None \<Rightarrow> sleep ChDiskFree LDisk
     | Some idx \<Rightarrow> seqp (virtio_submit b write idx) (virtio_wait b (fst idx)))"

definition virtio_disk_rw :: "nat \<Rightarrow> bool \<Rightarrow> ('z vd_state_scheme, unit) prog" where
  "virtio_disk_rw b write = seqp (lock_acquire LDisk) (virtio_disk_rw_loop b write)"

text \<open>After a sleep for descriptors, and after a sleep for the interrupt.\<close>

definition virtio_disk_rw_retry :: "nat \<Rightarrow> bool \<Rightarrow> ('z vd_state_scheme, unit) prog" where
  "virtio_disk_rw_retry b write = seqp (sleep_resume LDisk) (virtio_disk_rw_loop b write)"

definition virtio_disk_rw_resume :: "nat \<Rightarrow> nat \<Rightarrow> ('z vd_state_scheme, unit) prog" where
  "virtio_disk_rw_resume b i0 = seqp (sleep_resume LDisk) (virtio_wait b i0)"

section \<open>Completions\<close>

text \<open>The loop over the \<open>n\<close> entries of the used ring that the driver has not seen.\<close>

primrec virtio_intr_loop :: "nat \<Rightarrow> ('z vd_state_scheme, unit) prog" where
  "virtio_intr_loop 0 = ret ()"
| "virtio_intr_loop (Suc n) =
     bindp (gets (\<lambda>s. unat (used_ring s (unat (seen_idx s) mod NUM)))) (\<lambda>i.
     if i \<ge> NUM then undefined_behaviour else
     bindp (gets (\<lambda>s. vinfo_status s i)) (\<lambda>st.
     if st \<noteq> 0 then panic ''virtio_disk_intr status'' else
     bindp (gets (\<lambda>s. vinfo_b s i)) (\<lambda>b.
     deref ''kerneltrap'' b (\<lambda>j.
     seqp (block
      [setb (Buf j) (\<lambda>r. r\<lparr>bdisk := 0\<rparr>),
       wakeup (ChBuf j),
       modify (\<lambda>s. s\<lparr>seen_idx := seen_idx s + 1\<rparr>)])
     (virtio_intr_loop n)))))"

definition virtio_disk_intr :: "('z vd_state_scheme, unit) prog" where
  "virtio_disk_intr =
     block
      [lock_acquire LDisk,
       bindp (vread 0x60) (\<lambda>st. vwrite 0x64 (st AND 3)),
       bindp (gets (\<lambda>s. unat (used_idx s - seen_idx s))) virtio_intr_loop,
       lock_release LDisk]"

end
