(* ===== verification/Disk.thy ===== *)
theory Disk
  imports Virtio
begin

text \<open>
  The disk driver with the device: a request that \<open>virtio_disk_rw\<close> submits, that the device serves and that
  \<open>virtio_disk_intr\<close> completes has the effect of the contract \<open>disk_rw\<close> that the buffer cache uses, and leaves the
  queue as it was. The device is a parameter, with what the virtio specification says of a block request.
\<close>

section \<open>The device\<close>

text \<open>The chain of descriptors that starts with \<open>i\<close> is a block request: a header, the data of buffer \<open>b\<close>, a status byte.\<close>

definition request :: "vd_state \<Rightarrow> nat \<Rightarrow> nat \<Rightarrow> bool \<Rightarrow> u64 \<Rightarrow> bool" where
  "request s i b w sector \<longleftrightarrow>
     (let d0 = vdesc s i; d1 = vdesc s (unat (dnext d0)); d2 = vdesc s (unat (dnext d1)) in
      daddr d0 = AOps i \<and> dlen d0 = 16 \<and> dflags d0 = VRING_DESC_F_NEXT \<and>
      daddr d1 = AData b \<and> dlen d1 = of_nat BSIZE \<and>
      dflags d1 = (if w then 0 else VRING_DESC_F_WRITE) OR VRING_DESC_F_NEXT \<and>
      daddr d2 = AStatus i \<and> dlen d2 = 1 \<and> dflags d2 = VRING_DESC_F_WRITE \<and>
      vtype (vops s i) = (if w then VIRTIO_BLK_T_OUT else VIRTIO_BLK_T_IN) \<and> vsector (vops s i) = sector)"

text \<open>The device moves a block of two sectors, writes the status 0 and adds the head of the chain to the used ring.\<close>

definition moved :: "nat \<Rightarrow> bool \<Rightarrow> u32 \<Rightarrow> 'z bio_state_scheme \<Rightarrow> 'z bio_state_scheme" where
  "moved b w bno s =
     (if w then s\<lparr>disk := (disk s)(bno := bdata (bcache s (Buf b)))\<rparr>
      else s\<lparr>bcache := (bcache s)(Buf b := (bcache s (Buf b))\<lparr>bdata := disk s bno\<rparr>)\<rparr>)"

definition served :: "nat \<Rightarrow> nat \<Rightarrow> bool \<Rightarrow> u64 \<Rightarrow> vd_state \<Rightarrow> vd_state" where
  "served i b w sector s =
     (moved b w (ucast (sector div 2)) s)
       \<lparr>vinfo_status := (vinfo_status s)(i := 0),
        used_ring := (used_ring s)(unat (used_idx s) mod NUM := of_nat i), used_idx := used_idx s + 1\<rparr>"

definition device :: "(vd_state \<Rightarrow> vd_state) \<Rightarrow> bool" where
  "device dev \<longleftrightarrow> (\<forall>s i b w sector. avail_idx s = used_idx s + 1 \<longrightarrow>
     i = unat (avail_ring s (unat (used_idx s) mod NUM)) \<longrightarrow> request s i b w sector \<longrightarrow> dev s = served i b w sector s)"

section \<open>Descriptors\<close>

definition free_descs :: "'z vd_state_scheme \<Rightarrow> nat set" where
  "free_descs s = {i. i < NUM \<and> vfree s i \<noteq> 0}"

lemma alloc_desc_free:
  assumes "free_descs s \<noteq> {}"
  obtains i where "alloc_desc s = Ret (Some i) (s\<lparr>vfree := (vfree s)(i := 0)\<rparr>)" "i \<in> free_descs s"
proof -
  have "find (\<lambda>i. vfree s i \<noteq> 0) [0..<NUM] \<noteq> None" using assms by (auto simp: find_None_iff free_descs_def)
  then obtain i where i: "find (\<lambda>i. vfree s i \<noteq> 0) [0..<NUM] = Some i" by auto
  then have "i \<in> free_descs s" by (auto simp: find_Some_iff free_descs_def)
  then show thesis using that i by (simp add: alloc_desc_def prog_simps)
qed

lemma free_descs_upd: "free_descs (s\<lparr>vfree := (vfree s)(i := 0)\<rparr>) = free_descs s - {i}"
  by (auto simp: free_descs_def split: if_splits)

lemma finite_free_descs: "finite (free_descs s)"
  by (simp add: free_descs_def)

lemma alloc3_desc_free:
  assumes "3 \<le> card (free_descs s)"
  obtains i0 i1 i2 where "alloc3_desc s = Ret (Some (i0, i1, i2)) (s\<lparr>vfree := (vfree s)(i0 := 0, i1 := 0, i2 := 0)\<rparr>)"
    "{i0, i1, i2} \<subseteq> free_descs s" "i0 \<noteq> i1" "i0 \<noteq> i2" "i1 \<noteq> i2"
proof -
  have ne: "free_descs s \<noteq> {}" using assms by auto
  obtain i0 where i0: "alloc_desc s = Ret (Some i0) (s\<lparr>vfree := (vfree s)(i0 := 0)\<rparr>)" "i0 \<in> free_descs s"
    using alloc_desc_free [OF ne] .
  let ?s1 = "s\<lparr>vfree := (vfree s)(i0 := 0)\<rparr>"
  have c1: "2 \<le> card (free_descs ?s1)" using assms i0 finite_free_descs [of s] by (simp add: free_descs_upd)
  then have "free_descs ?s1 \<noteq> {}" by auto
  then obtain i1 where i1: "alloc_desc ?s1 = Ret (Some i1) (?s1\<lparr>vfree := (vfree ?s1)(i1 := 0)\<rparr>)" "i1 \<in> free_descs ?s1"
    by (rule alloc_desc_free)
  let ?s2 = "?s1\<lparr>vfree := (vfree ?s1)(i1 := 0)\<rparr>"
  have "1 \<le> card (free_descs ?s2)" using c1 i1 finite_free_descs [of ?s1] unfolding free_descs_upd [of ?s1 i1] by simp
  then have "free_descs ?s2 \<noteq> {}" by auto
  then obtain i2 where i2: "alloc_desc ?s2 = Ret (Some i2) (?s2\<lparr>vfree := (vfree ?s2)(i2 := 0)\<rparr>)" "i2 \<in> free_descs ?s2"
    by (rule alloc_desc_free)
  have "i1 \<in> free_descs s - {i0}" "i2 \<in> free_descs s - {i0} - {i1}"
    using i1(2) i2(2) unfolding free_descs_upd [of ?s1 i1] free_descs_upd [of s i0] by auto
  then show thesis using that [of i0 i1 i2] i0 i1(1) i2(1) by (auto simp: alloc3_desc_def bindp_apply)
qed

section \<open>Submitting\<close>

definition submitted :: "nat \<Rightarrow> bool \<Rightarrow> nat \<Rightarrow> nat \<Rightarrow> nat \<Rightarrow> 'z vd_state_scheme \<Rightarrow> 'z vd_state_scheme" where
  "submitted b w i0 i1 i2 s = s
     \<lparr>bcache := (bcache s)(Buf b := (bcache s (Buf b))\<lparr>bdisk := 1\<rparr>),
      vdesc := (vdesc s)
        (i0 := \<lparr>daddr = AOps i0, dlen = 16, dflags = VRING_DESC_F_NEXT, dnext = of_nat i1\<rparr>,
         i1 := \<lparr>daddr = AData b, dlen = of_nat BSIZE, dflags = (if w then 0 else VRING_DESC_F_WRITE) OR VRING_DESC_F_NEXT,
                dnext = of_nat i2\<rparr>,
         i2 := \<lparr>daddr = AStatus i0, dlen = 1, dflags = VRING_DESC_F_WRITE, dnext = 0\<rparr>),
      avail_idx := avail_idx s + 1,
      avail_ring := (avail_ring s)(unat (avail_idx s) mod NUM := of_nat i0),
      vinfo_b := (vinfo_b s)(i0 := Some b),
      vinfo_status := (vinfo_status s)(i0 := 0xff),
      vops := (vops s)(i0 := \<lparr>vtype = (if w then VIRTIO_BLK_T_OUT else VIRTIO_BLK_T_IN), vreserved = 0,
         vsector = ucast (bblockno (bcache s (Buf b)) * 2)\<rparr>),
      vreg := (vreg s)(0x50 := 0)\<rparr>"

lemma virtio_submit_apply: "virtio_submit b w (i0, i1, i2) s = Ret () (submitted b w i0 i1 i2 s)"
  by (simp add: virtio_submit_def prog_simps set_vdesc_def vwrite_def submitted_def)


text \<open>The state in which the scheduler runs while the process waits for the interrupt.\<close>

definition waiting_io :: "nat \<Rightarrow> nat \<Rightarrow> bool \<Rightarrow> nat \<Rightarrow> nat \<Rightarrow> nat \<Rightarrow> 'z vd_state_scheme \<Rightarrow> 'z vd_state_scheme" where
  "waiting_io p b w i0 i1 i2 s =
     (submitted b w i0 i1 i2 (s\<lparr>vfree := (vfree s)(i0 := 0, i1 := 0, i2 := 0)\<rparr>))
       \<lparr>curproc := None, held := {}, procs := (procs s)(p := (procs s p)\<lparr>pchan := ChBuf b, pstate := SLEEPING\<rparr>)\<rparr>"

lemma virtio_disk_rw_waits:
  assumes p: "curproc s = Some p" "held s = {}" and d: "3 \<le> card (free_descs s)"
  obtains i0 i1 i2 s1 where "virtio_disk_rw b w s = Switch s1"
    "scheduler_resume p s1 = Ret () (waiting_io p b w i0 i1 i2 s)"
    "{i0, i1, i2} \<subseteq> free_descs s" "i0 \<noteq> i1" "i0 \<noteq> i2" "i1 \<noteq> i2"
proof -
  let ?h = "s\<lparr>held := {LDisk}\<rparr>"
  have h: "free_descs ?h = free_descs s" "vfree ?h = vfree s" by (simp_all add: free_descs_def)
  have "3 \<le> card (free_descs ?h)" using d unfolding h .
  from alloc3_desc_free [OF this, unfolded h] obtain i0 i1 i2 where
    i: "alloc3_desc ?h = Ret (Some (i0, i1, i2)) (?h\<lparr>vfree := (vfree s)(i0 := 0, i1 := 0, i2 := 0)\<rparr>)"
      "{i0, i1, i2} \<subseteq> free_descs s" "i0 \<noteq> i1" "i0 \<noteq> i2" "i1 \<noteq> i2" .
  let ?u = "submitted b w i0 i1 i2 (s\<lparr>held := {LDisk}, vfree := (vfree s)(i0 := 0, i1 := 0, i2 := 0)\<rparr>)"
  have f: "curproc ?u = Some p" "held ?u = {LDisk}" "bdisk (bcache ?u (Buf b)) = 1"
    using p by (simp_all add: submitted_def)
  have "virtio_disk_rw b w s = Switch (asleep p (ChBuf b) ?u)"
    using p i(1) f by (simp add: virtio_disk_rw_def virtio_disk_rw_loop_def prog_simps virtio_submit_apply virtio_wait_def
        sleep_asleep)
  moreover have "scheduler_resume p (asleep p (ChBuf b) ?u) = Ret () (waiting_io p b w i0 i1 i2 s)"
    by (simp add: scheduler_resume_def prog_simps asleep_def waiting_io_def submitted_def)
  ultimately show thesis using that i by blast
qed

section \<open>Serving\<close>

lemma ucast_block:
  fixes bno :: u32
  assumes "bno < 2 ^ 31"
  shows "ucast (ucast (bno * 2) div 2 :: u64) = bno"
proof -
  have b: "unat bno < 2 ^ 31" using assms by (simp add: word_less_nat_alt)
  then have "unat (bno * 2) = unat bno * 2" by (simp add: unat_word_ariths)
  then have "unat (ucast (bno * 2) div 2 :: u64) = unat bno"
    using b by (simp add: unat_div unsigned_ucast_eq take_bit_nat_eq_self)
  then show ?thesis using b by (simp add: word_unat_eq_iff unsigned_ucast_eq take_bit_nat_eq_self)
qed

lemma waiting_request:
  assumes i: "{i0, i1, i2} \<subseteq> free_descs s" "i0 \<noteq> i1" "i0 \<noteq> i2" "i1 \<noteq> i2"
  shows "request (waiting_io p b w i0 i1 i2 s) i0 b w (ucast (bblockno (bcache s (Buf b)) * 2))"
proof -
  have "unat (of_nat i1 :: u16) = i1" "unat (of_nat i2 :: u16) = i2"
    using i(1) by (auto simp: free_descs_def NUM_def unat_of_nat)
  then show ?thesis using i by (simp add: request_def waiting_io_def submitted_def Let_def)
qed

lemma device_serves:
  assumes dev: "device dev" and i: "{i0, i1, i2} \<subseteq> free_descs s" "i0 \<noteq> i1" "i0 \<noteq> i2" "i1 \<noteq> i2"
    and idle: "avail_idx s = used_idx s"
  shows "dev (waiting_io p b w i0 i1 i2 s) =
    served i0 b w (ucast (bblockno (bcache s (Buf b)) * 2)) (waiting_io p b w i0 i1 i2 s)"
proof -
  let ?u = "waiting_io p b w i0 i1 i2 s"
  have "unat (of_nat i0 :: u16) = i0" using i(1) by (auto simp: free_descs_def NUM_def unat_of_nat)
  then have "avail_idx ?u = used_idx ?u + 1" "i0 = unat (avail_ring ?u (unat (used_idx ?u) mod NUM))"
    using idle by (simp_all add: waiting_io_def submitted_def)
  then show ?thesis using dev waiting_request [OF i] unfolding device_def by blast
qed

section \<open>Completing\<close>

lemma virtio_disk_intr_one:
  assumes h: "held s = {}" and c: "curproc s = None" and u: "used_idx s = seen_idx s + 1"
    and i: "unat (used_ring s (unat (seen_idx s) mod NUM)) = i" "i < NUM"
    and st: "vinfo_status s i = 0" "vinfo_b s i = Some b"
  shows "virtio_disk_intr s = Ret () (s\<lparr>procs := awaken None (ChBuf b) (procs s),
    bcache := (bcache s)(Buf b := (bcache s (Buf b))\<lparr>bdisk := 0\<rparr>), seen_idx := seen_idx s + 1,
    vreg := (vreg s)(0x64 := vreg s 0x60 AND 3)\<rparr>)"
proof -
  have one: "unat (used_idx s - seen_idx s) = Suc 0" using u by simp
  let ?s = "s\<lparr>held := {LDisk}, vreg := (vreg s)(0x64 := vreg s 0x60 AND 3),
    bcache := (bcache s)(Buf b := (bcache s (Buf b))\<lparr>bdisk := 0\<rparr>)\<rparr>"
  have w: "wakeup (ChBuf b) ?s = Ret () (woken (ChBuf b) ?s)" by (rule wakeup_woken) auto
  have "s\<lparr>held := {}\<rparr> = s" using h by simp
  then show ?thesis using h i st one w c
    by (simp add: virtio_disk_intr_def prog_simps vread_def vwrite_def deref_def woken_def)
qed

lemma awaken_idem: "awaken me ch (awaken me ch ps) = awaken me ch ps"
  by (auto simp: awaken_def awake_def fun_eq_iff)

lemma free_desc_apply:
  assumes "i < NUM" "vfree s i = 0" "held s \<inter> range LProc = {}"
  shows "free_desc i s = Ret () (s\<lparr>procs := awaken (curproc s) ChDiskFree (procs s),
     vdesc := (vdesc s)(i := \<lparr>daddr = ANull, dlen = 0, dflags = 0, dnext = 0\<rparr>), vfree := (vfree s)(i := 1)\<rparr>)"
  using assms by (simp add: free_desc_def prog_simps wakeup_woken woken_def)

definition no_desc :: vdesc where
  "no_desc = \<lparr>daddr = ANull, dlen = 0, dflags = 0, dnext = 0\<rparr>"

lemma free_chain_three:
  assumes i: "i0 < NUM" "i1 < NUM" "i2 < NUM" "i0 \<noteq> i1" "i0 \<noteq> i2" "i1 \<noteq> i2"
    and f: "vfree s i0 = 0" "vfree s i1 = 0" "vfree s i2 = 0" and h: "held s \<inter> range LProc = {}"
    and d: "dflags (vdesc s i0) AND VRING_DESC_F_NEXT \<noteq> 0" "dnext (vdesc s i0) = of_nat i1"
      "dflags (vdesc s i1) AND VRING_DESC_F_NEXT \<noteq> 0" "dnext (vdesc s i1) = of_nat i2"
      "dflags (vdesc s i2) AND VRING_DESC_F_NEXT = 0"
  shows "free_chain i0 s = Ret () (s\<lparr>procs := awaken (curproc s) ChDiskFree (procs s),
     vdesc := (vdesc s)(i0 := no_desc, i1 := no_desc, i2 := no_desc), vfree := (vfree s)(i0 := 1, i1 := 1, i2 := 1)\<rparr>)"
proof -
  have u: "unat (of_nat i1 :: u16) = i1" "unat (of_nat i2 :: u16) = i2" using i by (simp_all add: NUM_def unat_of_nat)
  obtain k where n: "NUM = Suc (Suc (Suc k))" by (simp add: NUM_def numeral_eq_Suc)
  have "free_chain_loop (Suc (Suc (Suc k))) i0 s = Ret () (s\<lparr>procs := awaken (curproc s) ChDiskFree (procs s),
     vdesc := (vdesc s)(i0 := no_desc, i1 := no_desc, i2 := no_desc), vfree := (vfree s)(i0 := 1, i1 := 1, i2 := 1)\<rparr>)"
    using i f h d u by (simp add: prog_simps free_desc_apply awaken_idem no_desc_def)
  then show ?thesis by (simp add: free_chain_def n)
qed

definition chained :: "nat \<Rightarrow> nat \<Rightarrow> nat \<Rightarrow> 'z vd_state_scheme \<Rightarrow> bool" where
  "chained i0 i1 i2 s \<longleftrightarrow> i0 < NUM \<and> i1 < NUM \<and> i2 < NUM \<and> i0 \<noteq> i1 \<and> i0 \<noteq> i2 \<and> i1 \<noteq> i2 \<and>
     vfree s i0 = 0 \<and> vfree s i1 = 0 \<and> vfree s i2 = 0 \<and>
     dflags (vdesc s i0) AND VRING_DESC_F_NEXT \<noteq> 0 \<and> dnext (vdesc s i0) = of_nat i1 \<and>
     dflags (vdesc s i1) AND VRING_DESC_F_NEXT \<noteq> 0 \<and> dnext (vdesc s i1) = of_nat i2 \<and>
     dflags (vdesc s i2) AND VRING_DESC_F_NEXT = 0"

lemma resume_run:
  assumes s: "curproc s = Some p" "held s = {LProc p}" "bdisk (bcache s (Buf b)) = 0" and c: "chained i0 i1 i2 s"
  obtains t where "virtio_disk_rw_resume b i0 s = Ret () t" "held t = {}" "curproc t = Some p" "bcache t = bcache s"
    "disk t = disk s" "vfree t = (vfree s)(i0 := 1, i1 := 1, i2 := 1)" "avail_idx t = avail_idx s"
    "used_idx t = used_idx s" "seen_idx t = seen_idx s"
proof -
  let ?u = "s\<lparr>held := {LDisk}, procs := (procs s)(p := (procs s p)\<lparr>pchan := NoChan\<rparr>), vinfo_b := (vinfo_b s)(i0 := None)\<rparr>"
  have f: "free_chain i0 ?u = Ret () (?u\<lparr>procs := awaken (curproc ?u) ChDiskFree (procs ?u),
     vdesc := (vdesc ?u)(i0 := no_desc, i1 := no_desc, i2 := no_desc), vfree := (vfree ?u)(i0 := 1, i1 := 1, i2 := 1)\<rparr>)"
    by (rule free_chain_three) (use c in \<open>auto simp: chained_def\<close>)
  have "virtio_disk_rw_resume b i0 s = seqp (free_chain i0) (seqp (lock_release LDisk) (ret ())) ?u"
    using s by (simp add: virtio_disk_rw_resume_def prog_simps sleep_resume_apply virtio_wait_def)
  also have "\<dots> = Ret () (?u\<lparr>procs := awaken (Some p) ChDiskFree (procs ?u), held := {},
     vdesc := (vdesc ?u)(i0 := no_desc, i1 := no_desc, i2 := no_desc), vfree := (vfree s)(i0 := 1, i1 := 1, i2 := 1)\<rparr>)"
    using f s by (simp add: seqp_apply)
  finally show thesis by (rule that) (use s in simp_all)
qed

section \<open>The whole request\<close>

text \<open>What the driver and the scheduler do from the device's work to the return of \<open>virtio_disk_rw\<close>.\<close>

definition complete :: "(vd_state \<Rightarrow> vd_state) \<Rightarrow> nat \<Rightarrow> nat \<Rightarrow> nat \<Rightarrow> (vd_state, unit) prog" where
  "complete dev p b i =
     seqp (scheduler_resume p) (
     seqp (modify dev) (
     seqp virtio_disk_intr (
     bindp (scheduler_step p) (\<lambda>_.
     virtio_disk_rw_resume b i))))"

text \<open>No request is under way.\<close>

definition idle_queue :: "'z vd_state_scheme \<Rightarrow> bool" where
  "idle_queue s \<longleftrightarrow> used_idx s = avail_idx s \<and> seen_idx s = avail_idx s"

lemma disk_rw_apply:
  "disk_rw b w s = Ret () d \<Longrightarrow>
     disk d = disk (moved b w (bblockno (bcache s (Buf b))) s) \<and>
     bcache d = (bcache s)(Buf b := (bcache (moved b w (bblockno (bcache s (Buf b))) s) (Buf b))\<lparr>bdisk := 0\<rparr>)"
  by (auto simp: disk_rw_def run_eq_Ret moved_def split: if_splits)

lemma served_state:
  assumes i: "{i0, i1, i2} \<subseteq> free_descs s" "i0 \<noteq> i1" "i0 \<noteq> i2" "i1 \<noteq> i2" and idle: "idle_queue s"
    and bno: "bblockno (bcache s (Buf b)) < 2 ^ 31" and d: "disk_rw b w s = Ret () d"
    and v: "v = served i0 b w (ucast (bblockno (bcache s (Buf b)) * 2)) (waiting_io p b w i0 i1 i2 s)"
  shows "held v = {}" "curproc v = None" "used_idx v = seen_idx v + 1" "avail_idx v = seen_idx v + 1"
    "unat (used_ring v (unat (seen_idx v) mod NUM)) = i0"
    "vinfo_status v i0 = 0" "vinfo_b v i0 = Some b" "procs v p = (procs s p)\<lparr>pchan := ChBuf b, pstate := SLEEPING\<rparr>"
    "chained i0 i1 i2 v" "disk v = disk d" "(bcache v)(Buf b := (bcache v (Buf b))\<lparr>bdisk := 0\<rparr>) = bcache d"
    "vfree v = (vfree s)(i0 := 0, i1 := 0, i2 := 0)"
proof -
  note e = v served_def waiting_io_def submitted_def moved_def
  note r = disk_rw_apply [OF d]
  have n: "i0 < NUM" "i1 < NUM" "i2 < NUM" using i(1) by (simp_all add: free_descs_def)
  have u: "unat (of_nat i0 :: u32) = i0" using n by (simp add: NUM_def unat_of_nat)
  show "held v = {}" "curproc v = None" "used_idx v = seen_idx v + 1" "avail_idx v = seen_idx v + 1"
    "unat (used_ring v (unat (seen_idx v) mod NUM)) = i0"
    "vinfo_status v i0 = 0" "vinfo_b v i0 = Some b" "procs v p = (procs s p)\<lparr>pchan := ChBuf b, pstate := SLEEPING\<rparr>"
    "vfree v = (vfree s)(i0 := 0, i1 := 0, i2 := 0)"
    using idle u by (simp_all add: e idle_queue_def)
  show "chained i0 i1 i2 v" using i n
    by (simp add: e chained_def VRING_DESC_F_NEXT_def VRING_DESC_F_WRITE_def)
  show "disk v = disk d" "(bcache v)(Buf b := (bcache v (Buf b))\<lparr>bdisk := 0\<rparr>) = bcache d"
    using r ucast_block [OF bno] by (simp_all add: e)
qed

lemma resumed:
  assumes p: "p < NPROC" and i: "{i0, i1, i2} \<subseteq> free_descs s" "i0 \<noteq> i1" "i0 \<noteq> i2" "i1 \<noteq> i2"
    and idle: "idle_queue s" and v: "v = served i0 b w (ucast (bblockno (bcache s (Buf b)) * 2)) (waiting_io p b w i0 i1 i2 s)"
    and bno: "bblockno (bcache s (Buf b)) < 2 ^ 31" and d: "disk_rw b w s = Ret () d"
  obtains x where "seqp virtio_disk_intr (bindp (scheduler_step p) (\<lambda>_. virtio_disk_rw_resume b i0)) v = virtio_disk_rw_resume b i0 x"
    "curproc x = Some p" "held x = {LProc p}" "chained i0 i1 i2 x" "bcache x = bcache d" "disk x = disk d" "idle_queue x"
    "vfree x = (vfree s)(i0 := 0, i1 := 0, i2 := 0)"
proof -
  note f = served_state [OF i idle bno d v]
  let ?w = "v\<lparr>procs := awaken None (ChBuf b) (procs v),
    bcache := (bcache v)(Buf b := (bcache v (Buf b))\<lparr>bdisk := 0\<rparr>), seen_idx := seen_idx v + 1,
    vreg := (vreg v)(0x64 := vreg v 0x60 AND 3)\<rparr>"
  let ?x = "?w\<lparr>held := {LProc p}, procs := (procs ?w)(p := (procs ?w p)\<lparr>pstate := RUNNING\<rparr>), curproc := Some p\<rparr>"
  have "i0 < NUM" using i(1) by (simp add: free_descs_def)
  from virtio_disk_intr_one [OF f(1-3,5) this f(6,7)] have w: "virtio_disk_intr v = Ret () ?w" .
  have "pstate (procs ?w p) = RUNNABLE" using p f(8) by (simp add: awaken_def awake_def)
  then have "scheduler_step p ?w = Ret True ?x" using f(1) by (simp add: scheduler_step_def prog_simps)
  then have "seqp virtio_disk_intr (bindp (scheduler_step p) (\<lambda>_. virtio_disk_rw_resume b i0)) v = virtio_disk_rw_resume b i0 ?x"
    using w by (simp add: seqp_apply bindp_apply)
  then show thesis using f by (intro that [of ?x]) (simp_all add: chained_def idle_queue_def)
qed

text \<open>C9: a request that the driver submits and the device serves returns with the effect of \<open>disk_rw\<close> on the disk and on the
  buffer, and with the queue idle and its descriptors free again.\<close>

theorem virtio_refines_disk_rw:
  assumes dev: "device dev" and p: "p < NPROC" "curproc s = Some p" and h: "held s = {}"
    and idle: "idle_queue s" and free: "3 \<le> card (free_descs s)" and bno: "bblockno (bcache s (Buf b)) < 2 ^ 31"
    and d: "disk_rw b w s = Ret () d"
  shows "\<exists>s1 i t. virtio_disk_rw b w s = Switch s1 \<and> complete dev p b i s1 = Ret () t \<and>
    disk t = disk d \<and> bcache t = bcache d \<and> curproc t = Some p \<and> held t = {} \<and> idle_queue t \<and> free_descs t = free_descs s"
proof -
  obtain i0 i1 i2 s1 where s1: "virtio_disk_rw b w s = Switch s1"
      "scheduler_resume p s1 = Ret () (waiting_io p b w i0 i1 i2 s)"
    and i: "{i0, i1, i2} \<subseteq> free_descs s" "i0 \<noteq> i1" "i0 \<noteq> i2" "i1 \<noteq> i2"
    by (rule virtio_disk_rw_waits [OF p(2) h free])
  have "avail_idx s = used_idx s" using idle by (simp add: idle_queue_def)
  note served = device_serves [OF dev i this, of p b w]
  obtain x where x: "seqp virtio_disk_intr (bindp (scheduler_step p) (\<lambda>_. virtio_disk_rw_resume b i0))
      (dev (waiting_io p b w i0 i1 i2 s)) = virtio_disk_rw_resume b i0 x"
    "curproc x = Some p" "held x = {LProc p}" "chained i0 i1 i2 x" "bcache x = bcache d" "disk x = disk d" "idle_queue x"
    "vfree x = (vfree s)(i0 := 0, i1 := 0, i2 := 0)"
    using resumed [OF p(1) i idle refl bno d] unfolding served by metis
  have "bdisk (bcache x (Buf b)) = 0" using d by (auto simp: x(5) disk_rw_def run_eq_Ret split: if_splits)
  from resume_run [OF x(2,3) this x(4)] obtain t where t: "virtio_disk_rw_resume b i0 x = Ret () t" "held t = {}" "curproc t = Some p" "bcache t = bcache x"
    "disk t = disk x" "vfree t = (vfree x)(i0 := 1, i1 := 1, i2 := 1)" "avail_idx t = avail_idx x"
    "used_idx t = used_idx x" "seen_idx t = seen_idx x" by metis
  have "complete dev p b i0 s1 = Ret () t" using s1(2) x(1) t(1) by (simp add: complete_def seqp_apply)
  moreover have "free_descs t = free_descs s" using i(1) by (auto simp: free_descs_def t(6) x(8))
  ultimately show ?thesis using s1(1) t x by (intro exI [of _ s1] exI [of _ i0] exI [of _ t]) (simp add: idle_queue_def)
qed

section \<open>A device\<close>

text \<open>A device that serves the next request of the available ring.\<close>

definition vdev :: "vd_state \<Rightarrow> vd_state" where
  "vdev s =
     (let i = unat (avail_ring s (unat (used_idx s) mod NUM)) in
      case daddr (vdesc s (unat (dnext (vdesc s i)))) of
        AData b \<Rightarrow> served i b (vtype (vops s i) = VIRTIO_BLK_T_OUT) (vsector (vops s i)) s
      | _ \<Rightarrow> s)"

lemma vdev_device: "device vdev"
  by (auto simp: device_def request_def vdev_def Let_def VIRTIO_BLK_T_OUT_def VIRTIO_BLK_T_IN_def)

definition vd_example :: vd_state where
  "vd_example = sys_state.extend (file_state.extend file_example (sys_state.fields 0 0))
     (vd_state.fields (\<lambda>_. no_desc) 0 (\<lambda>_. 0) 0 (\<lambda>_. 0) (\<lambda>_. 1) 0 (\<lambda>_. None) (\<lambda>_. 0)
       (\<lambda>_. \<lparr>vtype = 0, vreserved = 0, vsector = 0\<rparr>) [] (\<lambda>_. 0) 0)"

lemmas vd_example_defs = vd_example_def sys_state.defs vd_state.defs file_example_defs

lemma virtio_refines_disk_rw_witness:
  "\<exists>s1 i t. virtio_disk_rw 0 True vd_example = Switch s1 \<and> complete vdev 0 0 i s1 = Ret () t \<and>
     disk t 0 = bdata (bcache vd_example (Buf 0)) \<and> held t = {}"
proof -
  have e: "curproc vd_example = Some 0" "held vd_example = {}" "idle_queue vd_example" "bblockno (bcache vd_example (Buf 0)) = 0"
      "free_descs vd_example = {..<NUM}"
    by (auto simp: vd_example_defs buf_example_def idle_queue_def free_descs_def)
  obtain d where d: "disk_rw 0 True vd_example = Ret () d" "disk d 0 = bdata (bcache vd_example (Buf 0))"
    using e(4) by (simp add: disk_rw_def prog_simps)
  have "3 \<le> card (free_descs vd_example)" by (simp add: e(5) NUM_def)
  from virtio_refines_disk_rw [OF vdev_device _ e(1-3) this _ d(1)] show ?thesis
    using d(2) e(4) by (force simp: NPROC_def)
qed

end
