(* ===== verification/Ptable.thy ===== *)
theory Ptable
  imports Proc
begin

text \<open>
  The process table as all of \<open>proc.c\<close> changes it, in any order: which slots are in use and with which process ids,
  whom \<open>kill\<close> reaches, and what \<open>wait\<close> reaps.
\<close>

section \<open>Results of the operations\<close>

lemma wakeup_slot_Ret:
  "wakeup_slot ch i s = Ret () t \<Longrightarrow> t = s\<lparr>procs := (procs s)(i := awake (curproc s) ch i (procs s i))\<rparr>"
proof -
  assume run: "wakeup_slot ch i s = Ret () t"
  have "LProc i \<notin> held s" if "Some i \<noteq> curproc s"
    using run that by (simp add: wakeup_slot_def run_eq_Ret lock_acquire_Ret)
  then show ?thesis using run wakeup_slot_apply [of i s ch] by simp
qed

lemma wakeup_Ret:
  assumes "wakeup ch s = Ret () t"
  shows "t = woken ch s"
proof -
  have "distinct is \<Longrightarrow> block (map (wakeup_slot ch) is) s = Ret () t \<Longrightarrow>
      t = s\<lparr>procs := \<lambda>i. if i \<in> set is then awake (curproc s) ch i (procs s i) else procs s i\<rparr>" for "is" s
  proof (induction "is" arbitrary: s)
    case (Cons i js)
    let ?u = "s\<lparr>procs := (procs s)(i := awake (curproc s) ch i (procs s i))\<rparr>"
    have "wakeup_slot ch i s = Ret () ?u" "block (map (wakeup_slot ch) js) ?u = Ret () t"
      using Cons.prems(2) wakeup_slot_Ret by (auto simp: seqp_eq_Ret)
    then have "t = ?u\<lparr>procs := \<lambda>j. if j \<in> set js then awake (curproc ?u) ch j (procs ?u j) else procs ?u j\<rparr>"
      using Cons.IH [of ?u] Cons.prems(1) by simp
    moreover have "(\<lambda>j. if j \<in> set js then awake (curproc ?u) ch j (procs ?u j) else procs ?u j) =
        (\<lambda>j. if j \<in> set (i # js) then awake (curproc s) ch j (procs s j) else procs s j)"
      using Cons.prems(1) by (auto simp: fun_eq_iff)
    ultimately show ?case by simp
  qed simp
  from this [of "[0..<NPROC]" s] show ?thesis using assms by (simp add: wakeup_def woken_def awaken_def)
qed

text \<open>What \<open>kill\<close> does to the process it finds.\<close>

definition marked :: "proc \<Rightarrow> proc" where
  "marked p = p\<lparr>pkilled := 1, pstate := if pstate p = SLEEPING then RUNNABLE else pstate p\<rparr>"

lemma kill_loop_apply:
  "\<forall>i\<in>set is. LProc i \<notin> held s \<Longrightarrow> kill_loop n is s =
     (case find (\<lambda>i. pid (procs s i) = n) is of None \<Rightarrow> Ret (- 1) s
      | Some i \<Rightarrow> Ret 0 (s\<lparr>procs := (procs s)(i := marked (procs s i))\<rparr>))"
  by (induction "is") (auto simp: prog_simps marked_def)

lemma kill_loop_Ret:
  "kill_loop n is s = Ret v t \<Longrightarrow> t = s \<or> (\<exists>i\<in>set is. t = s\<lparr>procs := (procs s)(i := marked (procs s i))\<rparr>)"
proof (induction "is")
  case (Cons i js)
  then have free: "LProc i \<notin> held s" by (auto simp: seqp_eq_Ret lock_acquire_Ret)
  show ?case
  proof (cases "pid (procs s i) = n")
    case True
    then have "t = s\<lparr>procs := (procs s)(i := marked (procs s i))\<rparr>"
      using Cons.prems free by (auto simp: prog_simps marked_def split: if_splits)
    then show ?thesis by (intro disjI2 bexI [of _ i]) (simp_all add: fun_upd_def)
  next
    case False
    then have "kill_loop n js s = Ret v t" using Cons.prems free by (simp add: prog_simps)
    then show ?thesis using Cons.IH by auto
  qed
qed simp

lemma sched_Switch: "sched s = Switch t \<Longrightarrow> t = s" "seqp sched m s = Switch t \<Longrightarrow> t = s"
  by (auto simp: sched_def prog_simps split: option.splits if_splits)

lemma sleep_Switch:
  assumes "(sleep ch lk s :: ('z proc_state_scheme, 'a) outcome) = Switch t" "curproc s = Some i"
  shows "\<exists>h. t = s\<lparr>held := h, procs := (procs s)(i := (procs s i)\<lparr>pchan := ch, pstate := SLEEPING\<rparr>)\<rparr>"
proof -
  let ?u = "\<lambda>h. s\<lparr>held := h, procs := (procs s)(i := (procs s i)\<lparr>pchan := ch, pstate := SLEEPING\<rparr>)\<rparr>"
  have "(sched (?u (insert (LProc i) (held s) - {lk})) :: ('z proc_state_scheme, 'a) outcome) = Switch t"
    using assms unfolding sleep_def by (simp add: prog_simps lock_acquire_def lock_release_def split: if_splits)
  from sched_Switch(1) [OF this] show ?thesis by auto
qed

lemma yield_Switch:
  assumes "yield s = Switch t" "curproc s = Some i"
  shows "\<exists>h. t = s\<lparr>held := h, procs := (procs s)(i := (procs s i)\<lparr>pstate := RUNNABLE\<rparr>)\<rparr>"
proof -
  let ?u = "s\<lparr>held := insert (LProc i) (held s), procs := (procs s)(i := (procs s i)\<lparr>pstate := RUNNABLE\<rparr>)\<rparr>"
  have "seqp sched (block []) ?u = Switch t"
    using assms by (auto simp: yield_def prog_simps lock_acquire_def split: if_splits)
  from sched_Switch(2) [OF this] show ?thesis by auto
qed

section \<open>wait\<close>

text \<open>Reaping does not enter the scheduler.\<close>

definition no_switch :: "('s, 'a) prog \<Rightarrow> bool" where
  "no_switch m \<longleftrightarrow> (\<forall>s t. m s \<noteq> Switch t)"

lemma no_switch_rules:
  "no_switch m \<Longrightarrow> (\<And>a. no_switch (f a)) \<Longrightarrow> no_switch (bindp m f)"
  "no_switch p \<Longrightarrow> no_switch n \<Longrightarrow> no_switch (seqp p n)"
  "no_switch p \<Longrightarrow> no_switch (whenp b p)"
  "no_switch (ret a)" "no_switch (Ret a)" "no_switch (getp i g)" "no_switch (setp i h)" "no_switch (lock_acquire l)"
  "no_switch (lock_release l)" "konly k \<Longrightarrow> no_switch k"
  "(b \<Longrightarrow> no_switch p1) \<Longrightarrow> (\<not> b \<Longrightarrow> no_switch p2) \<Longrightarrow> no_switch (if b then p1 else p2)"
  by (auto simp: no_switch_def bindp_apply seqp_apply whenp_apply lock_acquire_def lock_release_def konly_def
      split: outcome.splits)

lemma no_switch_wait_scan: "no_switch (wait_scan i addr js b)"
proof -
  have "no_switch (freeproc j)" for j :: nat
    by (auto simp: freeproc_def intro!: no_switch_rules(1-9) no_switch_rules(10) [OF konly_kfree]
        no_switch_rules(10) [OF konly_proc_freepagetable])
  then have "no_switch (wait_reap i addr j)" for j
    by (auto simp: wait_reap_def intro!: no_switch_rules(1-9,11) no_switch_rules(10) [OF konly_copyout])
  then show ?thesis by (induction js arbitrary: b) (auto intro!: no_switch_rules(1-9,11))
qed

lemma wait_scan_apply:
  "\<forall>j\<in>set js. LProc j \<notin> held s \<Longrightarrow> wait_scan i addr js b s =
     (case find (\<lambda>j. parent (procs s j) = Some i \<and> pstate (procs s j) = ZOMBIE) js of
        Some j \<Rightarrow> bindp (wait_reap i addr j) (\<lambda>v. ret (Inl v)) (s\<lparr>held := insert (LProc j) (held s)\<rparr>)
      | None \<Rightarrow> Ret (Inr (b \<or> (\<exists>j\<in>set js. parent (procs s j) = Some i))) s)"
  by (induction js arbitrary: b) (auto simp: prog_simps split: option.splits)

section \<open>Runs of the table\<close>

definition active :: "'z proc_state_scheme \<Rightarrow> nat \<Rightarrow> bool" where
  "active s i \<longleftrightarrow> i < NPROC \<and> curproc s = Some i \<and> pstate (procs s i) = RUNNING"

text \<open>Process \<open>i\<close> sleeps in \<open>wait\<close>, and \<open>j\<close> is a child of it that has exited.\<close>

definition in_wait :: "'z proc_state_scheme \<Rightarrow> nat \<Rightarrow> bool" where
  "in_wait s i \<longleftrightarrow> pstate (procs s i) = SLEEPING \<and> pchan (procs s i) = ChProc i"

definition exited :: "'z proc_state_scheme \<Rightarrow> nat \<Rightarrow> nat \<Rightarrow> bool" where
  "exited s i j \<longleftrightarrow> parent (procs s j) = Some i \<and> pstate (procs s j) = ZOMBIE"

text \<open>
  \<open>userinit\<close> leaves the first process in slot 0 and the other slots free. Each other rule is one operation of whichever process runs it. Of the callers of \<open>sleep\<close> only \<open>wait\<close> sleeps on a process.
  \<open>other\<close> is everything that leaves slots, ids and exited children alone and puts nobody to sleep in \<open>wait\<close>, like \<open>fork\<close>
  after \<open>allocproc\<close>. The ids are 32 bits: \<open>nextpid\<close> has not wrapped.
\<close>

inductive ptable_run :: "proc_state \<Rightarrow> bool" where
  boot: "pid (procs s 0) = 1 \<Longrightarrow> pstate (procs s 0) \<in> {RUNNABLE, RUNNING} \<Longrightarrow> nextpid s = 2 \<Longrightarrow>
    \<forall>i<NPROC. i \<noteq> 0 \<longrightarrow> pid (procs s i) = 0 \<and> pstate (procs s i) = UNUSED \<Longrightarrow> ptable_run s"
| allocproc: "ptable_run s \<Longrightarrow> nextpid s \<noteq> - 1 \<Longrightarrow> allocproc s = Ret r t \<Longrightarrow> ptable_run t"
| wait: "ptable_run s \<Longrightarrow> active s i \<Longrightarrow> wait addr s \<in> {Ret v t, Switch t} \<Longrightarrow> ptable_run t"
| wait_resume: "ptable_run s \<Longrightarrow> active s i \<Longrightarrow> wait_resume addr s \<in> {Ret v t, Switch t} \<Longrightarrow> ptable_run t"
| kill: "ptable_run s \<Longrightarrow> kill n s = Ret v t \<Longrightarrow> ptable_run t"
| wakeup: "ptable_run s \<Longrightarrow> wakeup ch s = Ret () t \<Longrightarrow> ptable_run t"
| sleep: "ptable_run s \<Longrightarrow> active s i \<Longrightarrow> \<forall>k. ch \<noteq> ChProc k \<Longrightarrow> sleep ch lk s = (Switch t :: (_, unit) outcome) \<Longrightarrow> ptable_run t"
| yield: "ptable_run s \<Longrightarrow> active s i \<Longrightarrow> yield s = Switch t \<Longrightarrow> ptable_run t"
| exit: "ptable_run s \<Longrightarrow> active s i \<Longrightarrow> exit_tail n s = Switch t \<Longrightarrow> ptable_run t"
| scheduler: "ptable_run s \<Longrightarrow> scheduler_step i s = Ret b t \<Longrightarrow> ptable_run t"
| other: "ptable_run s \<Longrightarrow> nextpid t = nextpid s \<Longrightarrow>
    \<forall>i. pid (procs t i) = pid (procs s i) \<and> (pstate (procs t i) = UNUSED \<longleftrightarrow> pstate (procs s i) = UNUSED) \<and>
        (in_wait t i \<longrightarrow> in_wait s i) \<and> (\<forall>j. exited t i j \<longrightarrow> exited s i j) \<Longrightarrow> ptable_run t"

definition pids_ok :: "'z proc_state_scheme \<Rightarrow> bool" where
  "pids_ok s \<longleftrightarrow> nextpid s \<noteq> 0 \<and>
     (\<forall>i<NPROC. if pstate (procs s i) = UNUSED then pid (procs s i) = 0
                else pid (procs s i) \<noteq> 0 \<and> pid (procs s i) < nextpid s) \<and>
     (\<forall>i<NPROC. \<forall>j<NPROC. pstate (procs s i) \<noteq> UNUSED \<longrightarrow> pid (procs s i) = pid (procs s j) \<longrightarrow> i = j)"

definition family_ok :: "'z proc_state_scheme \<Rightarrow> bool" where
  "family_ok s \<longleftrightarrow> (\<forall>i<NPROC. \<forall>j<NPROC. exited s i j \<longrightarrow> \<not> in_wait s i)"

lemma next_grows:
  fixes n :: u32
  assumes "n \<noteq> - 1"
  shows "n < n + 1" "x < n \<Longrightarrow> x < n + 1" "n + 1 \<noteq> 0"
proof -
  have "unat (n + 1) = Suc (unat n)" using assms unatSuc [of n] by (metis add.commute add_eq_0_iff2)
  then show "n < n + 1" "x < n \<Longrightarrow> x < n + 1" "n + 1 \<noteq> 0" by (auto simp: word_less_nat_alt)
qed

lemma free_ok:
  assumes "pids_ok s" "procs t = (procs s)(j := freed (procs s j))"
    "nextpid t = nextpid s \<or> nextpid s \<noteq> - 1 \<and> nextpid t = nextpid s + 1"
  shows "pids_ok t"
  using assms next_grows(2,3) [of "nextpid s"] by (auto simp: pids_ok_def freed_def)

lemma alloc_ok:
  assumes ok: "pids_ok s" and n: "nextpid s \<noteq> - 1" and i: "pstate (procs s i) = UNUSED"
    and t: "nextpid t = nextpid s + 1" "procs t = (procs s)(i := q)" "pid q = nextpid s" "pstate q \<noteq> UNUSED"
  shows "pids_ok t"
  using ok t next_grows [OF n] unfolding pids_ok_def by (auto split: if_splits)

lemma ids_kept:
  "pids_ok s \<Longrightarrow> nextpid t = nextpid s \<Longrightarrow>
   \<forall>i. pid (procs t i) = pid (procs s i) \<and> (pstate (procs t i) = UNUSED \<longleftrightarrow> pstate (procs s i) = UNUSED) \<Longrightarrow> pids_ok t"
  by (simp add: pids_ok_def)

lemma family_kept:
  "family_ok s \<Longrightarrow> \<forall>i. (in_wait t i \<longrightarrow> in_wait s i) \<and> (\<forall>j. exited t i j \<longrightarrow> exited s i j) \<Longrightarrow> family_ok t"
  unfolding family_ok_def by blast

definition table_ok :: "'z proc_state_scheme \<Rightarrow> bool" where
  "table_ok s \<longleftrightarrow> pids_ok s \<and> family_ok s"

lemma table_kept:
  assumes "table_ok s" "nextpid t = nextpid s"
    "\<And>i. pid (procs t i) = pid (procs s i)" "\<And>i. pstate (procs t i) = UNUSED \<longleftrightarrow> pstate (procs s i) = UNUSED"
    "\<And>i. in_wait t i \<Longrightarrow> in_wait s i" "\<And>i j. exited t i j \<Longrightarrow> exited s i j"
  shows "table_ok t"
  using assms ids_kept [of s t] family_kept [of s t] by (simp add: table_ok_def)

lemma woken_table:
  "nextpid (woken ch s) = nextpid s" "pid (procs (woken ch s) i) = pid (procs s i)"
  "pstate (procs (woken ch s) i) = UNUSED \<longleftrightarrow> pstate (procs s i) = UNUSED"
  "in_wait (woken ch s) i \<Longrightarrow> in_wait s i" "exited (woken ch s) i j \<longleftrightarrow> exited s i j"
  by (auto simp: woken_def awaken_def awake_def in_wait_def exited_def split: if_splits)

lemma table_woken: "table_ok s \<Longrightarrow> table_ok (woken ch s)"
  by (erule table_kept) (simp_all add: woken_table)

lemma table_marked: "table_ok s \<Longrightarrow> table_ok (s\<lparr>procs := (procs s)(i := marked (procs s i))\<rparr>)"
  by (erule table_kept) (auto simp: marked_def in_wait_def exited_def split: if_splits)

lemma table_freed:
  assumes "table_ok s" "procs t = (procs s)(j := freed (procs s j))"
    "nextpid t = nextpid s \<or> nextpid s \<noteq> - 1 \<and> nextpid t = nextpid s + 1"
  shows "table_ok t"
  using free_ok [of s t j] assms unfolding table_ok_def
  by (auto simp: family_ok_def in_wait_def exited_def freed_def split: if_splits)

lemma table_asleep:
  assumes ok: "table_ok s" and i: "active s i" and w: "ch = ChProc i \<Longrightarrow> \<forall>j<NPROC. \<not> exited s i j"
    and t: "t = s\<lparr>held := h, procs := (procs s)(i := (procs s i)\<lparr>pchan := ch, pstate := SLEEPING\<rparr>)\<rparr>"
  shows "table_ok t"
proof -
  have "pids_ok t" using ok i by (intro ids_kept [of s t]) (simp_all add: t table_ok_def active_def)
  moreover have "exited t k j \<Longrightarrow> exited s k j" for k j by (auto simp: t exited_def split: if_splits)
  moreover have "in_wait t k \<Longrightarrow> in_wait s k \<or> k = i \<and> ch = ChProc i" for k by (auto simp: t in_wait_def split: if_splits)
  ultimately show ?thesis using ok w unfolding table_ok_def family_ok_def by blast
qed

lemma table_frame: "table_ok s \<Longrightarrow> procs t = procs s \<Longrightarrow> nextpid t = nextpid s \<Longrightarrow> table_ok t"
  by (erule table_kept) (simp_all add: in_wait_def exited_def)

lemma table_allocproc:
  assumes ok: "table_ok s" and n: "nextpid s \<noteq> - 1" and run: "allocproc s = Ret r t"
  shows "table_ok t"
  using allocproc_Ret [OF run]
proof (elim disjE exE conjE)
  fix i
  assume "slot_state s t ((procs s)(i := freed (procs s i))) (held s)"
  then show ?thesis using ok n by (intro table_freed [of s t i]) (simp_all add: slot_state_def)
next
  fix i tf pt fr
  assume i: "pstate (procs s i) = UNUSED"
    and t: "slot_state s t ((procs s)(i := filled (nextpid s) tf pt fr (procs s i))) (insert (LProc i) (held s))"
  have "pids_ok t" using ok n i t
    by (intro alloc_ok [of s i t "filled (nextpid s) tf pt fr (procs s i)"]) (simp_all add: slot_state_def table_ok_def filled_def)
  moreover have "family_ok t" using ok t unfolding table_ok_def
    by (intro family_kept [of s t]) (auto simp: slot_state_def in_wait_def exited_def filled_def split: if_splits)
  ultimately show ?thesis by (simp add: table_ok_def)
qed (use ok in simp)

lemma table_wait_loop:
  assumes ok: "table_ok s" and i: "active s i" and run: "wait_loop i addr s \<in> {Ret v t, Switch t}"
  shows "table_ok t"
proof (cases "wait_scan i addr [0..<NPROC] False s")
  case (Ret r u)
  show ?thesis
  proof (cases r)
    case (Inl w)
    then have "t = u" using run Ret by (simp add: wait_loop_def bindp_apply)
    then show ?thesis using wait_scan_Ret [OF Ret] Inl ok
      by (auto simp: table_def intro: table_frame [of s] table_freed [of s])
  next
    case (Inr b)
    then have u: "u = s" "\<forall>j<NPROC. \<not> exited s i j" using wait_scan_Ret [OF Ret] by (auto simp: exited_def)
    let ?k = "bindp (if b then killed i else ret 0) (\<lambda>k.
         if \<not> b \<or> k \<noteq> 0 then seqp (lock_release LWait) (ret (- 1)) else sleep (ChProc i) LWait)"
    have k: "?k s \<in> {Ret v t, Switch t}" using run Ret Inr u by (simp add: wait_loop_def bindp_apply)
    have "killed i s = Ret (pkilled (procs s i)) s \<or> killed i s = Panic ''acquire''"
      by (cases "LProc i \<in> held s") (simp_all add: killed_apply, simp add: killed_def seqp_apply lock_acquire_def)
    then have "t = s\<lparr>held := held s - {LWait}\<rparr> \<or> (sleep (ChProc i) LWait s :: (_, int) outcome) = Switch t"
      using k by (auto simp: bindp_apply seqp_apply lock_release_def sleep_no_Ret split: if_splits)
    then show ?thesis
    proof
      assume "(sleep (ChProc i) LWait s :: (_, int) outcome) = Switch t"
      then show ?thesis using sleep_Switch [of "ChProc i" LWait s t i] table_asleep [OF ok i] u(2) i
        by (auto simp: active_def)
    qed (auto intro: table_frame [OF ok])
  qed
qed (use run no_switch_wait_scan [of i addr "[0..<NPROC]" False] in \<open>auto simp: wait_loop_def bindp_apply no_switch_def\<close>)

lemma table_wait:
  assumes ok: "table_ok s" and i: "active s i" and run: "wait addr s \<in> {Ret v t, Switch t}"
  shows "table_ok t"
proof -
  let ?u = "s\<lparr>held := insert LWait (held s)\<rparr>"
  have "table_ok ?u" "active ?u i" using ok i by (auto intro: table_frame [of s] simp: active_def)
  moreover have "wait_loop i addr ?u \<in> {Ret v t, Switch t}"
    using run i by (auto simp: wait_def active_def with_proc_apply seqp_apply lock_acquire_def split: if_splits)
  ultimately show ?thesis by (rule table_wait_loop)
qed

lemma table_wait_resume:
  assumes ok: "table_ok s" and i: "active s i" and run: "wait_resume addr s \<in> {Ret v t, Switch t}"
  shows "table_ok t"
proof -
  let ?u = "s\<lparr>procs := (procs s)(i := (procs s i)\<lparr>pchan := NoChan\<rparr>), held := insert LWait (held s - {LProc i})\<rparr>"
  have "table_ok ?u" using ok by (rule table_kept) (auto simp: in_wait_def exited_def split: if_splits)
  moreover have "active ?u i" using i by (simp add: active_def)
  moreover have "wait_loop i addr ?u \<in> {Ret v t, Switch t}"
    using run i by (auto simp: wait_resume_def sleep_resume_def active_def prog_simps lock_acquire_def lock_release_def
        split: if_splits)
  ultimately show ?thesis by (rule table_wait_loop)
qed

text \<open>\<open>exit\<close>: the exiting process gives its children to \<open>init\<close> and wakes it, wakes its own parent, and becomes a zombie.\<close>

definition exit_ok :: "nat \<Rightarrow> 'z proc_state_scheme \<Rightarrow> bool" where
  "exit_ok i s \<longleftrightarrow> table_ok s \<and> active s i"

lemma exit_ok_woken: "exit_ok i s \<Longrightarrow> exit_ok i (woken ch s)"
  by (simp add: exit_ok_def table_woken active_def woken_self)

lemma woken_in_wait: "active s i \<Longrightarrow> k < NPROC \<Longrightarrow> \<not> in_wait (woken (ChProc k) s) k"
  by (auto simp: active_def in_wait_def woken_def awaken_def awake_def)

lemma reparent_one:
  assumes ok: "exit_ok i s" and "j < NPROC"
    and run: "wakeup (case ip of None \<Rightarrow> NoChan | Some k \<Rightarrow> ChProc k)
      (s\<lparr>procs := (procs s)(j := (procs s j)\<lparr>parent := ip\<rparr>)\<rparr>) = Ret () t"
  shows "exit_ok i t"
proof -
  let ?ch = "case ip of None \<Rightarrow> NoChan | Some k \<Rightarrow> ChProc k" and ?u = "s\<lparr>procs := (procs s)(j := (procs s j)\<lparr>parent := ip\<rparr>)\<rparr>"
  have t: "t = woken ?ch ?u" using wakeup_Ret [OF run] .
  have a: "active ?u i" using ok by (auto simp: exit_ok_def active_def)
  have "pids_ok s" using ok by (simp add: exit_ok_def table_ok_def)
  then have p: "pids_ok t" by (rule ids_kept) (simp_all add: t woken_table)
  have "in_wait ?u k \<Longrightarrow> in_wait s k" for k by (simp add: in_wait_def split: if_splits)
  then have "in_wait t k \<Longrightarrow> in_wait s k" for k by (simp add: t woken_table)
  moreover have "exited ?u k l \<Longrightarrow> exited s k l \<or> l = j \<and> ip = Some k" for k l
    by (simp add: exited_def split: if_splits)
  then have "exited t k l \<Longrightarrow> exited s k l \<or> l = j \<and> ip = Some k" for k l by (simp add: t woken_table)
  moreover have "ip = Some k \<Longrightarrow> k < NPROC \<Longrightarrow> \<not> in_wait t k" for k using woken_in_wait [OF a] by (simp add: t)
  ultimately have "family_ok t" using ok unfolding exit_ok_def table_ok_def family_ok_def by blast
  moreover have "active t i" using a by (simp add: t active_def woken_self)
  ultimately show ?thesis using p by (simp add: exit_ok_def table_ok_def)
qed

lemma block_map_keeps:
  "block (map f js) s = Ret () t \<Longrightarrow> Q s \<Longrightarrow> (\<And>j s t. j \<in> set js \<Longrightarrow> f j s = Ret () t \<Longrightarrow> Q s \<Longrightarrow> Q t) \<Longrightarrow> Q t"
proof (induction js arbitrary: s)
  case (Cons j js)
  then obtain u where "f j s = Ret () u" "block (map f js) u = Ret () t" by (auto simp: seqp_eq_Ret)
  then show ?case using Cons by (metis list.set_intros)
qed simp

lemma reparent_ok:
  assumes "reparent i s = Ret () t" "exit_ok i s"
  shows "exit_ok i t"
  using assms unfolding reparent_def
proof (rule block_map_keeps)
  fix j u v
  assume j: "j \<in> set [0..<NPROC]" and ok: "exit_ok i u"
    and "bindp (getp j parent) (\<lambda>pp. whenp (pp = Some i) (bindp (gets initproc) (\<lambda>ip.
    seqp (setp j (\<lambda>p. p\<lparr>parent := ip\<rparr>)) (wakeup (case ip of None \<Rightarrow> NoChan | Some k \<Rightarrow> ChProc k))))) u = Ret () v"
  then have "v = u \<or> wakeup (case initproc u of None \<Rightarrow> NoChan | Some k \<Rightarrow> ChProc k)
      (u\<lparr>procs := (procs u)(j := (procs u j)\<lparr>parent := initproc u\<rparr>)\<rparr>) = Ret () v"
    by (simp add: run_eq_Ret split: if_splits)
  then show "exit_ok i v" using reparent_one [OF ok] j ok by auto
qed

lemma block_Switch:
  "no_switch c \<Longrightarrow> block (c # cs) s = Switch t \<longleftrightarrow> (\<exists>u. c s = Ret () u \<and> block cs u = Switch t)"
  by (auto simp: no_switch_def seqp_apply split: outcome.splits)

lemma no_switch_wakeup: "no_switch (wakeup ch)" "no_switch (reparent i)"
proof -
  have blk: "(\<And>c. c \<in> set cs \<Longrightarrow> no_switch c) \<Longrightarrow> no_switch (block cs)" for cs :: "('z proc_state_scheme, unit) prog list"
    by (induction cs) (auto intro: no_switch_rules)
  have my: "no_switch myproc" "no_switch (gets g)" for g :: "'z proc_state_scheme \<Rightarrow> nat option"
    by (simp_all add: no_switch_def)
  show w: "no_switch (wakeup ch)" for ch
    by (auto simp: wakeup_def wakeup_slot_def intro!: blk no_switch_rules(1-9) my)
  show "no_switch (reparent i)"
    by (auto simp: reparent_def intro!: blk no_switch_rules(1-9) my w)
qed

lemma table_zombie:
  assumes ok: "exit_ok i s" and w: "\<forall>k<NPROC. parent (procs s i) = Some k \<longrightarrow> \<not> in_wait s k"
    and t: "procs t = (procs s)(i := (procs s i)\<lparr>xstate := n, pstate := ZOMBIE\<rparr>)" "nextpid t = nextpid s"
  shows "table_ok t"
proof -
  have s: "pids_ok s" "family_ok s" "pstate (procs s i) = RUNNING" using ok by (simp_all add: exit_ok_def table_ok_def active_def)
  have "pids_ok t" using s(1) by (rule ids_kept) (simp_all add: t s(3))
  moreover have "in_wait t k \<Longrightarrow> in_wait s k" for k by (simp add: in_wait_def t(1) split: if_splits)
  moreover have "exited t k j \<Longrightarrow> exited s k j \<or> parent (procs s i) = Some k" for k j
    by (auto simp: exited_def t(1) split: if_splits)
  ultimately show ?thesis using s(2) w unfolding table_ok_def family_ok_def by blast
qed

lemma table_exit:
  assumes ok: "table_ok s" and i: "active s i" and run: "exit_tail n s = Switch t"
  shows "table_ok t"
proof -
  let ?ch = "\<lambda>pp. case pp of None \<Rightarrow> NoChan | Some k \<Rightarrow> ChProc k"
  obtain a b where a: "reparent i (s\<lparr>held := insert LWait (held s)\<rparr>) = Ret () a"
      and b: "wakeup (?ch (parent (procs a i))) a = Ret () b"
      and tail: "block ([lock_acquire (LProc i), setp i (\<lambda>p. p\<lparr>xstate := n\<rparr>), setp i (\<lambda>p. p\<lparr>pstate := ZOMBIE\<rparr>),
         lock_release LWait, sched, panic ''zombie exit'']) b = Switch t"
    using run i by (auto simp: exit_tail_def with_proc_apply active_def block_Switch no_switch_rules no_switch_wakeup
        lock_acquire_Ret bindp_eq_Ret simp del: block.simps)
  have "exit_ok i (s\<lparr>held := insert LWait (held s)\<rparr>)"
    using ok i table_frame [of s "s\<lparr>held := insert LWait (held s)\<rparr>"] by (simp add: exit_ok_def active_def)
  from reparent_ok [OF a this] have oka: "exit_ok i a" .
  have bw: "b = woken (?ch (parent (procs a i))) a" using wakeup_Ret [OF b] .
  have okb: "exit_ok i b" unfolding bw by (rule exit_ok_woken [OF oka])
  have "procs b i = procs a i" using oka by (simp add: bw woken_self exit_ok_def active_def)
  then have w: "\<forall>k<NPROC. parent (procs b i) = Some k \<longrightarrow> \<not> in_wait b k"
    using oka woken_in_wait [of a i] by (auto simp: bw exit_ok_def)
  let ?u = "b\<lparr>procs := (procs b)(i := (procs b i)\<lparr>xstate := n, pstate := ZOMBIE\<rparr>), held := insert (LProc i) (held b) - {LWait}\<rparr>"
  have "seqp sched (block [panic ''zombie exit'']) ?u = Switch t"
    using tail by (auto simp: seqp_apply lock_acquire_def lock_release_def split: if_splits)
  then have "t = ?u" by (rule sched_Switch(2))
  then show ?thesis by (intro table_zombie [OF okb w, where t = t and n = n]) simp_all
qed

lemma table_scheduler:
  assumes "table_ok s" "scheduler_step i s = Ret b t"
  shows "table_ok t"
  using assms by (intro table_kept [of s t])
    (auto simp: scheduler_step_def run_eq_Ret lock_acquire_Ret lock_release_Ret in_wait_def exited_def split: if_splits)

lemma ptable_run_ok: "ptable_run s \<Longrightarrow> table_ok s"
proof (induction rule: ptable_run.induct)
  case (boot s)
  then have z: "\<not> exited s i j" if "j < NPROC" for i j using that by (cases "j = 0") (auto simp: exited_def)
  have "(pstate (procs s i) = UNUSED) = (i \<noteq> 0) \<and> pid (procs s i) = (if i = 0 then 1 else 0)" if "i < NPROC" for i
    using boot that by auto
  then have "pids_ok s" using boot(3) by (simp add: pids_ok_def)
  then show ?case using z by (simp add: table_ok_def family_ok_def)
next
  case (allocproc s r t)
  then show ?case by (auto intro: table_allocproc)
next
  case (wait s i addr v t)
  then show ?case by (metis table_wait)
next
  case (wait_resume s i addr v t)
  then show ?case by (metis table_wait_resume)
next
  case (exit s i n t)
  then show ?case by (auto intro: table_exit)
next
  case (scheduler s i b t)
  then show ?case by (auto intro: table_scheduler)
next
  case (kill s n v t)
  then show ?case using kill_loop_Ret [of n "[0..<NPROC]" s v t] table_marked [of s] by (auto simp: kill_def)
next
  case (wakeup s ch t)
  then show ?case using wakeup_Ret table_woken by metis
next
  case (sleep s i ch lk t)
  then show ?case using sleep_Switch [OF sleep(4)] table_asleep [of s i ch t] by (auto simp: active_def)
next
  case (yield s i t)
  then obtain h where "t = s\<lparr>held := h, procs := (procs s)(i := (procs s i)\<lparr>pstate := RUNNABLE\<rparr>)\<rparr>"
    using yield_Switch [of s t i] by (auto simp: active_def)
  then show ?case using yield
    by (intro table_kept [of s t]) (auto simp: in_wait_def exited_def active_def split: if_splits)
next
  case (other s t)
  then show ?case using table_kept [of s t] by simp
qed


section \<open>Results\<close>

lemma find_unused_apply:
  "\<forall>i\<in>set is. LProc i \<notin> held s \<Longrightarrow> find_unused is s =
     (case find (\<lambda>i. pstate (procs s i) = UNUSED) is of None \<Rightarrow> Ret None s
      | Some i \<Rightarrow> Ret (Some i) (s\<lparr>held := insert (LProc i) (held s)\<rparr>))"
  by (induction "is") (auto simp: prog_simps)

text \<open>C7: in every state that the operations reach, no two processes have the same id, and no process sleeps in
  \<open>wait\<close> while one of its children has exited.\<close>

theorem ptable_invariant:
  assumes "ptable_run s" "i < NPROC" "j < NPROC"
  shows "(pstate (procs s i) \<noteq> UNUSED \<and> pid (procs s i) = pid (procs s j) \<longrightarrow> i = j) \<and>
    (parent (procs s j) = Some i \<and> pstate (procs s j) = ZOMBIE \<longrightarrow>
       \<not> (pstate (procs s i) = SLEEPING \<and> pchan (procs s i) = ChProc i))"
proof -
  have "pids_ok s" "family_ok s" using ptable_run_ok [OF assms(1)] by (simp_all add: table_ok_def)
  then show ?thesis using assms(2,3) unfolding pids_ok_def family_ok_def exited_def in_wait_def by blast
qed

lemma proc_example_run: "ptable_run proc_example"
  by (rule ptable_run.boot) (simp_all add: proc_example_defs)

lemma ptable_invariant_witness: "pid (procs proc_example 0) \<noteq> pid (procs proc_example 1)"
  using ptable_invariant [OF proc_example_run, of 0 1] by (simp add: NPROC_def proc_example_defs)

lemma find_only:
  assumes "i < n" "P i" "\<forall>j<n. P j \<longrightarrow> j = i"
  shows "find P [0..<n] = Some i"
proof -
  have "\<not> P ([0..<n] ! j)" if "j < i" for j
    using assms that by (metis add_0 less_trans nat_neq_iff nth_upt)
  then show ?thesis using assms(1,2) unfolding find_Some_iff by (intro exI [of _ i]) simp
qed

text \<open>C35: \<open>kill\<close> marks exactly the process that has the id, wakes it if it sleeps, and touches nothing else.\<close>

theorem kill_exact:
  assumes run: "ptable_run s" and i: "i < NPROC" "pstate (procs s i) \<noteq> UNUSED" and h: "held s \<inter> range LProc = {}"
  shows "kill (pid (procs s i)) s = Ret 0 (s\<lparr>procs := (procs s)(i := (procs s i)\<lparr>pkilled := 1,
      pstate := if pstate (procs s i) = SLEEPING then RUNNABLE else pstate (procs s i)\<rparr>)\<rparr>)"
proof -
  have "pids_ok s" using ptable_run_ok [OF run] by (simp add: table_ok_def)
  then have "find (\<lambda>j. pid (procs s j) = pid (procs s i)) [0..<NPROC] = Some i"
    using i unfolding pids_ok_def by (intro find_only) (simp, simp, metis)
  then show ?thesis using h by (subst kill_def, subst kill_loop_apply) (auto simp: marked_def)
qed

lemma kill_exact_witness:
  "\<exists>t. kill 1 proc_example = Ret 0 t \<and> pkilled (procs t 0) = 1"
  using kill_exact [OF proc_example_run, of 0] by (simp add: NPROC_def proc_example_defs)


text \<open>Process 0 has a child in slot 1 that has exited.\<close>

definition zombie_example :: proc_state where
  "zombie_example = proc_example\<lparr>procs := (procs proc_example)(1 := proc0\<lparr>pstate := ZOMBIE, parent := Some 0, pid := 2\<rparr>)\<rparr>"


text \<open>C36: \<open>kill(0)\<close> finds a free slot, since those have the id 0. It reports success, and the next process that gets the slot
  starts out killed.\<close>

theorem kill_zero:
  assumes run: "ptable_run s" and h: "held s = {}" and i: "find (\<lambda>i. pstate (procs s i) = UNUSED) [0..<NPROC] = Some i"
  shows "\<exists>t. kill 0 s = Ret 0 t \<and> pstate (procs t i) = UNUSED \<and>
    (\<forall>j u. allocproc t = Ret (Some j) u \<longrightarrow> j = i \<and> pkilled (procs u j) = 1)"
proof -
  let ?t = "s\<lparr>procs := (procs s)(i := marked (procs s i))\<rparr>"
  have "pids_ok s" using ptable_run_ok [OF run] by (simp add: table_ok_def)
  then have "pid (procs s k) = 0 \<longleftrightarrow> pstate (procs s k) = UNUSED" if "k < NPROC" for k
    using that unfolding pids_ok_def by metis
  then have "find (\<lambda>k. pid (procs s k) = 0) [0..<NPROC] = Some i" by (intro trans [OF find_cong i]) simp_all
  then have k: "kill 0 s = Ret 0 ?t" using h by (simp add: kill_def kill_loop_apply)
  have u: "pstate (procs s i) = UNUSED" using i by (auto simp: find_Some_iff)
  have "find (\<lambda>k. pstate (procs ?t k) = UNUSED) [0..<NPROC] = Some i"
    using i u by (auto simp: marked_def intro!: trans [OF find_cong i])
  then have f: "find_unused [0..<NPROC] ?t = Ret (Some i) (?t\<lparr>held := insert (LProc i) (held ?t)\<rparr>)"
    using h by (simp add: find_unused_apply)
  have "j = i \<and> pkilled (procs v j) = 1" if "allocproc ?t = Ret (Some j) v" for j v
  proof -
    have "alloc_found i (?t\<lparr>held := insert (LProc i) (held ?t)\<rparr>) = Ret (Some j) v"
      using that f by (simp add: allocproc_def bindp_apply)
    from alloc_found_Ret [OF this refl] h show ?thesis by (auto simp: slot_state_def filled_def marked_def)
  qed
  then show ?thesis using k u by (auto simp: marked_def)
qed

lemma kill_zero_witness: "\<exists>t. kill 0 proc_example = Ret 0 t \<and> pstate (procs t 1) = UNUSED"
proof -
  have "[0..<NPROC] = 0 # 1 # [2..<NPROC]" by (simp add: NPROC_def upt_conv_Cons)
  then have "find (\<lambda>i. pstate (procs proc_example i) = UNUSED) [0..<NPROC] = Some 1"
    by (simp add: proc_example_defs)
  from kill_zero [OF proc_example_run _ this] show ?thesis by (auto simp: proc_example_defs)
qed

end
