(* ===== verification/Sleeping.thy ===== *)
theory Sleeping
  imports Sleeplock
begin

text \<open>
  The protocol of a sleep lock among all processes: \<open>sleeplock.c\<close> on top of \<open>sleep\<close> and \<open>wakeup\<close> of \<open>proc.c\<close>.
  Operations of different processes follow each other in any order; a process that finds the lock taken is
  switched out and runs the code after \<open>sleep\<close> when the scheduler has chosen it again.
\<close>

section \<open>Runs\<close>

definition waiting :: "sleeplockid \<Rightarrow> 'z sl_state_scheme \<Rightarrow> nat \<Rightarrow> bool" where
  "waiting l s i \<longleftrightarrow> pstate (procs s i) = SLEEPING \<and> pchan (procs s i) = ChSleep l"

text \<open>Process \<open>i\<close> on a hart with the spinlocks \<open>h\<close>.\<close>

definition on_hart :: "nat \<Rightarrow> lockid set \<Rightarrow> 'z sl_state_scheme \<Rightarrow> 'z sl_state_scheme" where
  "on_hart i h s = s\<lparr>curproc := Some i, held := h\<rparr>"

definition runs :: "nat \<Rightarrow> 'z sl_state_scheme \<Rightarrow> bool" where
  "runs i s \<longleftrightarrow> i < NPROC \<and> pstate (procs s i) = RUNNING"

text \<open>The set has the processes that got the lock and have not released it.\<close>

inductive sl_run :: "sleeplockid \<Rightarrow> sl_state \<Rightarrow> nat set \<Rightarrow> bool" for l where
  init: "initsleeplock l s = Ret () t \<Longrightarrow> \<forall>i<NPROC. \<not> waiting l t i \<Longrightarrow> sl_run l t {}"
| acquire: "sl_run l s H \<Longrightarrow> runs i s \<Longrightarrow> acquiresleep l (on_hart i {} s) = Ret () t \<Longrightarrow> sl_run l t (insert i H)"
| acquire_sleep: "sl_run l s H \<Longrightarrow> runs i s \<Longrightarrow> acquiresleep l (on_hart i {} s) = Switch t \<Longrightarrow> sl_run l t H"
| resume: "sl_run l s H \<Longrightarrow> runs i s \<Longrightarrow> acquiresleep_resume l (on_hart i {LProc i} s) = Ret () t \<Longrightarrow>
    sl_run l t (insert i H)"
| resume_sleep: "sl_run l s H \<Longrightarrow> runs i s \<Longrightarrow> acquiresleep_resume l (on_hart i {LProc i} s) = Switch t \<Longrightarrow> sl_run l t H"
| release: "sl_run l s H \<Longrightarrow> runs i s \<Longrightarrow> i \<in> H \<Longrightarrow> releasesleep l (on_hart i {} s) = Ret () t \<Longrightarrow> sl_run l t (H - {i})"
| other: "sl_run l s H \<Longrightarrow> slocks t l = slocks s l \<Longrightarrow> \<forall>i. waiting l t i \<longrightarrow> waiting l s i \<Longrightarrow>
    \<forall>i\<in>H. pid (procs t i) = pid (procs s i) \<Longrightarrow> sl_run l t H"

section \<open>The invariant\<close>

definition sl_inv :: "sleeplockid \<Rightarrow> 'z sl_state_scheme \<Rightarrow> nat set \<Rightarrow> bool" where
  "sl_inv l s H \<longleftrightarrow>
     (if slocked (slocks s l) = 0 then H = {} \<and> (\<forall>i<NPROC. \<not> waiting l s i)
      else \<exists>i. H = {i} \<and> slpid (slocks s l) = pid (procs s i))"

lemma acquire_taken:
  assumes "slocked (slocks s l) \<noteq> 0"
  shows "acquiresleep l (on_hart i {} s) = Switch (asleep i (ChSleep l) (on_hart i {LSleep l} s))"
    "acquiresleep_resume l (on_hart i {LProc i} s) = Switch (asleep i (ChSleep l)
       (on_hart i {LSleep l} (s\<lparr>procs := (procs s)(i := (procs s i)\<lparr>pchan := NoChan\<rparr>)\<rparr>)))"
  using assms by (simp_all add: acquiresleep_def acquiresleep_resume_def acquiresleep_loop_def on_hart_def prog_simps
      sleep_asleep sleep_resume_apply asleep_def)

lemma acquire_free:
  assumes "slocked (slocks s l) = 0"
  shows "acquiresleep l (on_hart i {} s) =
      Ret () (on_hart i {} (s\<lparr>slocks := (slocks s)(l := \<lparr>slocked = 1, slpid = pid (procs s i)\<rparr>)\<rparr>))"
    "acquiresleep_resume l (on_hart i {LProc i} s) =
      Ret () (on_hart i {} (s\<lparr>slocks := (slocks s)(l := \<lparr>slocked = 1, slpid = pid (procs s i)\<rparr>),
        procs := (procs s)(i := (procs s i)\<lparr>pchan := NoChan\<rparr>)\<rparr>))"
  using assms by (simp_all add: acquiresleep_def acquiresleep_resume_def acquiresleep_loop_def on_hart_def prog_simps
      sleep_resume_apply)

lemma release_inv:
  assumes "runs i s" "releasesleep l (on_hart i {} s) = Ret () t"
  shows "sl_inv l t {}"
proof -
  have "t = woken (ChSleep l) ((on_hart i {} s)\<lparr>slocks := (slocks s)(l := \<lparr>slocked = 0, slpid = 0\<rparr>)\<rparr>)"
    using assms(2) by (simp add: releasesleep_apply on_hart_def)
  then show ?thesis using assms(1)
    by (auto simp: sl_inv_def woken_def awaken_def awake_def on_hart_def waiting_def runs_def)
qed

lemma acquire_inv:
  assumes inv: "sl_inv l s H" and "acquiresleep l (on_hart i {} s) = Ret () t \<or>
      acquiresleep_resume l (on_hart i {LProc i} s) = Ret () t"
  shows "sl_inv l t (insert i H)"
proof (cases "slocked (slocks s l) = 0")
  case True
  then have "slocked (slocks t l) = 1 \<and> slpid (slocks t l) = pid (procs t i)"
    using assms(2) unfolding acquire_free [OF True] by (auto simp: on_hart_def)
  then show ?thesis using inv True by (simp add: sl_inv_def)
next
  case False
  then show ?thesis using assms(2) by (simp add: acquire_taken)
qed

lemma block_inv:
  assumes inv: "sl_inv l s H" and "acquiresleep l (on_hart i {} s) = Switch t \<or>
      acquiresleep_resume l (on_hart i {LProc i} s) = Switch t"
  shows "sl_inv l t H"
proof (cases "slocked (slocks s l) = 0")
  case True
  then show ?thesis using assms(2) by (simp add: acquire_free)
next
  case False
  then have "slocks t l = slocks s l \<and> (\<forall>j. pid (procs t j) = pid (procs s j))"
    using assms(2) unfolding acquire_taken [OF False] by (auto simp: on_hart_def asleep_def)
  then show ?thesis using inv False by (simp add: sl_inv_def)
qed

lemma sl_run_inv: "sl_run l s H \<Longrightarrow> sl_inv l s H"
proof (induction rule: sl_run.induct)
  case (init s t)
  then show ?case by (auto simp: sl_inv_def initsleeplock_def run_eq_Ret lock_init_def)
next
  case (release s H i t)
  then have "H = {i}" by (auto simp: sl_inv_def split: if_splits)
  then show ?case using release_inv release by simp
next
  case (other s H t)
  then show ?case by (cases "slocked (slocks s l) = 0") (auto simp: sl_inv_def)
qed (auto intro: acquire_inv block_inv)

section \<open>Results\<close>

text \<open>C8: whatever the order of the operations, at most one process has a sleep lock, \<open>holdingsleep\<close> tells it that
  it has, and no process sleeps for a lock that is free (no wakeup is lost).\<close>

theorem sleeplock_protocol:
  assumes "sl_run l s H"
  shows "(\<forall>i j. i \<in> H \<longrightarrow> j \<in> H \<longrightarrow> i = j) \<and>
    (\<forall>i\<in>H. holdingsleep l (on_hart i {} s) = Ret True (on_hart i {} s)) \<and>
    (H = {} \<longrightarrow> (\<forall>i<NPROC. \<not> waiting l s i))"
proof -
  note inv = sl_run_inv [OF assms]
  have "(\<forall>i j. i \<in> H \<longrightarrow> j \<in> H \<longrightarrow> i = j) \<and> (H = {} \<longrightarrow> (\<forall>i<NPROC. \<not> waiting l s i))"
    using inv by (auto simp: sl_inv_def split: if_splits)
  moreover have "\<forall>i\<in>H. holdingsleep l (on_hart i {} s) = Ret True (on_hart i {} s)"
    using inv by (auto simp: sl_inv_def on_hart_def holdingsleep_apply split: if_splits)
  ultimately show ?thesis by blast
qed

text \<open>Process 0 takes the lock of buffer 0, process 1 finds it taken and sleeps, and process 0 releases it.\<close>

definition sl_two :: sl_state where
  "sl_two = sl_example\<lparr>procs := (procs sl_example)(1 := (procs sl_example 0)\<lparr>pid := 2\<rparr>)\<rparr>"

definition sl_taken :: sl_state where
  "sl_taken = on_hart 0 {} (sl_two\<lparr>slocks := (slocks sl_two)(SBuf 0 := \<lparr>slocked = 1, slpid = 1\<rparr>)\<rparr>)"

definition sl_blocked :: sl_state where
  "sl_blocked = asleep 1 (ChSleep (SBuf 0)) (on_hart 1 {LSleep (SBuf 0)} sl_taken)"

lemma sl_two_fields:
  "procs sl_two 0 = proc0\<lparr>pstate := RUNNING, pid := 1, psz := 4096, pagetable := KERNBASE\<rparr>"
  "procs sl_two (Suc 0) = proc0\<lparr>pstate := RUNNING, pid := 2, psz := 4096, pagetable := KERNBASE\<rparr>"
  "slocks sl_two = (\<lambda>_. \<lparr>slocked = 0, slpid = 0\<rparr>)" "held sl_two = {}" "\<not> waiting l sl_two i"
  by (simp_all add: sl_two_def sl_example_defs waiting_def)

lemma sl_blocked_run: "sl_run (SBuf 0) sl_blocked {0}"
proof -
  have "initsleeplock (SBuf 0) sl_two = Ret () sl_two"
    by (simp add: initsleeplock_def lock_init_def prog_simps sl_two_def sl_example_defs fun_upd_idem)
  then have "sl_run (SBuf 0) sl_two {}" by (rule sl_run.init) (simp add: sl_two_fields)
  moreover have "acquiresleep (SBuf 0) (on_hart 0 {} sl_two) = Ret () sl_taken"
    by (simp add: acquire_free sl_two_fields sl_taken_def proc0_def)
  ultimately have "sl_run (SBuf 0) sl_taken {0}"
    using sl_run.acquire [of "SBuf 0" sl_two "{}" 0] by (simp add: runs_def sl_two_fields NPROC_def proc0_def)
  then show ?thesis
  proof (rule sl_run.acquire_sleep)
    show "runs 1 sl_taken" by (simp add: runs_def sl_taken_def on_hart_def sl_two_fields NPROC_def proc0_def)
    show "acquiresleep (SBuf 0) (on_hart 1 {} sl_taken) = Switch sl_blocked"
      unfolding sl_blocked_def by (rule acquire_taken(1)) (simp add: sl_taken_def on_hart_def)
  qed
qed

lemma sleeplock_protocol_witness:
  "waiting (SBuf 0) sl_blocked 1 \<and> holdingsleep (SBuf 0) (on_hart 0 {} sl_blocked) = Ret True (on_hart 0 {} sl_blocked)"
  using sleeplock_protocol [OF sl_blocked_run] by (simp add: waiting_def sl_blocked_def asleep_def)

end
