(* ===== verification/Asm.thy ===== *)
theory Asm
  imports Vm
begin

text \<open>
  The assembly of the kernel: \<open>kernel/swtch.S\<close>, \<open>kernel/trampoline.S\<close>, \<open>kernel/kernelvec.S\<close> and
  \<open>kernel/entry.S\<close>, as lists of instructions over the registers, the control registers and the
  memory of a hart. \<open>xlat\<close> is what the address translation hardware makes of a virtual address
  under a value of \<open>satp\<close>. A list is run from its first to its last instruction, which is the
  jump that leaves the routine; \<open>pc\<close> is where it goes.
\<close>

section \<open>Instructions\<close>

datatype reg =
    RA | SP | GP | TP | T0 | T1 | T2 | S0 | S1 | A0 | A1 | A2 | A3 | A4 | A5 | A6 | A7
  | S2 | S3 | S4 | S5 | S6 | S7 | S8 | S9 | S10 | S11 | T3 | T4 | T5 | T6

datatype csr = Sscratch | Satp | Sepc | Sip | Mscratch | Mepc | Mhartid

datatype instr =
    Sd reg nat reg | Ld reg nat reg | Li reg u64 | Addi reg reg u64 | Add reg reg reg
  | Mul reg reg reg | Csrw csr reg | Csrr reg csr | Csrrw reg csr reg | SfenceVma
  | Jr reg | CallTo u64 u64 | ReturnRA | Sret | Mret

record hart =
  regs :: "reg \<Rightarrow> u64"
  csrs :: "csr \<Rightarrow> u64"
  hmem :: memory
  xlat :: "u64 \<Rightarrow> u64 \<Rightarrow> u64"
  pc :: u64

definition addr_at :: "hart \<Rightarrow> reg \<Rightarrow> nat \<Rightarrow> u64" where
  "addr_at h b off = xlat h (csrs h Satp) (regs h b + of_nat off)"

fun step :: "instr \<Rightarrow> hart \<Rightarrow> hart" where
  "step (Sd r off b) h = h\<lparr>hmem := store64 (hmem h) (addr_at h b off) (regs h r)\<rparr>"
| "step (Ld r off b) h = h\<lparr>regs := (regs h)(r := load64 (hmem h) (addr_at h b off))\<rparr>"
| "step (Li r v) h = h\<lparr>regs := (regs h)(r := v)\<rparr>"
| "step (Addi r a v) h = h\<lparr>regs := (regs h)(r := regs h a + v)\<rparr>"
| "step (Add r a b) h = h\<lparr>regs := (regs h)(r := regs h a + regs h b)\<rparr>"
| "step (Mul r a b) h = h\<lparr>regs := (regs h)(r := regs h a * regs h b)\<rparr>"
| "step (Csrw c r) h = h\<lparr>csrs := (csrs h)(c := regs h r)\<rparr>"
| "step (Csrr r c) h = h\<lparr>regs := (regs h)(r := csrs h c)\<rparr>"
| "step (Csrrw r c a) h = h\<lparr>regs := (regs h)(r := csrs h c), csrs := (csrs h)(c := regs h a)\<rparr>"
| "step SfenceVma h = h"
| "step (Jr r) h = h\<lparr>pc := regs h r\<rparr>"
| "step (CallTo a back) h = h\<lparr>regs := (regs h)(RA := back), pc := a\<rparr>"
| "step ReturnRA h = h\<lparr>pc := regs h RA\<rparr>"
| "step Sret h = h\<lparr>pc := csrs h Sepc\<rparr>"
| "step Mret h = h\<lparr>pc := csrs h Mepc\<rparr>"

definition run :: "instr list \<Rightarrow> hart \<Rightarrow> hart" where
  "run is h = fold step is h"

definition sds :: "reg \<Rightarrow> (reg \<times> nat) list \<Rightarrow> instr list" where
  "sds b xs = map (\<lambda>(r, off). Sd r off b) xs"

definition lds :: "reg \<Rightarrow> (reg \<times> nat) list \<Rightarrow> instr list" where
  "lds b xs = map (\<lambda>(r, off). Ld r off b) xs"

section \<open>The routines\<close>

definition context_regs :: "(reg \<times> nat) list" where
  "context_regs =
     [(RA, 0), (SP, 8), (S0, 16), (S1, 24), (S2, 32), (S3, 40), (S4, 48), (S5, 56), (S6, 64),
      (S7, 72), (S8, 80), (S9, 88), (S10, 96), (S11, 104)]"

definition swtch :: "instr list" where
  "swtch = sds A0 context_regs @ lds A1 context_regs @ [ReturnRA]"

definition trapframe_regs :: "(reg \<times> nat) list" where
  "trapframe_regs =
     [(RA, 40), (SP, 48), (GP, 56), (TP, 64), (T0, 72), (T1, 80), (T2, 88), (S0, 96), (S1, 104),
      (A1, 120), (A2, 128), (A3, 136), (A4, 144), (A5, 152), (A6, 160), (A7, 168), (S2, 176),
      (S3, 184), (S4, 192), (S5, 200), (S6, 208), (S7, 216), (S8, 224), (S9, 232), (S10, 240),
      (S11, 248), (T3, 256), (T4, 264), (T5, 272), (T6, 280)]"

definition uservec_code :: "instr list" where
  "uservec_code =
     [Csrw Sscratch A0, Li A0 TRAPFRAME] @
     sds A0 trapframe_regs @
     [Csrr T0 Sscratch, Sd T0 112 A0, Ld SP 8 A0, Ld TP 32 A0, Ld T0 16 A0, Ld T1 0 A0,
      SfenceVma, Csrw Satp T1, SfenceVma, Jr T0]"

definition userret_code :: "instr list" where
  "userret_code =
     [SfenceVma, Csrw Satp A0, SfenceVma, Li A0 TRAPFRAME] @
     lds A0 trapframe_regs @
     [Ld A0 112 A0, Sret]"

definition kernelvec_regs :: "(reg \<times> nat) list" where
  "kernelvec_regs =
     [(RA, 0), (SP, 8), (GP, 16), (TP, 24), (T0, 32), (T1, 40), (T2, 48), (S0, 56), (S1, 64),
      (A0, 72), (A1, 80), (A2, 88), (A3, 96), (A4, 104), (A5, 112), (A6, 120), (A7, 128),
      (S2, 136), (S3, 144), (S4, 152), (S5, 160), (S6, 168), (S7, 176), (S8, 184), (S9, 192),
      (S10, 200), (S11, 208), (T3, 216), (T4, 224), (T5, 232), (T6, 240)]"

text \<open>\<open>kernelvec\<close> up to the call of \<open>kerneltrap\<close>, and from its return on; \<open>tp\<close> is not restored.\<close>

definition kernelvec_enter :: "u64 \<Rightarrow> u64 \<Rightarrow> instr list" where
  "kernelvec_enter kerneltrap back = [Addi SP SP (- 256)] @ sds SP kernelvec_regs @ [CallTo kerneltrap back]"

definition kernelvec_leave :: "instr list" where
  "kernelvec_leave =
     lds SP (filter (\<lambda>(r, off). r \<noteq> TP) kernelvec_regs) @ [Addi SP SP 256, Sret]"

definition timervec_code :: "instr list" where
  "timervec_code =
     [Csrrw A0 Mscratch A0, Sd A1 0 A0, Sd A2 8 A0, Sd A3 16 A0,
      Ld A1 24 A0, Ld A2 32 A0, Ld A3 0 A1, Add A3 A3 A2, Sd A3 0 A1,
      Li A1 2, Csrw Sip A1,
      Ld A3 16 A0, Ld A2 8 A0, Ld A1 0 A0, Csrrw A0 Mscratch A0, Mret]"

definition entry_code :: "u64 \<Rightarrow> u64 \<Rightarrow> u64 \<Rightarrow> instr list" where
  "entry_code stack0 start back =
     [Li SP stack0, Li A0 (1024 * 4), Csrr A1 Mhartid, Addi A1 A1 1, Mul A0 A0 A1, Add SP SP A0,
      CallTo start back]"

section \<open>Saving and restoring registers\<close>

lemma run_Nil [simp]: "run [] h = h"
  by (simp add: run_def)

lemma run_Cons [simp]: "run (i # is) h = run is (step i h)"
  by (simp add: run_def)

lemma run_append [simp]: "run (is @ js) h = run js (run is h)"
  by (simp add: run_def)

lemma xlat_run [simp]: "xlat (run is h) = xlat h"
proof (induction "is" arbitrary: h)
  case (Cons i js)
  have "xlat (step i h) = xlat h" by (cases i) simp_all
  then show ?case using Cons by simp
qed simp

fun csr_written :: "instr \<Rightarrow> csr option" where
  "csr_written (Csrw c r) = Some c"
| "csr_written (Csrrw r c a) = Some c"
| "csr_written _ = None"

lemma csrs_run:
  "\<forall>i \<in> set is. csr_written i \<noteq> Some c \<Longrightarrow> csrs (run is h) c = csrs h c"
proof (induction "is" arbitrary: h)
  case (Cons i js)
  then have "csrs (step i h) c = csrs h c" by (cases i) auto
  then show ?case using Cons by simp
qed simp

text \<open>The slots of a save area: aligned, distinct, inside a page.\<close>

definition slots_ok :: "(reg \<times> nat) list \<Rightarrow> bool" where
  "slots_ok xs \<longleftrightarrow>
     distinct (map fst xs) \<and> distinct (map snd xs) \<and> list_all (\<lambda>(r, off). 8 dvd off \<and> off + 8 \<le> 4096) xs"

definition stored :: "u64 \<Rightarrow> (reg \<Rightarrow> u64) \<Rightarrow> (reg \<times> nat) list \<Rightarrow> memory \<Rightarrow> memory" where
  "stored p g xs m = fold (\<lambda>(r, off) m. store64 m (p + of_nat off) (g r)) xs m"

definition loaded :: "u64 \<Rightarrow> memory \<Rightarrow> (reg \<times> nat) list \<Rightarrow> (reg \<Rightarrow> u64) \<Rightarrow> reg \<Rightarrow> u64" where
  "loaded p m xs g = fold (\<lambda>(r, off) g. g(r := load64 m (p + of_nat off))) xs g"

lemma load_disjoint:
  assumes "8 dvd i" "8 dvd j" "i \<noteq> j" "i + 8 \<le> 4096" "j + 8 \<le> 4096"
  shows "load64 (store64 m (p + of_nat i) v) (p + of_nat j) = load64 m (p + of_nat j)"
proof (rule load64_store64_offset)
  show "i + 8 \<le> j \<or> j + 8 \<le> i" using assms(1-3) by (auto simp: dvd_def)
qed (use assms in auto)

lemma stored_other:
  assumes "slots_ok xs" "8 dvd j" "j + 8 \<le> 4096" "j \<notin> snd ` set xs"
  shows "load64 (stored p g xs m) (p + of_nat j) = load64 m (p + of_nat j)"
  using assms
proof (induction xs arbitrary: m)
  case Nil
  then show ?case by (simp add: stored_def)
next
  case (Cons x xs)
  obtain r i where x: "x = (r, i)" by force
  have "load64 (stored p g xs (store64 m (p + of_nat i) (g r))) (p + of_nat j) =
        load64 (store64 m (p + of_nat i) (g r)) (p + of_nat j)"
    using Cons by (auto simp: slots_ok_def)
  also have "\<dots> = load64 m (p + of_nat j)"
    using Cons.prems by (intro load_disjoint) (auto simp: slots_ok_def x)
  finally show ?case by (simp add: stored_def x)
qed

lemma stored_same:
  assumes "slots_ok xs" "(r, j) \<in> set xs"
  shows "load64 (stored p g xs m) (p + of_nat j) = g r"
  using assms
proof (induction xs arbitrary: m)
  case Nil
  then show ?case by simp
next
  case (Cons x xs)
  obtain q i where x: "x = (q, i)" by force
  show ?case
  proof (cases "(r, j) \<in> set xs")
    case True
    then show ?thesis using Cons by (simp add: stored_def x slots_ok_def)
  next
    case False
    then have "r = q" "i = j" using Cons.prems by (auto simp: x)
    moreover have "load64 (stored p g xs (store64 m (p + of_nat j) (g r))) (p + of_nat j) =
        load64 (store64 m (p + of_nat j) (g r)) (p + of_nat j)"
      using Cons.prems by (intro stored_other) (auto simp: slots_ok_def x \<open>i = j\<close>)
    ultimately show ?thesis by (simp add: stored_def x)
  qed
qed

lemma loaded_other: "r \<notin> fst ` set xs \<Longrightarrow> loaded p m xs g r = g r"
  by (induction xs arbitrary: g) (auto simp: loaded_def)

lemma loaded_same:
  assumes "slots_ok xs" "(r, j) \<in> set xs"
  shows "loaded p m xs g r = load64 m (p + of_nat j)"
  using assms
proof (induction xs arbitrary: g)
  case Nil
  then show ?case by simp
next
  case (Cons x xs)
  obtain q i where x: "x = (q, i)" by force
  show ?case
  proof (cases "(r, j) \<in> set xs")
    case True
    then show ?thesis using Cons by (simp add: loaded_def x slots_ok_def)
  next
    case False
    then have "r = q" "i = j" using Cons.prems by (auto simp: x)
    moreover have "r \<notin> fst ` set xs" using Cons.prems \<open>r = q\<close> by (auto simp: slots_ok_def x)
    then have "loaded p m xs (g(r := load64 m (p + of_nat j))) r = load64 m (p + of_nat j)"
      by (simp add: loaded_other)
    ultimately show ?thesis by (simp add: loaded_def x)
  qed
qed

text \<open>
  \<open>based h b p xs\<close>: the slots of \<open>xs\<close> relative to register \<open>b\<close> are at the physical address \<open>p\<close>.
\<close>

definition based :: "hart \<Rightarrow> reg \<Rightarrow> u64 \<Rightarrow> nat set \<Rightarrow> bool" where
  "based h b p offs \<longleftrightarrow> (\<forall>off \<in> offs. addr_at h b off = p + of_nat off)"

lemma run_sds:
  assumes "based h b p (snd ` set xs)"
  shows "run (sds b xs) h = h\<lparr>hmem := stored p (regs h) xs (hmem h)\<rparr>"
  using assms
proof (induction xs arbitrary: h)
  case Nil
  then show ?case by (simp add: sds_def stored_def)
next
  case (Cons x xs)
  obtain r i where x: "x = (r, i)" by force
  have "addr_at h b i = p + of_nat i" using Cons.prems by (simp add: based_def x)
  moreover have "based (h\<lparr>hmem := m\<rparr>) b p (snd ` set xs)" for m
    using Cons.prems by (simp add: based_def addr_at_def)
  ultimately show ?case
    using Cons.IH by (simp add: sds_def stored_def x)
qed

lemma run_lds:
  assumes "based h b p (snd ` set xs)"
    and "\<And>off. (b, off) \<in> set xs \<Longrightarrow> load64 (hmem h) (p + of_nat off) = regs h b"
  shows "run (lds b xs) h = h\<lparr>regs := loaded p (hmem h) xs (regs h)\<rparr>"
  using assms
proof (induction xs arbitrary: h)
  case Nil
  then show ?case by (simp add: lds_def loaded_def)
next
  case (Cons x xs)
  obtain r i where x: "x = (r, i)" by force
  define h' where "h' = h\<lparr>regs := (regs h)(r := load64 (hmem h) (p + of_nat i))\<rparr>"
  have i: "addr_at h b i = p + of_nat i" using Cons.prems by (simp add: based_def x)
  have b: "regs h' b = regs h b" using Cons.prems(2) [of i] by (auto simp: h'_def x)
  then have "based h' b p (snd ` set xs)"
    using Cons.prems(1) by (simp add: based_def addr_at_def) (simp add: h'_def)
  moreover have "load64 (hmem h') (p + of_nat off) = regs h' b" if "(b, off) \<in> set xs" for off
    using that Cons.prems(2) b by (simp add: h'_def)
  ultimately have "run (lds b xs) h' = h'\<lparr>regs := loaded p (hmem h') xs (regs h')\<rparr>"
    by (rule Cons.IH)
  then show ?case using i by (simp add: lds_def loaded_def x h'_def)
qed

lemma context_regs_ok: "slots_ok context_regs"
  by (simp add: slots_ok_def context_regs_def)

lemma trapframe_regs_ok: "slots_ok trapframe_regs"
  by (simp add: slots_ok_def trapframe_regs_def)

lemma kernelvec_regs_ok: "slots_ok kernelvec_regs"
  by (simp add: slots_ok_def kernelvec_regs_def)

section \<open>What the routines do\<close>

text \<open>All offsets of the trap frame that the trampoline uses.\<close>

definition frame_offs :: "nat set" where
  "frame_offs = {0, 8, 16, 32, 112} \<union> snd ` set trapframe_regs"

lemma trapframe_all: "r = A0 \<or> r \<in> fst ` set trapframe_regs"
  by (cases r) (simp_all add: trapframe_regs_def)

lemma frame_offs_bound: "off \<in> frame_offs \<Longrightarrow> 8 dvd off \<and> off + 8 \<le> 4096"
proof -
  have "\<forall>off \<in> frame_offs. 8 dvd off \<and> off + 8 \<le> 4096"
    by (simp add: frame_offs_def trapframe_regs_def)
  then show "off \<in> frame_offs \<Longrightarrow> 8 dvd off \<and> off + 8 \<le> 4096" by blast
qed

lemma trapframe_regs_not:
  "A0 \<notin> fst ` set trapframe_regs"
  "0 \<notin> snd ` set trapframe_regs" "8 \<notin> snd ` set trapframe_regs" "16 \<notin> snd ` set trapframe_regs"
  "32 \<notin> snd ` set trapframe_regs" "112 \<notin> snd ` set trapframe_regs"
  by (simp_all add: trapframe_regs_def)

definition frame_at :: "hart \<Rightarrow> u64 \<Rightarrow> u64 \<Rightarrow> bool" where
  "frame_at h us tf \<longleftrightarrow> (\<forall>off \<in> frame_offs. xlat h us (TRAPFRAME + of_nat off) = tf + of_nat off)"

text \<open>The state in which \<open>uservec\<close> jumps to the kernel.\<close>

definition saved_frame :: "u64 \<Rightarrow> hart \<Rightarrow> memory" where
  "saved_frame tf h = store64 (stored tf ((regs h)(A0 := TRAPFRAME)) trapframe_regs (hmem h)) (tf + of_nat 112) (regs h A0)"

lemma saved_frame_loads:
  "(r, off) \<in> set trapframe_regs \<Longrightarrow> load64 (saved_frame tf h) (tf + of_nat off) = regs h r"
  "load64 (saved_frame tf h) (tf + of_nat 112) = regs h A0"
  "off \<in> {0, 8, 16, 32} \<Longrightarrow> load64 (saved_frame tf h) (tf + of_nat off) = load64 (hmem h) (tf + of_nat off)"
proof -
  let ?m = "stored tf ((regs h)(A0 := TRAPFRAME)) trapframe_regs (hmem h)"
  have d: "load64 (saved_frame tf h) (tf + of_nat off) = load64 ?m (tf + of_nat off)"
    if "off \<in> frame_offs" "off \<noteq> 112" for off
  proof -
    have "8 dvd off" "off + 8 \<le> 4096" using that(1) frame_offs_bound by blast+
    then show ?thesis
      unfolding saved_frame_def by (intro load_disjoint) (use that(2) in simp_all)
  qed
  show "load64 (saved_frame tf h) (tf + of_nat off) = regs h r" if m: "(r, off) \<in> set trapframe_regs"
  proof -
    have "off \<in> snd ` set trapframe_regs" "r \<in> fst ` set trapframe_regs"
      using imageI [OF m, of snd] imageI [OF m, of fst] by simp_all
    then have off: "off \<in> frame_offs" "off \<noteq> 112" "r \<noteq> A0"
      using trapframe_regs_not(1,6) unfolding frame_offs_def by blast+
    show ?thesis
      using d [OF off(1,2)] stored_same [OF trapframe_regs_ok m] off(3) by simp
  qed
  show "load64 (saved_frame tf h) (tf + of_nat 112) = regs h A0"
    unfolding saved_frame_def by (rule load64_store64_same)
  show "load64 (saved_frame tf h) (tf + of_nat off) = load64 (hmem h) (tf + of_nat off)"
    if "off \<in> {0, 8, 16, 32}"
  proof -
    have "off \<in> frame_offs" "off \<noteq> 112" "off \<notin> snd ` set trapframe_regs"
      using that trapframe_regs_not by (auto simp: frame_offs_def)
    then show ?thesis
      using d [of off] stored_other [OF trapframe_regs_ok, of off] frame_offs_bound [of off] by simp
  qed
qed

lemma run_uservec:
  assumes "frame_at h (csrs h Satp) tf"
  defines "m \<equiv> saved_frame tf h"
  shows "hmem (run uservec_code h) = m"
    and "csrs (run uservec_code h) Satp = load64 (hmem h) tf"
    and "regs (run uservec_code h) SP = load64 (hmem h) (tf + 8)"
    and "regs (run uservec_code h) TP = load64 (hmem h) (tf + 32)"
    and "pc (run uservec_code h) = load64 (hmem h) (tf + 16)"
proof -
  define h1 where "h1 = h\<lparr>csrs := (csrs h)(Sscratch := regs h A0), regs := (regs h)(A0 := TRAPFRAME)\<rparr>"
  define m1 where "m1 = stored tf (regs h1) trapframe_regs (hmem h)"
  have at: "xlat h (csrs h Satp) (TRAPFRAME + of_nat off) = tf + of_nat off" if "off \<in> frame_offs" for off
    using assms(1) that by (simp add: frame_at_def)
  have "based h1 A0 tf (snd ` set trapframe_regs)"
    using at by (auto simp: based_def addr_at_def h1_def frame_offs_def)
  then have s: "run (sds A0 trapframe_regs) h1 = h1\<lparr>hmem := m1\<rparr>"
    by (simp add: run_sds m1_def h1_def)
  have a: "xlat h (csrs h Satp) (TRAPFRAME + 112) = tf + 112" "xlat h (csrs h Satp) (TRAPFRAME + 8) = tf + 8"
    "xlat h (csrs h Satp) (TRAPFRAME + 16) = tf + 16" "xlat h (csrs h Satp) (TRAPFRAME + 32) = tf + 32"
    "xlat h (csrs h Satp) TRAPFRAME = tf"
    using at [of 112] at [of 8] at [of 16] at [of 32] at [of 0] by (simp_all add: frame_offs_def)
  have m: "store64 m1 (tf + 112) (regs h A0) = m" by (simp add: m_def saved_frame_def m1_def h1_def)
  note l = saved_frame_loads(3) [of 0 tf h, folded m_def] saved_frame_loads(3) [of 8 tf h, folded m_def]
    saved_frame_loads(3) [of 16 tf h, folded m_def] saved_frame_loads(3) [of 32 tf h, folded m_def]
  have e: "run uservec_code h = run [Csrr T0 Sscratch, Sd T0 112 A0, Ld SP 8 A0, Ld TP 32 A0, Ld T0 16 A0,
      Ld T1 0 A0, SfenceVma, Csrw Satp T1, SfenceVma, Jr T0] (h1\<lparr>hmem := m1\<rparr>)"
    unfolding uservec_code_def run_append s [symmetric] by (simp add: h1_def)
  show "hmem (run uservec_code h) = m"
    unfolding e by (simp add: addr_at_def) (simp add: h1_def a m)
  show "csrs (run uservec_code h) Satp = load64 (hmem h) tf"
    unfolding e by (simp add: addr_at_def) (use l in \<open>simp add: h1_def a m\<close>)
  show "regs (run uservec_code h) SP = load64 (hmem h) (tf + 8)"
    unfolding e by (simp add: addr_at_def) (use l in \<open>simp add: h1_def a m\<close>)
  show "regs (run uservec_code h) TP = load64 (hmem h) (tf + 32)"
    unfolding e by (simp add: addr_at_def) (use l in \<open>simp add: h1_def a m\<close>)
  show "pc (run uservec_code h) = load64 (hmem h) (tf + 16)"
    unfolding e by (simp add: addr_at_def) (use l in \<open>simp add: h1_def a m\<close>)
qed

lemma run_userret:
  assumes "frame_at h (regs h A0) tf"
  shows "run userret_code h = h\<lparr>csrs := (csrs h)(Satp := regs h A0),
           regs := (loaded tf (hmem h) trapframe_regs (regs h))(A0 := load64 (hmem h) (tf + 112)),
           pc := csrs h Sepc\<rparr>"
proof -
  define h1 where "h1 = h\<lparr>csrs := (csrs h)(Satp := regs h A0), regs := (regs h)(A0 := TRAPFRAME)\<rparr>"
  have "based h1 A0 tf (snd ` set trapframe_regs)"
    using assms by (auto simp: based_def addr_at_def h1_def frame_offs_def frame_at_def)
  then have s: "run (lds A0 trapframe_regs) h1 = h1\<lparr>regs := loaded tf (hmem h) trapframe_regs (regs h1)\<rparr>"
    using trapframe_regs_not(1) by (subst run_lds) (force simp: h1_def)+
  have a: "xlat h (regs h A0) (TRAPFRAME + 112) = tf + 112"
    using assms by (simp add: frame_at_def frame_offs_def)
  have k: "loaded tf (hmem h) trapframe_regs (regs h1) A0 = TRAPFRAME"
    using trapframe_regs_not(1) by (simp add: loaded_other h1_def)
  have "(loaded tf (hmem h) trapframe_regs (regs h1))(A0 := v) =
        (loaded tf (hmem h) trapframe_regs (regs h))(A0 := v)" for v
  proof
    fix r show "((loaded tf (hmem h) trapframe_regs (regs h1))(A0 := v)) r =
        ((loaded tf (hmem h) trapframe_regs (regs h))(A0 := v)) r"
      using trapframe_all [of r] loaded_same [OF trapframe_regs_ok, of r] by auto
  qed
  moreover have "run userret_code h = run [Ld A0 112 A0, Sret] (run (lds A0 trapframe_regs) h1)"
    by (simp add: userret_code_def h1_def)
  ultimately show ?thesis
    unfolding s by (simp add: addr_at_def k) (simp add: h1_def a)
qed

lemma userret_regs:
  assumes "frame_at h (regs h A0) tf"
    and "\<And>r off. (r, off) \<in> set trapframe_regs \<Longrightarrow> load64 (hmem h) (tf + of_nat off) = g r"
    and "load64 (hmem h) (tf + 112) = g A0"
  shows "regs (run userret_code h) = g"
proof
  fix r
  consider "r = A0" | off where "r \<noteq> A0" "(r, off) \<in> set trapframe_regs"
    using trapframe_all [of r] by (cases "r = A0") auto
  then show "regs (run userret_code h) r = g r"
    using assms by cases (simp_all add: run_userret loaded_same [OF trapframe_regs_ok])
qed

lemma load64_store64_far:
  assumes "8 \<le> unat (b - a :: u64)" "8 \<le> unat (a - b)"
  shows "load64 (store64 m a v) b = load64 m b"
  unfolding load64_def
proof (rule arg_cong [where f = le_word], rule read_bytes_cong)
  fix k :: nat assume k: "k < 8"
  have "b - a \<noteq> 0" using assms(1) by auto
  then have "unat (- (b - a)) = 2 ^ 64 - unat (b - a)" by (rule unat_uminus_64)
  moreover have "- (b - a) = a - b" by simp
  ultimately have "unat (b - a) + k < 2 ^ 64" using assms(2) k unat_lt_64 [of "b - a"] by simp
  then have "unat (b - a + of_nat k) = unat (b - a) + k" by (rule unat_plus_nat_64)
  then have "8 \<le> unat (b + of_nat k - a)" using assms(1) by (simp add: algebra_simps)
  then show "store64 m a v (b + of_nat k) = m (b + of_nat k)"
    by (simp add: store64_def write_bytes_outside)
qed

text \<open>Two areas of \<open>n\<close> bytes that do not overlap, also not around the end of the address space.\<close>

definition apart :: "u64 \<Rightarrow> u64 \<Rightarrow> nat \<Rightarrow> bool" where
  "apart p q n \<longleftrightarrow> n \<le> unat (p - q) \<and> n \<le> unat (q - p)"

lemma apart_offsets:
  assumes "apart p q n" "i + 8 \<le> n" "j + 8 \<le> n" "n \<le> 4096"
  shows "8 \<le> unat (q + of_nat j - (p + of_nat i))"
proof -
  define d where "d = q - p"
  have "d \<noteq> 0" using assms by (auto simp: apart_def d_def)
  moreover have "- d = p - q" by (simp add: d_def)
  ultimately have "n \<le> 2 ^ 64 - unat d" "n \<le> unat d"
    using assms(1) unat_uminus_64 [of d] by (simp_all add: apart_def d_def)
  then have le: "i \<le> unat d + j" "unat d + j < 2 ^ 64"
    using assms(2,3) unat_lt_64 [of d] by linarith+
  have "unat (d + of_nat j) = unat d + j" using le(2) by (rule unat_plus_nat_64)
  moreover have "unat (of_nat i :: u64) = i" using assms(2,4) by (intro unat_of_nat_64) simp
  ultimately have "unat (d + of_nat j - of_nat i) = unat d + j - i"
    using le(1) by (simp add: unat_sub word_le_nat_alt)
  moreover have "q + of_nat j - (p + of_nat i) = d + of_nat j - of_nat i"
    by (simp add: d_def algebra_simps)
  ultimately show ?thesis using \<open>n \<le> unat d\<close> assms(2) by (simp only:)
qed

lemma stored_apart:
  assumes "apart p q n" "n \<le> 4096" "\<forall>off \<in> snd ` set xs. off + 8 \<le> n" "j + 8 \<le> n"
  shows "load64 (stored p g xs m) (q + of_nat j) = load64 m (q + of_nat j)"
  using assms(3)
proof (induction xs arbitrary: m)
  case Nil
  then show ?case by (simp add: stored_def)
next
  case (Cons x xs)
  obtain r i where x: "x = (r, i)" by force
  have i: "i + 8 \<le> n" using Cons.prems by (simp add: x)
  have "apart q p n" using assms(1) by (simp add: apart_def)
  then have "load64 (store64 m (p + of_nat i) (g r)) (q + of_nat j) = load64 m (q + of_nat j)"
    using assms(1,2,4) i by (intro load64_store64_far apart_offsets)
  then show ?case using Cons by (simp add: stored_def x)
qed

lemma context_regs_bound: "\<forall>off \<in> snd ` set context_regs. off + 8 \<le> 112"
  by (simp add: context_regs_def)

lemma context_regs_not: "A0 \<notin> fst ` set context_regs" "A1 \<notin> fst ` set context_regs"
  by (simp_all add: context_regs_def)

definition context_at :: "hart \<Rightarrow> reg \<Rightarrow> u64 \<Rightarrow> bool" where
  "context_at h b p \<longleftrightarrow> (\<forall>off < 112. addr_at h b off = p + of_nat off)"

lemma context_at_based: "context_at h b p \<Longrightarrow> based h b p (snd ` set context_regs)"
  using context_regs_bound by (auto simp: based_def context_at_def)

lemma run_swtch:
  assumes "context_at h A0 old" "context_at h A1 new" "apart old new 112"
  shows "run swtch h = h\<lparr>hmem := stored old (regs h) context_regs (hmem h),
           regs := loaded new (hmem h) context_regs (regs h), pc := load64 (hmem h) new\<rparr>"
proof -
  define h1 where "h1 = h\<lparr>hmem := stored old (regs h) context_regs (hmem h)\<rparr>"
  have s: "run (sds A0 context_regs) h = h1"
    unfolding h1_def by (rule run_sds [OF context_at_based [OF assms(1)]])
  have same: "load64 (hmem h1) (new + of_nat off) = load64 (hmem h) (new + of_nat off)"
    if "off + 8 \<le> 112" for off
    using stored_apart [OF assms(3) _ context_regs_bound that] by (simp add: h1_def)
  have "context_at h1 A1 new" using assms(2) by (simp add: context_at_def addr_at_def h1_def)
  then have "run (lds A1 context_regs) h1 = h1\<lparr>regs := loaded new (hmem h1) context_regs (regs h1)\<rparr>"
    using context_regs_not(2) by (intro run_lds context_at_based) (force+)
  moreover have "loaded new (hmem h1) context_regs (regs h1) = loaded new (hmem h) context_regs (regs h)"
  proof
    fix r
    show "loaded new (hmem h1) context_regs (regs h1) r = loaded new (hmem h) context_regs (regs h) r"
    proof (cases "r \<in> fst ` set context_regs")
      case True
      then obtain off where m: "(r, off) \<in> set context_regs" by auto
      then have "off + 8 \<le> 112" using context_regs_bound by force
      then show ?thesis using loaded_same [OF context_regs_ok m] same by simp
    next
      case False
      then show ?thesis by (simp add: loaded_other h1_def)
    qed
  qed
  moreover have "(RA, 0) \<in> set context_regs" by (simp add: context_regs_def)
  then have "loaded new (hmem h) context_regs (regs h) RA = load64 (hmem h) new"
    using loaded_same [OF context_regs_ok] by fastforce
  ultimately show ?thesis by (simp add: swtch_def s) (simp add: h1_def)
qed

section \<open>Interrupts in the kernel\<close>

abbreviation "kept_regs \<equiv> filter (\<lambda>(r, off). r \<noteq> TP) kernelvec_regs"

lemma kept_regs_ok: "slots_ok kept_regs"
  by (simp add: slots_ok_def kernelvec_regs_def)

lemma kept_regs_all: "r \<noteq> TP \<Longrightarrow> r \<in> fst ` set kept_regs"
  by (cases r) (simp_all add: kernelvec_regs_def)

lemma kept_regs_sub: "(r, off) \<in> set kept_regs \<Longrightarrow> (r, off) \<in> set kernelvec_regs \<and> r \<noteq> TP"
  by simp

lemma kernelvec_bound: "\<forall>off \<in> snd ` set kernelvec_regs. off < 248"
  by (simp add: kernelvec_regs_def)

text \<open>The 248 bytes of the frame of \<open>kernelvec\<close> below the stack pointer are at \<open>p\<close>.\<close>

definition stack_at :: "hart \<Rightarrow> u64 \<Rightarrow> bool" where
  "stack_at h p \<longleftrightarrow> (\<forall>off < 248. xlat h (csrs h Satp) (regs h SP + of_nat off) = p + of_nat off)"

lemma stack_at_based: "stack_at h p \<Longrightarrow> based h SP p (snd ` set kernelvec_regs)"
  using kernelvec_bound by (auto simp: based_def stack_at_def addr_at_def)

text \<open>
  \<open>kernelvec\<close> is transparent to the code it interrupts: when \<open>kerneltrap\<close> returns with the stack
  pointer it was called with and leaves the frame alone, every register but \<open>tp\<close> is as before.
\<close>

lemma kernelvec_transparent:
  assumes "stack_at (h\<lparr>regs := (regs h)(SP := regs h SP - 256)\<rparr>) p"
    and "stack_at k p" "regs k SP = regs h SP - 256"
    and "\<forall>off \<in> snd ` set kernelvec_regs.
      load64 (hmem k) (p + of_nat off) = load64 (hmem (run (kernelvec_enter kt back) h)) (p + of_nat off)"
    and "r \<noteq> TP"
  shows "regs (run kernelvec_leave k) r = regs h r"
proof -
  define h1 where "h1 = h\<lparr>regs := (regs h)(SP := regs h SP - 256)\<rparr>"
  have "run (sds SP kernelvec_regs) h1 = h1\<lparr>hmem := stored p (regs h1) kernelvec_regs (hmem h1)\<rparr>"
    using assms(1) by (intro run_sds stack_at_based) (simp add: h1_def)
  then have m: "hmem (run (kernelvec_enter kt back) h) = stored p (regs h1) kernelvec_regs (hmem h)"
    by (simp add: kernelvec_enter_def h1_def [symmetric]) (simp add: h1_def)
  have l: "load64 (hmem k) (p + of_nat off) = regs h1 q" if q: "(q, off) \<in> set kernelvec_regs" for q off
    using bspec [OF assms(4) imageI [OF q, of snd]] stored_same [OF kernelvec_regs_ok q] by (simp add: m)
  have "based k SP p (snd ` set kept_regs)"
    using stack_at_based [OF assms(2)] by (auto simp: based_def)
  then have "run (lds SP kept_regs) k = k\<lparr>regs := loaded p (hmem k) kept_regs (regs k)\<rparr>"
    using l assms(3) by (intro run_lds) (auto simp: h1_def)
  then have e: "regs (run kernelvec_leave k) =
      (loaded p (hmem k) kept_regs (regs k))(SP := loaded p (hmem k) kept_regs (regs k) SP + 256)"
    by (simp add: kernelvec_leave_def)
  have v: "loaded p (hmem k) kept_regs (regs k) q = regs h1 q" if tp: "q \<noteq> TP" for q
  proof -
    obtain off where q: "(q, off) \<in> set kept_regs" using kept_regs_all [OF tp] by (auto simp del: set_filter)
    show ?thesis using loaded_same [OF kept_regs_ok q] l kept_regs_sub [OF q] by simp
  qed
  show ?thesis using v [OF assms(5)] v [of SP] assms(3) by (simp add: e h1_def)
qed

text \<open>
  \<open>timervec\<close> leaves the interrupted registers alone, moves the next timer interrupt on by the
  interval, and raises the software interrupt of supervisor mode.
\<close>

lemma timervec_correct:
  assumes "xlat h = (\<lambda>_ va. va)" and "csrs h Mscratch = scr"
    and "load64 (hmem h) (scr + 24) = cmp" "apart scr cmp 40"
  shows "regs (run timervec_code h) = regs h"
    and "csrs (run timervec_code h) = (csrs h)(Sip := 2)"
    and "load64 (hmem (run timervec_code h)) cmp = load64 (hmem h) cmp + load64 (hmem h) (scr + 32)"
    and "pc (run timervec_code h) = csrs h Mepc"
proof -
  define m1 where "m1 = store64 (store64 (store64 (hmem h) scr (regs h A1)) (scr + 8) (regs h A2)) (scr + 16) (regs h A3)"
  have off: "load64 (store64 m (scr + of_nat i) v) (scr + of_nat j) = load64 m (scr + of_nat j)"
    if "8 dvd i" "8 dvd j" "i \<noteq> j" "i + 8 \<le> 4096" "j + 8 \<le> 4096" for m i j v
    using that by (rule load_disjoint)
  have d: "load64 m1 scr = regs h A1" "load64 m1 (scr + 8) = regs h A2" "load64 m1 (scr + 16) = regs h A3"
    "load64 m1 (scr + 24) = cmp" "load64 m1 (scr + 32) = load64 (hmem h) (scr + 32)"
    unfolding m1_def
    using assms(3) off [of 0 8] off [of 0 16] off [of 0 24] off [of 0 32] off [of 8 0] off [of 8 16]
      off [of 8 24] off [of 8 32] off [of 16 0] off [of 16 8] off [of 16 24] off [of 16 32]
    by simp_all
  have ap: "apart cmp scr 40" using assms(4) by (simp add: apart_def)
  have away: "load64 (store64 m cmp v) (scr + of_nat i) = load64 m (scr + of_nat i)"
    "load64 (store64 m (scr + of_nat i) v) cmp = load64 m cmp" if "i + 8 \<le> 40" for m v i
    using apart_offsets [OF assms(4), of i 0] apart_offsets [OF ap, of 0 i] that
    by (auto intro!: load64_store64_far)
  have c: "load64 m1 cmp = load64 (hmem h) cmp"
    unfolding m1_def using away(2) [of 0] away(2) [of 8] away(2) [of 16] by simp
  let ?m2 = "store64 m1 cmp (load64 m1 cmp + load64 (hmem h) (scr + 32))"
  have e: "load64 ?m2 scr = regs h A1" "load64 ?m2 (scr + 8) = regs h A2" "load64 ?m2 (scr + 16) = regs h A3"
    using away(1) [of 0] away(1) [of 8] away(1) [of 16] d by simp_all
  have r: "run timervec_code h = h\<lparr>csrs := (csrs h)(Sip := 2), hmem := ?m2, pc := csrs h Mepc\<rparr>"
    using d e assms(1,2)
    by (simp add: timervec_code_def addr_at_def m1_def [symmetric] fun_upd_twist) (auto simp: fun_eq_iff)
  show "regs (run timervec_code h) = regs h" "csrs (run timervec_code h) = (csrs h)(Sip := 2)"
    "load64 (hmem (run timervec_code h)) cmp = load64 (hmem h) cmp + load64 (hmem h) (scr + 32)"
    "pc (run timervec_code h) = csrs h Mepc"
    by (simp_all add: r c)
qed

text \<open>Each hart enters \<open>start\<close> at the top of its own 4096 bytes of \<open>stack0\<close>.\<close>

lemma entry_stack:
  "regs (run (entry_code stack0 st back) h) SP = stack0 + 4096 * (csrs h Mhartid + 1)"
  "pc (run (entry_code stack0 st back) h) = st"
  by (simp_all add: entry_code_def)

section \<open>Properties\<close>

text \<open>
  C22: traps keep the registers of user programs. \<open>uservec\<close>, entered with the user page table under
  which the trap frame is mapped, stores the registers there and enters the kernel: with the
  kernel's page table, stack, hart number and handler address from the frame. When \<open>userret\<close> later
  runs on any hart with that page table and the register words of the frame are those that
  \<open>uservec\<close> stored, all 31 registers are as they were at the trap, and execution goes on at \<open>sepc\<close>.
\<close>

theorem trampoline_roundtrip:
  assumes "frame_at h (csrs h Satp) tf"
    and "frame_at k (regs k A0) tf"
    and "\<forall>off \<in> insert 112 (snd ` set trapframe_regs).
      load64 (hmem k) (tf + of_nat off) = load64 (hmem (run uservec_code h)) (tf + of_nat off)"
  shows "csrs (run uservec_code h) Satp = load64 (hmem h) tf \<and>
    regs (run uservec_code h) SP = load64 (hmem h) (tf + 8) \<and>
    regs (run uservec_code h) TP = load64 (hmem h) (tf + 32) \<and>
    pc (run uservec_code h) = load64 (hmem h) (tf + 16) \<and>
    regs (run userret_code k) = regs h \<and>
    csrs (run userret_code k) Satp = regs k A0 \<and>
    pc (run userret_code k) = csrs k Sepc"
proof -
  note u = run_uservec [OF assms(1)]
  have "regs (run userret_code k) = regs h"
  proof (rule userret_regs [OF assms(2)])
    fix r off assume m: "(r, off) \<in> set trapframe_regs"
    then have "off \<in> snd ` set trapframe_regs" using imageI [OF m, of snd] by simp
    then show "load64 (hmem k) (tf + of_nat off) = regs h r"
      using bspec [OF assms(3), of off] saved_frame_loads(1) [OF m, of tf h] by (simp add: u(1))
  next
    show "load64 (hmem k) (tf + 112) = regs h A0"
      using assms(3) saved_frame_loads(2) [of tf h] by (simp add: u(1))
  qed
  moreover have "csrs (run userret_code k) Satp = regs k A0" "pc (run userret_code k) = csrs k Sepc"
    by (simp_all add: run_userret [OF assms(2)])
  ultimately show ?thesis using u by simp
qed

definition hart_example :: hart where
  "hart_example = \<lparr>regs = (\<lambda>r. if r = A0 then 7 else 9), csrs = (\<lambda>_. 0), hmem = (\<lambda>_. 0),
     xlat = (\<lambda>_ va. va), pc = 0\<rparr>"

theorem trampoline_roundtrip_witness:
  "regs (run userret_code (run uservec_code hart_example)) = regs hart_example \<and>
   pc (run userret_code (run uservec_code hart_example)) = 0"
proof -
  have x: "xlat hart_example = (\<lambda>_ va. va)" by (simp add: hart_example_def)
  have "\<forall>i \<in> set uservec_code. csr_written i \<noteq> Some Sepc"
    by (auto simp: uservec_code_def sds_def)
  then have c: "csrs (run uservec_code hart_example) Sepc = 0"
    by (simp add: csrs_run) (simp add: hart_example_def)
  have "frame_at hart_example (csrs hart_example Satp) TRAPFRAME"
    "frame_at (run uservec_code hart_example) (regs (run uservec_code hart_example) A0) TRAPFRAME"
    by (simp_all add: frame_at_def x)
  then show ?thesis
    using trampoline_roundtrip [of hart_example TRAPFRAME "run uservec_code hart_example"] c by simp
qed


definition swtch_example :: hart where
  "swtch_example = hart_example\<lparr>regs := (\<lambda>r. if r = A0 then 0x1000 else if r = A1 then 0x2000 else 5)\<rparr>"


end
