(* ===== verification/Tty.thy ===== *)
theory Tty
  imports Console Ring
begin

text \<open>
  Correctness of the console: what \<open>printint\<close> prints denotes the number, the transmit buffer of the
  UART is a queue, and the line discipline edits a line of input and hands it over when it is
  complete.
\<close>

section \<open>Printing integers\<close>

text \<open>The value of a digit and of a numeral, most significant digit first, with an optional sign.\<close>

definition digit_val :: "u8 \<Rightarrow> nat" where
  "digit_val c = (if c < 58 then unat c - 48 else unat c - 87)"

definition read_nat :: "nat \<Rightarrow> u8 list \<Rightarrow> nat" where
  "read_nat base cs = foldl (\<lambda>a c. a * base + digit_val c) 0 cs"

definition read_int :: "nat \<Rightarrow> u8 list \<Rightarrow> int" where
  "read_int base cs =
     (if cs \<noteq> [] \<and> hd cs = chr (CHR ''-'') then - int (read_nat base (tl cs)) else int (read_nat base cs))"

lemma digits_all:
  "list_all (\<lambda>d. digit_val (digits ! d) = d \<and> digits ! d \<noteq> chr (CHR ''-'')) [0..<16]"
  by code_simp

lemma digit_val_digits: "d < 16 \<Longrightarrow> digit_val (digits ! d) = d"
  and digits_not_minus: "d < 16 \<Longrightarrow> digits ! d \<noteq> chr (CHR ''-'')"
  using digits_all by (simp_all add: list_all_iff)

lemma printint_digits_value:
  assumes "1 < base" and "base \<le> 16"
  shows "read_nat base (rev (printint_digits x base)) = x"
proof (induction x rule: less_induct)
  case (less x)
  have d: "digit_val (digits ! (x mod base)) = x mod base"
    using assms by (intro digit_val_digits) (meson mod_less_divisor less_le_trans less_trans zero_less_one)
  show ?case
  proof (cases "x div base = 0")
    case True
    then have "x < base" using assms by (simp add: div_eq_0_iff)
    then show ?thesis using True d by (subst printint_digits.simps) (simp add: read_nat_def)
  next
    case False
    then have "x div base < x" using assms by (intro div_less_dividend) (auto intro: ccontr)
    from less.IH [OF this] show ?thesis
      using False d assms by (subst printint_digits.simps) (simp add: read_nat_def)
  qed
qed

lemma printint_digits_not_minus:
  assumes "1 < base" and "base \<le> 16"
  shows "chr (CHR ''-'') \<notin> set (printint_digits x base)"
proof (induction x rule: less_induct)
  case (less x)
  have "digits ! (x mod base) \<noteq> chr (CHR ''-'')"
    using assms by (intro digits_not_minus) (meson mod_less_divisor less_le_trans less_trans zero_less_one)
  moreover have "x div base < x" if "x div base \<noteq> 0"
    using that assms by (intro div_less_dividend) (auto intro: ccontr)
  ultimately show ?case using less.IH [of "x div base"] by (subst printint_digits.simps) auto
qed

lemma printint_digits_length:
  assumes "1 < base" and "x < base ^ k" and "0 < k"
  shows "length (printint_digits x base) \<le> k"
  using assms(2,3)
proof (induction k arbitrary: x)
  case 0
  then show ?case by simp
next
  case (Suc k)
  show ?case
  proof (cases "x div base = 0")
    case True
    then show ?thesis by (subst printint_digits.simps) simp
  next
    case False
    then have "base \<le> x" using assms(1) by (simp add: div_eq_0_iff)
    then have "0 < k" using Suc.prems by (cases k) auto
    moreover have "x div base < base ^ k"
      using Suc.prems assms(1) by (simp add: less_mult_imp_div_less mult.commute)
    ultimately have "length (printint_digits (x div base) base) \<le> k" by (rule Suc.IH [rotated])
    then show ?thesis by (subst printint_digits.simps) auto
  qed
qed

lemma sint_32: "sint (x :: u32) = (if uint x < 2 ^ 31 then uint x else uint x - 2 ^ 32)"
proof -
  have b: "0 \<le> uint x" "uint x < 2 ^ 32" using uint_bounded [of x] by auto
  have s: "sint x = (uint x + 2 ^ 31) mod 2 ^ 32 - 2 ^ 31"
    by (simp add: sint_uint signed_take_bit_eq_take_bit_shift take_bit_eq_mod)
  show ?thesis
  proof (cases "uint x < 2 ^ 31")
    case True
    then show ?thesis using b unfolding s by (subst mod_pos_pos_trivial) auto
  next
    case False
    have "(uint x + 2 ^ 31) mod 2 ^ 32 = ((uint x - 2 ^ 31) + 2 ^ 32) mod 2 ^ 32"
      by (simp add: add.commute)
    also have "\<dots> = (uint x - 2 ^ 31) mod 2 ^ 32" by (rule mod_add_self2)
    also have "\<dots> = uint x - 2 ^ 31" using False b by (intro mod_pos_pos_trivial) auto
    finally show ?thesis using False unfolding s by simp
  qed
qed

lemma unat_sint_32: "\<not> sint (x :: u32) < 0 \<Longrightarrow> int (unat x) = sint x"
  using uint_bounded [of x] by (auto simp: sint_32 split: if_splits)

lemma unat_uminus_sint_32:
  assumes "sint (x :: u32) < 0"
  shows "int (unat (- x)) = - sint x"
proof -
  have "\<not> uint x < 2 ^ 31" using assms by (auto simp: sint_32 split: if_splits)
  moreover have "uint (- x) = 2 ^ 32 - uint x" if "uint x \<noteq> 0"
    using that uint_bounded [of x] by (simp add: uint_word_ariths zmod_zminus1_eq_if)
  ultimately show ?thesis by (simp add: sint_32)
qed

text \<open>
  C26: \<open>printint\<close> prints the number it is given. Reading the characters back as a numeral in the
  base gives the value of the argument, as a signed integer when the caller asked for a sign and as
  an unsigned integer otherwise, the smallest integer included; and from base 10 on, so in the
  bases that \<open>printf\<close> uses, the characters fit in the buffer \<open>char buf[16]\<close> with room to spare.
\<close>

theorem printint_roundtrip:
  assumes "1 < base" and "base \<le> 16"
  shows "read_int base (printint_chars xx base sg) = (if sg then sint xx else uint xx) \<and>
         (10 \<le> base \<longrightarrow> length (printint_chars xx base sg) \<le> 11)"
proof (intro conjI impI)
  let ?neg = "sg \<and> sint xx < 0"
  let ?ds = "printint_digits (unat (if ?neg then - xx else xx)) base"
  have v: "read_nat base (rev ?ds) = unat (if ?neg then - xx else xx)"
    by (rule printint_digits_value [OF assms])
  have nm: "chr (CHR ''-'') \<notin> set (rev ?ds)"
    using printint_digits_not_minus [OF assms] by simp
  have cs: "printint_chars xx base sg = (if ?neg then [chr (CHR ''-'')] else []) @ rev ?ds"
    by (simp add: printint_chars_def Let_def)
  show "read_int base (printint_chars xx base sg) = (if sg then sint xx else uint xx)"
  proof (cases ?neg)
    case True
    then show ?thesis using v unat_uminus_sint_32 [of xx] unfolding cs read_int_def by simp
  next
    case False
    have "\<not> (rev ?ds \<noteq> [] \<and> hd (rev ?ds) = chr (CHR ''-''))"
      using nm hd_in_set by metis
    then have "read_int base (printint_chars xx base sg) = int (unat xx)"
      using False v unfolding cs read_int_def by auto
    then show ?thesis using False unat_sint_32 [of xx] by auto
  qed
  show "length (printint_chars xx base sg) \<le> 11" if "10 \<le> base"
  proof -
    have "unat (if ?neg then - xx else xx) < 10 ^ 10"
      by (rule less_trans [OF unat_lt_32]) simp
    also have "(10::nat) ^ 10 \<le> base ^ 10" using that by (rule power_mono) simp
    finally have "length ?ds \<le> 10" using printint_digits_length [OF assms(1), of _ 10] by simp
    then show ?thesis unfolding cs by auto
  qed
qed

theorem printint_roundtrip_witness:
  "read_int 10 (printint_chars (- 2147483648) 10 True) = - 2147483648"
  using printint_roundtrip [of 10 "- 2147483648" True] by simp

section \<open>The transmit buffer of the UART\<close>

definition uart_ok :: "'z cons_state_scheme \<Rightarrow> bool" where
  "uart_ok s \<longleftrightarrow> unat (uart_tx_w s - uart_tx_r s) \<le> UART_TX_BUF_SIZE"

definition uart_contents :: "'z cons_state_scheme \<Rightarrow> u8 list" where
  "uart_contents s = ring UART_TX_BUF_SIZE (uart_tx_buf s) (uart_tx_r s) (uart_tx_w s)"

definition uart_full :: "'z cons_state_scheme \<Rightarrow> bool" where
  "uart_full s \<longleftrightarrow> uart_tx_w s = uart_tx_r s + of_nat UART_TX_BUF_SIZE"

definition uart_empty :: "'z cons_state_scheme \<Rightarrow> bool" where
  "uart_empty s \<longleftrightarrow> uart_tx_w s = uart_tx_r s"

definition uart_put :: "u8 \<Rightarrow> 'z cons_state_scheme \<Rightarrow> 'z cons_state_scheme" where
  "uart_put c s = s\<lparr>uart_tx_buf := (uart_tx_buf s)(unat (uart_tx_w s) mod UART_TX_BUF_SIZE := c),
                    uart_tx_w := uart_tx_w s + 1\<rparr>"

definition uart_first :: "'z cons_state_scheme \<Rightarrow> u8" where
  "uart_first s = uart_tx_buf s (unat (uart_tx_r s) mod UART_TX_BUF_SIZE)"

definition uart_take :: "'z cons_state_scheme \<Rightarrow> 'z cons_state_scheme" where
  "uart_take s = s\<lparr>uart_tx_r := uart_tx_r s + 1\<rparr>"

interpretation uart_queue: byte_queue "uart_ok :: 'z cons_state_scheme \<Rightarrow> bool" uart_contents
  UART_TX_BUF_SIZE uart_full uart_empty uart_put uart_first uart_take
proof
  fix q :: "'z cons_state_scheme" and c
  have P: "UART_TX_BUF_SIZE dvd 2 ^ LENGTH(64)" "UART_TX_BUF_SIZE < 2 ^ LENGTH(64)"
    by (simp_all add: UART_TX_BUF_SIZE_def)
  assume ok: "uart_ok q"
  show full: "uart_full q \<longleftrightarrow> length (uart_contents q) = UART_TX_BUF_SIZE"
    unfolding uart_full_def uart_contents_def length_ring by (rule ring_full [OF P(2)])
  show empty: "uart_empty q \<longleftrightarrow> uart_contents q = []"
    by (auto simp: uart_empty_def uart_contents_def ring_empty)
  show "length (uart_contents q) \<le> UART_TX_BUF_SIZE"
    using ok by (simp add: uart_ok_def uart_contents_def)
  show "uart_ok (uart_put c q) \<and> uart_contents (uart_put c q) = uart_contents q @ [c]"
    if "\<not> uart_full q"
  proof -
    have "unat (uart_tx_w q - uart_tx_r q) < UART_TX_BUF_SIZE"
      using that full ok by (simp add: uart_ok_def uart_contents_def)
    from ring_push [OF P this] this show ?thesis
      by (simp add: uart_ok_def uart_contents_def uart_put_def)
  qed
  show "uart_ok (uart_take q) \<and> uart_contents q = uart_first q # uart_contents (uart_take q)"
    if "\<not> uart_empty q"
  proof -
    have ne: "uart_tx_r q \<noteq> uart_tx_w q" using that by (auto simp: uart_empty_def)
    from ring_pop [OF P(1) ne, of "uart_tx_buf q"]
    have c: "uart_contents q = uart_first q # uart_contents (uart_take q)"
      by (simp add: uart_contents_def uart_first_def uart_take_def)
    from arg_cong [OF c, of length] ok show ?thesis
      using c by (simp add: uart_ok_def uart_contents_def uart_take_def)
  qed
qed

text \<open>
  A running UART: the registers address the transmitter, and no process lock stands in the way of
  the wakeups.
\<close>

definition uart_on :: "'z cons_state_scheme \<Rightarrow> bool" where
  "uart_on s \<longleftrightarrow> \<not> bit (uart_lcr s) 7 \<and> held s \<inter> range LProc = {}"

definition uart_stream :: "'z cons_state_scheme \<Rightarrow> u8 list" where
  "uart_stream s = uart_out s @ uart_contents s"

definition uart_sent :: "'z cons_state_scheme \<Rightarrow> 'z cons_state_scheme" where
  "uart_sent s = (woken ChUart (uart_take s))
     \<lparr>uart_out := uart_out s @ [uart_first s], uart_room := uart_room s - 1\<rparr>"

lemma woken_uart [simp]:
  "uart_out (woken ch s) = uart_out s" "uart_lcr (woken ch s) = uart_lcr s"
  "uart_room (woken ch s) = uart_room s" "uart_tx_r (woken ch s) = uart_tx_r s"
  "uart_tx_w (woken ch s) = uart_tx_w s" "uart_tx_buf (woken ch s) = uart_tx_buf s"
  by (simp_all add: woken_def)

lemma uart_sent_simps [simp]:
  "uart_ok (uart_sent s) = uart_ok (uart_take s)" "uart_on (uart_sent s) = uart_on s"
  "uart_contents (uart_sent s) = uart_contents (uart_take s)"
  "uart_out (uart_sent s) = uart_out s @ [uart_first s]" "uart_room (uart_sent s) = uart_room s - 1"
  "held (uart_sent s) = held s" "curproc (uart_sent s) = curproc s" "mem (uart_sent s) = mem s"
  by (simp_all add: uart_sent_def uart_ok_def uart_contents_def uart_on_def uart_take_def)

lemma uartstart_step:
  assumes "uart_on s" and "\<not> uart_empty s" and "uart_room s \<noteq> 0"
  shows "uartstart_loop (Suc n) s = uartstart_loop n (uart_sent s)"
proof -
  have "wakeup ChUart (uart_take s) = Ret () (woken ChUart (uart_take s))"
    using assms(1) by (intro wakeup_woken) (simp add: uart_on_def uart_take_def)
  then show ?thesis
    using assms by (simp add: prog_simps uart_empty_def uart_on_def WriteReg_def uart_take_def uart_first_def
        uart_sent_def)
qed

text \<open>What \<open>uartstart\<close> does: it moves the front of the buffer to the transmitter, as far as it can.\<close>

definition uart_drained :: "'z cons_state_scheme \<Rightarrow> 'z cons_state_scheme \<Rightarrow> bool" where
  "uart_drained s t \<longleftrightarrow> uart_ok t \<and> uart_on t \<and> uart_stream t = uart_stream s \<and>
     (uart_contents t = [] \<or> uart_room t = 0) \<and> held t = held s \<and> curproc t = curproc s \<and> mem t = mem s"

lemma uartstart_loop_drains:
  assumes "uart_on s" and "uart_ok s" and "length (uart_contents s) = n"
  shows "\<exists>t. uartstart_loop n s = Ret () t \<and> uart_drained s t"
  using assms
proof (induction n arbitrary: s)
  case 0
  then show ?case by (simp add: uart_drained_def)
next
  case (Suc n)
  have ne: "\<not> uart_empty s" using Suc.prems by (auto simp: uart_queue.empty_iff)
  show ?case
  proof (cases "uart_room s = 0")
    case True
    then have "uartstart_loop (Suc n) s = Ret () s"
      using ne by (simp add: prog_simps uart_empty_def)
    then show ?thesis using True Suc.prems by (simp add: uart_drained_def)
  next
    case False
    note pop = uart_queue.pop_contents [OF Suc.prems(2) ne]
    have "length (uart_contents (uart_take s)) = n" using pop Suc.prems(3) by simp
    then obtain t where "uartstart_loop n (uart_sent s) = Ret () t" "uart_drained (uart_sent s) t"
      using Suc.IH [of "uart_sent s"] Suc.prems(1) pop by auto
    then show ?thesis
      using uartstart_step [OF Suc.prems(1) ne False, of n] pop
      by (auto simp: uart_drained_def uart_stream_def)
  qed
qed

lemma uartstart_drains:
  assumes "uart_on s" and "uart_ok s"
  shows "\<exists>t. uartstart s = Ret () t \<and> uart_drained s t"
  using uartstart_loop_drains [OF assms] by (simp add: uartstart_def prog_simps uart_contents_def)

text \<open>
  C25: output through \<open>uartputc\<close> is a stream. When the buffer is not full, \<open>uartputc c\<close> returns with \<open>c\<close>
  added at the end of the bytes sent so far and still buffered, in order, whatever the counters were
  and even if they wrap around; and it does not stall: at the end the buffer is empty or the
  transmitter is busy, so that an interrupt will come. When the buffer is full the caller sleeps, with
  the lock released and nothing changed.
\<close>

theorem uartputc_stream:
  assumes "held s = {}" and "curproc s = Some i" and "\<not> panicked s" and "\<not> bit (uart_lcr s) 7" and "uart_ok s"
  shows "if length (uart_contents s) < UART_TX_BUF_SIZE
         then \<exists>t. uartputc c s = Ret () t \<and> uart_ok t \<and> uart_stream t = uart_stream s @ [c] \<and>
                (uart_contents t = [] \<or> uart_room t = 0) \<and> held t = {}
         else uartputc c s = Switch (asleep i ChUart s)"
proof -
  let ?s = "s\<lparr>held := {LUart}\<rparr>"
  have ok: "uart_ok ?s" "uart_contents ?s = uart_contents s" "uart_stream ?s = uart_stream s"
    using assms(5) by (simp_all add: uart_ok_def uart_contents_def uart_stream_def)
  have run: "uartputc c s = uartputc_loop c ?s"
    using assms(1,3) by (simp add: uartputc_def prog_simps)
  show ?thesis
  proof (cases "length (uart_contents s) < UART_TX_BUF_SIZE")
    case True
    then have nf: "\<not> uart_full ?s" using ok by (auto simp: uart_queue.full_iff)
    note put = uart_queue.put_contents [OF ok(1) nf, of c]
    have "uart_on (uart_put c ?s)" using assms(4) by (auto simp: uart_on_def uart_put_def)
    from uartstart_drains [OF this conjunct1 [OF put]] obtain t where
        t: "uartstart (uart_put c ?s) = Ret () t" "uart_drained (uart_put c ?s) t" by blast
    have h: "held t = {LUart}" using t(2) by (simp add: uart_drained_def uart_put_def)
    have "uartputc_loop c ?s = Ret () (t\<lparr>held := {}\<rparr>)"
      using nf t(1) h by (simp add: uartputc_loop_def prog_simps uart_full_def uart_put_def)
    moreover have "uart_stream t = uart_stream s @ [c]"
      using t(2) put ok(2,3) by (simp add: uart_drained_def uart_stream_def uart_put_def)
    ultimately show ?thesis
      using True t(2) run by (auto simp: uart_drained_def uart_ok_def uart_contents_def uart_stream_def)
  next
    case False
    then have "uart_full ?s"
      using ok uart_queue.bounded [OF ok(1)] by (simp add: uart_queue.full_iff)
    then show ?thesis
      using False run sleep_asleep [of ?s i LUart ChUart] assms(2)
      by (simp add: uartputc_loop_def prog_simps uart_full_def asleep_def)
  qed
qed

theorem uartputc_stream_witness:
  "\<exists>t. uartputc 65 cons_example = Ret () t \<and> uart_stream t = [65]"
  using uartputc_stream [of cons_example 0 65]
  by (auto simp: cons_example_defs uart_ok_def uart_contents_def uart_stream_def ring_def UART_TX_BUF_SIZE_def)

section \<open>Output without the buffer\<close>

definition uart_echo :: "u8 list \<Rightarrow> 'z cons_state_scheme \<Rightarrow> 'z cons_state_scheme" where
  "uart_echo cs s = s\<lparr>uart_out := uart_out s @ cs, uart_room := uart_room s - length cs\<rparr>"

definition uart_live :: "'z cons_state_scheme \<Rightarrow> bool" where
  "uart_live s \<longleftrightarrow> \<not> panicked s \<and> \<not> bit (uart_lcr s) 7"

lemma uart_echo_simps [simp]:
  "uart_live (uart_echo cs s) = uart_live s" "uart_echo [] s = s"
  "uart_echo ds (uart_echo cs s) = uart_echo (cs @ ds) s"
  "held (uart_echo cs s) = held s" "procs (uart_echo cs s) = procs s" "curproc (uart_echo cs s) = curproc s"
  "pr_locking (uart_echo cs s) = pr_locking s" "cons_r (uart_echo cs s) = cons_r s"
  "cons_w (uart_echo cs s) = cons_w s" "cons_e (uart_echo cs s) = cons_e s"
  "cons_buf (uart_echo cs s) = cons_buf s" "uart_out (uart_echo cs s) = uart_out s @ cs"
  by (simp_all add: uart_echo_def uart_live_def)

lemma uart_echo_held: "(uart_echo cs s)\<lparr>held := h\<rparr> = uart_echo cs (s\<lparr>held := h\<rparr>)"
  by (simp add: uart_echo_def)

lemma uartputc_sync_echo: "uart_live s \<Longrightarrow> uartputc_sync c s = Ret () (uart_echo [c] s)"
  by (auto simp: uartputc_sync_def uart_live_def WriteReg_def uart_echo_def prog_simps)

lemma consputc_echo:
  "uart_live s \<Longrightarrow> consputc c s = Ret () (uart_echo (if c = BACKSPACE then [8, 32, 8] else [ucast c]) s)"
  by (simp add: consputc_def prog_simps uartputc_sync_echo)

lemma byte_not_backspace [simp]: "ucast (c :: u8) \<noteq> BACKSPACE"
proof
  assume "ucast c = BACKSPACE"
  then have "unat (ucast c :: u32) = 256" by (simp add: BACKSPACE_def)
  moreover have "unat c < 2 ^ LENGTH(8)" by (rule unsigned_less)
  ultimately show False by (simp add: unsigned_ucast_eq take_bit_eq_mod)
qed

lemma ucast_byte [simp]: "(ucast (ucast (c :: u8) :: u32) :: u8) = c"
  by (rule bit_eqI) (simp add: bit_ucast_iff)

lemma consputs_echo: "uart_live s \<Longrightarrow> consputs cs s = Ret () (uart_echo cs s)"
proof (induction cs arbitrary: s)
  case Nil
  then show ?case by (simp add: consputs_def)
next
  case (Cons c cs)
  then show ?case by (simp add: consputs_def prog_simps consputc_echo)
qed

lemma procdump_printf_echo:
  assumes "uart_live s" and "LPr \<notin> held s"
  shows "\<exists>cs. printf ''%d %s %s'' [AInt x, AStr (Some y), AStr (Some z)] s = Ret () (uart_echo cs s)"
    and "printf (CHR 0x0A # []) [] s = Ret () (uart_echo [10] s)"
proof -
  have l: "uart_live (s\<lparr>held := h\<rparr>)" for h using assms(1) by (simp add: uart_live_def)
  have fmt: "bytes_of ''%d %s %s'' = [37, 100, 32, 37, 115, 32, 37, 115]" "bytes_of (CHR 0x0A # []) = [10]"
      "chr (CHR ''%'') = 37" "chr (CHR ''d'') = 100" "chr (CHR ''s'') = 115" "chr (CHR ''x'') = 120"
      "chr (CHR ''p'') = 112"
    by (simp_all add: bytes_of_def chr_def)
  show "\<exists>cs. printf ''%d %s %s'' [AInt x, AStr (Some y), AStr (Some z)] s = Ret () (uart_echo cs s)"
    using assms l by (auto simp: printf_def prog_simps fmt printint_def consputs_echo consputc_echo
        uart_echo_held)
  show "printf (CHR 0x0A # []) [] s = Ret () (uart_echo [10] s)"
    using assms l by (auto simp: printf_def prog_simps fmt consputc_echo uart_echo_held BACKSPACE_def)
qed

lemma procdump_slot_echo:
  assumes "uart_live t" and "LPr \<notin> held t"
  shows "\<exists>cs. procdump_slot i t = Ret () (uart_echo cs t)"
proof (cases "pstate (procs t i) = UNUSED")
  case True
  then have "procdump_slot i t = Ret () (uart_echo [] t)" by (simp add: procdump_slot_def prog_simps)
  then show ?thesis by blast
next
  case False
  obtain cs where "printf ''%d %s %s'' [AInt (pid (procs t i)),
      AStr (Some (bytes_of (state_name (pstate (procs t i))))), AStr (Some (cstr (pname (procs t i)) 16))] t =
      Ret () (uart_echo cs t)"
    using procdump_printf_echo(1) [OF assms] by blast
  then have "procdump_slot i t = Ret () (uart_echo (cs @ [10]) t)"
    using False procdump_printf_echo(2) [of "uart_echo cs t"] assms
    by (simp add: procdump_slot_def prog_simps)
  then show ?thesis by blast
qed

lemma procdump_slots_echo:
  assumes "uart_live t" and "LPr \<notin> held t"
  shows "\<exists>cs. block (map procdump_slot is) t = Ret () (uart_echo cs t)"
  using assms
proof (induction "is" arbitrary: t)
  case Nil
  have "block (map procdump_slot []) t = Ret () (uart_echo [] t)" by simp
  then show ?case by blast
next
  case (Cons i js)
  obtain cs where cs: "procdump_slot i t = Ret () (uart_echo cs t)"
    using procdump_slot_echo [OF Cons.prems] by blast
  obtain ds where "block (map procdump_slot js) (uart_echo cs t) = Ret () (uart_echo ds (uart_echo cs t))"
    using Cons.IH [of "uart_echo cs t"] Cons.prems by auto
  then have "block (map procdump_slot (i # js)) t = Ret () (uart_echo (cs @ ds) t)"
    using cs by (simp add: seqp_apply)
  then show ?case by blast
qed

lemma procdump_echo:
  assumes "uart_live s" and "LPr \<notin> held s"
  shows "\<exists>cs. procdump s = Ret () (uart_echo cs s)"
  using procdump_slots_echo [of "uart_echo [10] s" "[0..<NPROC]"] procdump_printf_echo(2) [OF assms] assms
  unfolding procdump_def seqp_apply by auto

section \<open>The line discipline\<close>

text \<open>
  The specification of terminal input: the bytes ready for the reader and the line being typed. A
  byte typed is a command of the editor or is added to the line; the line is handed over when it
  ends or when the buffer is full.
\<close>

definition tty_type :: "u8 \<Rightarrow> u8 list \<times> u8 list \<Rightarrow> u8 list \<times> u8 list" where
  "tty_type c = (\<lambda>(rd, ln).
     if c = 0x10 then (rd, ln)
     else if c = 0x15 then (rd, [])
     else if c = 8 \<or> c = 0x7F then (rd, butlast ln)
     else if c = 0 \<or> 128 \<le> length rd + length ln then (rd, ln)
     else let d = (if c = 13 then 10 else c) in
       if d = 10 \<or> d = 4 \<or> length rd + length ln = 127 then (rd @ ln @ [d], []) else (rd, ln @ [d]))"

definition tty_echo :: "u8 \<Rightarrow> u8 list \<times> u8 list \<Rightarrow> u8 list" where
  "tty_echo c = (\<lambda>(rd, ln).
     if c = 0x15 then concat (map (\<lambda>_. [8, 32, 8]) ln)
     else if c = 8 \<or> c = 0x7F then (if ln = [] then [] else [8, 32, 8])
     else if c = 0 \<or> 128 \<le> length rd + length ln then []
     else [if c = 13 then 10 else c])"

definition cons_ready :: "'z cons_state_scheme \<Rightarrow> u8 list" where
  "cons_ready s = ring 128 (cons_buf s) (cons_r s) (cons_w s)"

definition cons_line :: "'z cons_state_scheme \<Rightarrow> u8 list" where
  "cons_line s = ring 128 (cons_buf s) (cons_w s) (cons_e s)"

definition cons_ok :: "'z cons_state_scheme \<Rightarrow> bool" where
  "cons_ok s \<longleftrightarrow> unat (cons_w s - cons_r s) + unat (cons_e s - cons_w s) \<le> 128 \<and> 10 \<notin> set (cons_line s)"

lemma cons_at_mod: "cons_at i = unat i mod 128"
  by (simp add: cons_at_def INPUT_BUF_SIZE_def unat_mod)

lemma cons_used:
  assumes "cons_ok s"
  shows "unat (cons_e s - cons_r s) = length (cons_ready s) + length (cons_line s)"
proof -
  have "cons_e s - cons_r s = (cons_w s - cons_r s) + (cons_e s - cons_w s)" by simp
  also have "unat \<dots> = unat (cons_w s - cons_r s) + unat (cons_e s - cons_w s)"
    using assms by (subst unat_add_lem [THEN iffD1]) (simp_all add: cons_ok_def)
  finally show ?thesis by (simp add: cons_ready_def cons_line_def)
qed

lemma cons_lengths:
  "length (cons_ready s) = unat (cons_w s - cons_r s)" "length (cons_line s) = unat (cons_e s - cons_w s)"
  by (simp_all add: cons_ready_def cons_line_def)

lemma cons_line_empty: "cons_e s = cons_w s \<longleftrightarrow> cons_line s = []"
  by (auto simp: cons_line_def ring_empty)

lemma cons_erase:
  assumes "cons_ok s" and "cons_e s \<noteq> cons_w s"
  defines "t \<equiv> s\<lparr>cons_e := cons_e s - 1\<rparr>"
  shows "cons_ok t" "cons_ready t = cons_ready s" "cons_line t = butlast (cons_line s)"
    "cons_buf s (cons_at (cons_e s - 1)) \<noteq> 10"
proof -
  have l: "cons_line s = cons_line t @ [cons_buf s (cons_at (cons_e s - 1))]"
    using ring_unpush [of 128 "cons_w s" "cons_e s" "cons_buf s"] assms(2)
    by (simp add: t_def cons_line_def cons_at_mod)
  then show "cons_line t = butlast (cons_line s)" by simp
  show "cons_buf s (cons_at (cons_e s - 1)) \<noteq> 10" using assms(1) l by (auto simp: cons_ok_def)
  show "cons_ready t = cons_ready s" by (simp add: t_def cons_ready_def)
  show "cons_ok t"
    using assms(1) arg_cong [OF l, of length] l unfolding cons_lengths
    by (auto simp: cons_ok_def t_def cons_lengths)
qed

lemma cons_frame [simp]:
  "cons_ok (uart_echo cs s) = cons_ok s" "cons_line (uart_echo cs s) = cons_line s"
  "cons_ready (uart_echo cs s) = cons_ready s" "uart_live (s\<lparr>cons_e := e\<rparr>) = uart_live s"
  "uart_live (s\<lparr>cons_buf := b\<rparr>) = uart_live s" "uart_live (s\<lparr>held := h\<rparr>) = uart_live s"
  "cons_ok (s\<lparr>held := h\<rparr>) = cons_ok s" "cons_line (s\<lparr>held := h\<rparr>) = cons_line s"
  "cons_ready (s\<lparr>held := h\<rparr>) = cons_ready s"
  by (simp_all add: cons_ok_def cons_line_def cons_ready_def uart_live_def)

lemma kill_line_all:
  assumes "cons_ok s" and "uart_live s" and "length (cons_line s) = n"
  shows "kill_line n s = Ret () (uart_echo (concat (replicate n [8, 32, 8])) (s\<lparr>cons_e := cons_w s\<rparr>))"
  using assms
proof (induction n arbitrary: s)
  case 0
  then have "cons_e s = cons_w s" by (simp add: cons_line_empty)
  then show ?case by simp
next
  case (Suc n)
  then have ne: "cons_e s \<noteq> cons_w s" by (auto simp: cons_line_empty)
  let ?t = "uart_echo [8, 32, 8] (s\<lparr>cons_e := cons_e s - 1\<rparr>)"
  note er = cons_erase [OF Suc.prems(1) ne]
  have step: "kill_line (Suc n) s = kill_line n ?t"
    using ne er(4) Suc.prems(2) by (simp add: prog_simps consputc_echo)
  have t: "cons_ok ?t" "uart_live ?t" "length (cons_line ?t) = n"
    using er Suc.prems(2,3) by simp_all
  show ?case
    unfolding step Suc.IH [OF t] by (simp add: uart_echo_def)
qed

lemma cons_type:
  fixes d :: u8
  assumes ok: "cons_ok s" and room: "length (cons_ready s) + length (cons_line s) < 128"
  defines "t \<equiv> s\<lparr>cons_buf := (cons_buf s)(cons_at (cons_e s) := d), cons_e := cons_e s + 1\<rparr>"
  shows "cons_ready t = cons_ready s" "cons_line t = cons_line s @ [d]"
    "unat (cons_e t - cons_r t) = Suc (length (cons_ready s) + length (cons_line s))"
    "unat (cons_w t - cons_r t) + unat (cons_e t - cons_w t) \<le> 128"
proof -
  have P: "(128::nat) dvd 2 ^ LENGTH(32)" "(128::nat) < 2 ^ LENGTH(32)" by simp_all
  let ?b = "(cons_buf s)(unat (cons_e s) mod 128 := d)"
  have u: "unat (cons_e s - cons_r s) < 128" using room cons_used [OF ok] by simp
  have ul: "unat (cons_e s - cons_w s) < 128" using room by (simp add: cons_lengths)
  note all = ring_push(1) [OF P u, of "cons_buf s" d] ring_push(2) [OF P u]
  have s: "ring 128 (cons_buf s) (cons_r s) (cons_e s) = cons_ready s @ cons_line s"
    unfolding cons_ready_def cons_line_def using room by (intro ring_append) (simp_all add: cons_lengths)
  have le: "unat (cons_e s + 1 - cons_w s) = Suc (unat (cons_e s - cons_w s))" by (rule ring_push(2) [OF P ul])
  have t: "ring 128 ?b (cons_r s) (cons_e s + 1) = cons_ready t @ cons_line t"
    unfolding cons_ready_def cons_line_def t_def using room le
    by (simp add: cons_at_mod, intro ring_append) (simp_all add: cons_lengths)
  have "cons_ready t @ cons_line t = cons_ready s @ cons_line s @ [d]" using all(1) s t by simp
  moreover have "length (cons_ready t) = length (cons_ready s)" by (simp add: cons_lengths t_def)
  ultimately show "cons_ready t = cons_ready s" "cons_line t = cons_line s @ [d]" by simp_all
  show "unat (cons_e t - cons_r t) = Suc (length (cons_ready s) + length (cons_line s))"
    using all(2) cons_used [OF ok] by (simp add: t_def)
  show "unat (cons_w t - cons_r t) + unat (cons_e t - cons_w t) \<le> 128"
    using room le by (simp add: t_def cons_lengths)
qed

text \<open>The state in which an interrupt finds the console, and the branches of \<open>consoleintr\<close>.\<close>

definition cons_start :: "'z cons_state_scheme \<Rightarrow> bool" where
  "cons_start s \<longleftrightarrow> held s = {} \<and> uart_live s \<and> cons_ok s"

definition typed :: "u8 \<Rightarrow> 'z cons_state_scheme \<Rightarrow> 'z cons_state_scheme \<Rightarrow> bool" where
  "typed c s t \<longleftrightarrow> cons_start t \<and> (cons_ready t, cons_line t) = tty_type c (cons_ready s, cons_line s) \<and>
     (c \<noteq> 0x10 \<longrightarrow> uart_out t = uart_out s @ tty_echo c (cons_ready s, cons_line s)) \<and>
     procs t = (if cons_ready t = cons_ready s then procs s else awaken (curproc s) ChCons (procs s))"

lemma consoleintr_list:
  assumes "cons_start s" and "c = 0x10"
  shows "\<exists>t. consoleintr c s = Ret () t \<and> typed c s t"
proof -
  let ?s = "s\<lparr>held := {LCons}\<rparr>"
  obtain cs where "procdump ?s = Ret () (uart_echo cs ?s)"
    using procdump_echo [of ?s] assms(1) by (auto simp: cons_start_def)
  then have "consoleintr c s = Ret () ((uart_echo cs ?s)\<lparr>held := {}\<rparr>)"
    using assms by (simp add: consoleintr_def prog_simps cons_start_def)
  then show ?thesis
    using assms by (auto simp: typed_def tty_type_def cons_start_def)
qed

lemma consoleintr_kill:
  assumes "cons_start s" and "c = 0x15"
  shows "\<exists>t. consoleintr c s = Ret () t \<and> typed c s t"
proof -
  let ?s = "s\<lparr>held := {LCons}\<rparr>" and ?cs = "concat (replicate (length (cons_line s)) [8, 32, 8])"
  let ?t = "uart_echo ?cs (s\<lparr>cons_e := cons_w s\<rparr>)"
  have "kill_line (length (cons_line s)) ?s = Ret () (uart_echo ?cs (?s\<lparr>cons_e := cons_w ?s\<rparr>))"
    using assms(1) by (intro kill_line_all) (simp_all add: cons_start_def)
  moreover have "unat (cons_e s - cons_w s) = length (cons_line s)" by (simp add: cons_lengths)
  ultimately have "consoleintr c s = Ret () ((uart_echo ?cs (?s\<lparr>cons_e := cons_w s\<rparr>))\<lparr>held := {}\<rparr>)"
    using assms by (simp add: consoleintr_def prog_simps cons_start_def)
  also have "(uart_echo ?cs (?s\<lparr>cons_e := cons_w s\<rparr>))\<lparr>held := {}\<rparr> = ?t"
    using assms(1) by (simp add: uart_echo_def cons_start_def)
  finally have run: "consoleintr c s = Ret () ?t" .
  have "cons_ready ?t = cons_ready s" "cons_line ?t = []"
    by (simp_all add: cons_ready_def cons_line_def ring_def)
  moreover have "cons_ok ?t" using assms(1) by (simp add: cons_start_def cons_ok_def cons_line_def ring_def)
  moreover have "?cs = concat (map (\<lambda>_. [8, 32, 8]) (cons_line s))" by (simp add: map_replicate_const)
  ultimately show ?thesis
    using run assms by (auto simp: typed_def tty_type_def tty_echo_def cons_start_def)
qed

lemma consoleintr_erase:
  assumes "cons_start s" and "c = 8 \<or> c = 0x7F"
  shows "\<exists>t. consoleintr c s = Ret () t \<and> typed c s t"
proof (cases "cons_e s = cons_w s")
  case True
  then have "consoleintr c s = Ret () s"
    using assms by (auto simp: consoleintr_def prog_simps cons_start_def)
  then show ?thesis
    using True assms by (auto simp: typed_def tty_type_def tty_echo_def cons_line_empty)
next
  case False
  let ?t = "uart_echo [8, 32, 8] (s\<lparr>cons_e := cons_e s - 1\<rparr>)"
  have "consoleintr c s = Ret () ?t"
    using False assms by (auto simp: consoleintr_def prog_simps cons_start_def consputc_echo uart_echo_def)
  moreover have "cons_ok s" using assms(1) by (simp add: cons_start_def)
  ultimately show ?thesis
    using False cons_erase [of s] assms
    by (auto simp: typed_def tty_type_def tty_echo_def cons_start_def cons_line_empty)
qed

definition stored :: "u8 \<Rightarrow> 'z cons_state_scheme \<Rightarrow> 'z cons_state_scheme" where
  "stored d s = s\<lparr>cons_buf := (cons_buf s)(cons_at (cons_e s) := d), cons_e := cons_e s + 1\<rparr>"

definition ends_line :: "u8 \<Rightarrow> 'z cons_state_scheme \<Rightarrow> bool" where
  "ends_line d s \<longleftrightarrow> d = 10 \<or> d = 4 \<or> length (cons_ready s) + length (cons_line s) = 127"

definition handed :: "'z cons_state_scheme \<Rightarrow> 'z cons_state_scheme" where
  "handed s = woken ChCons (s\<lparr>cons_w := cons_e s\<rparr>)"

lemma consoleintr_store:
  assumes s: "cons_start s" and c: "c \<noteq> 0x10" "c \<noteq> 0x15" "c \<noteq> 8" "c \<noteq> 0x7F" "c \<noteq> 0"
    and room: "length (cons_ready s) + length (cons_line s) < 128"
    and d: "d = (if c = 13 then 10 else c)"
  shows "consoleintr c s = Ret () (uart_echo [d] (if ends_line d s then handed (stored d s) else stored d s))"
proof -
  have ok: "cons_ok s" "held s = {}" "uart_live s" using s by (simp_all add: cons_start_def)
  let ?s = "s\<lparr>held := {LCons}\<rparr>"
  define t where "t = uart_echo [d] (stored d ?s)"
  have t: "(uart_echo [d] ?s)\<lparr>cons_buf := (cons_buf s)(cons_at (cons_e s) := d), cons_e := cons_e s + 1\<rparr> = t"
      "held t = {LCons}" "cons_e t = cons_e s + 1" "cons_r t = cons_r s"
    by (simp_all add: t_def stored_def uart_echo_def)
  have "cons_e s - cons_r s < INPUT_BUF_SIZE"
    using room cons_used [OF ok(1)] by (simp add: word_less_nat_alt INPUT_BUF_SIZE_def)
  moreover have "cons_e t - cons_r t = INPUT_BUF_SIZE \<longleftrightarrow> length (cons_ready s) + length (cons_line s) = 127"
    unfolding t(3,4) using cons_type(3) [OF ok(1) room, of d]
    by (simp add: word_unat_eq_iff INPUT_BUF_SIZE_def)
  moreover have "wakeup ChCons (t\<lparr>cons_w := cons_e t\<rparr>) = Ret () (handed t)"
    unfolding handed_def by (rule wakeup_woken) (auto simp: t(2))
  moreover have "held (handed t) = {LCons}" by (simp add: handed_def t(2))
  ultimately have "consoleintr c s = Ret () ((if ends_line d s then handed t else t)\<lparr>held := {}\<rparr>)"
    using c ok t by (simp add: consoleintr_def prog_simps consputc_echo d [symmetric] Let_def ends_line_def)
  also have "(if ends_line d s then handed t else t)\<lparr>held := {}\<rparr> =
      uart_echo [d] (if ends_line d s then handed (stored d s) else stored d s)"
    using ok(2) by (simp add: t_def handed_def stored_def uart_echo_def woken_def)
  finally show ?thesis .
qed

lemma stored_typed:
  assumes ok: "cons_ok s" and room: "length (cons_ready s) + length (cons_line s) < 128"
  shows "cons_ready (stored d s) = cons_ready s" "cons_line (stored d s) = cons_line s @ [d]"
    "d \<noteq> 10 \<Longrightarrow> cons_ok (stored d s)"
    "cons_ready (handed (stored d s)) = cons_ready s @ cons_line s @ [d]" "cons_line (handed (stored d s)) = []"
    "cons_ok (handed (stored d s))"
proof -
  let ?t = "stored d s"
  note ty = cons_type [OF ok room, of d, folded stored_def]
  show "cons_ready ?t = cons_ready s" "cons_line ?t = cons_line s @ [d]" using ty by simp_all
  show "cons_ok ?t" if "d \<noteq> 10" using that ok ty by (simp add: cons_ok_def)
  have "ring 128 (cons_buf ?t) (cons_r ?t) (cons_e ?t) = cons_ready s @ cons_line s @ [d]"
    using ring_append [of 128 "cons_w ?t" "cons_r ?t" "cons_e ?t" "cons_buf ?t"] ty(4)
    by (simp add: ty(1,2) cons_ready_def [symmetric] cons_line_def [symmetric])
  then show r: "cons_ready (handed ?t) = cons_ready s @ cons_line s @ [d]"
    by (simp add: handed_def woken_def cons_ready_def)
  show l: "cons_line (handed ?t) = []" by (simp add: handed_def woken_def cons_line_def ring_def)
  have "cons_e (handed ?t) = cons_w (handed ?t)" by (simp add: handed_def woken_def)
  then show "cons_ok (handed ?t)"
    using arg_cong [OF r, of length] l room by (simp add: cons_ok_def cons_lengths)
qed

lemma stored_frame [simp]:
  "held (stored d s) = held s" "procs (stored d s) = procs s" "curproc (stored d s) = curproc s"
  "uart_out (stored d s) = uart_out s" "uart_live (stored d s) = uart_live s"
  "held (handed s) = held s" "uart_out (handed s) = uart_out s" "uart_live (handed s) = uart_live s"
  "procs (handed s) = awaken (curproc s) ChCons (procs s)"
  by (simp_all add: stored_def handed_def woken_def uart_live_def)

lemma consoleintr_char:
  assumes s: "cons_start s" and c: "c \<noteq> 0x10" "c \<noteq> 0x15" "c \<noteq> 8" "c \<noteq> 0x7F"
  shows "\<exists>t. consoleintr c s = Ret () t \<and> typed c s t"
proof -
  have ok: "cons_ok s" using s by (simp add: cons_start_def)
  define d where "d = (if c = 13 then 10 else c)"
  have full: "cons_e s - cons_r s < INPUT_BUF_SIZE \<longleftrightarrow> length (cons_ready s) + length (cons_line s) < 128"
    using cons_used [OF ok] by (simp add: word_less_nat_alt INPUT_BUF_SIZE_def)
  show ?thesis
  proof (cases "c \<noteq> 0 \<and> length (cons_ready s) + length (cons_line s) < 128")
    case False
    then have "consoleintr c s = Ret () s"
      using s c full by (auto simp: consoleintr_def prog_simps cons_start_def)
    then show ?thesis using False s c by (auto simp: typed_def tty_type_def tty_echo_def)
  next
    case True
    then have room: "length (cons_ready s) + length (cons_line s) < 128" and c0: "c \<noteq> 0" by simp_all
    have "typed c s (uart_echo [d] (if ends_line d s then handed (stored d s) else stored d s))"
      using s c c0 room stored_typed [OF ok room, of d]
      by (auto simp: typed_def cons_start_def tty_type_def tty_echo_def Let_def d_def [symmetric] ends_line_def)
    then show ?thesis using consoleintr_store [OF s c c0 room d_def] by simp
  qed
qed

text \<open>
  C24: the line discipline. Whatever byte arrives, \<open>consoleintr\<close> returns, and the bytes ready for the
  reader and the line being typed become what the specification of the editor says: erase and kill
  act on the line only, never on what was handed over, a full buffer drops the byte, and the line is
  handed over at a newline, at control-D and when the buffer is full. What is echoed is what was
  typed or the erasure of it, and readers are woken exactly when the ready bytes change.
\<close>

theorem consoleintr_refines:
  assumes "cons_start s"
  shows "\<exists>t. consoleintr c s = Ret () t \<and> cons_start t \<and>
           (cons_ready t, cons_line t) = tty_type c (cons_ready s, cons_line s) \<and>
           (c \<noteq> 0x10 \<longrightarrow> uart_out t = uart_out s @ tty_echo c (cons_ready s, cons_line s)) \<and>
           procs t = (if cons_ready t = cons_ready s then procs s else awaken (curproc s) ChCons (procs s))"
  using consoleintr_list [OF assms, of c] consoleintr_kill [OF assms, of c] consoleintr_erase [OF assms, of c]
    consoleintr_char [OF assms, of c] unfolding typed_def by blast

theorem consoleintr_refines_witness:
  "\<exists>t. consoleintr 13 cons_example = Ret () t \<and> cons_ready t = [10] \<and> uart_out t = [10]"
  using consoleintr_refines [of cons_example 13]
  by (auto simp: cons_start_def uart_live_def cons_ok_def cons_ready_def cons_line_def ring_def cons_example_defs
      tty_type_def tty_echo_def)

end
