(* ===== verification/Pipes.thy ===== *)
theory Pipes
  imports File
begin

text \<open>
  What \<open>pipewrite\<close> and \<open>piperead\<close> do, as calls by a process: the bytes that move between the memory of
  the process and the queue of the pipe, when the call sleeps, and whom it wakes.
\<close>

section \<open>Running the loops\<close>

lemma getpipe_apply [simp, prog_simps]: "getpipe pi g s = Ret (g (pipes s pi)) s"
  by (simp add: getpipe_def)

lemma woken_pipes [simp]: "pipes (woken ch s) = pipes s"
  by (simp add: woken_def)

text \<open>A process \<open>pr\<close> inside the critical section of the pipe \<open>pi\<close>.\<close>

definition in_pipe :: "'z file_state_scheme \<Rightarrow> nat \<Rightarrow> u64 \<Rightarrow> bool" where
  "in_pipe s pr pi \<longleftrightarrow> held s = {LPipe pi} \<and> curproc s = Some pr \<and>
     pt_wf KERNBASE (mem s) (pagetable (procs s pr)) \<and> user_ok (mem s) (pagetable (procs s pr)) \<and>
     pipe_ok (pipes s pi)"

definition with_pipe :: "'z file_state_scheme \<Rightarrow> u64 \<Rightarrow> pipe \<Rightarrow> 'z file_state_scheme" where
  "with_pipe s pi p = s\<lparr>pipes := (pipes s)(pi := p)\<rparr>"

lemma with_pipe_simps [simp]:
  "pipes (with_pipe s pi p) = (pipes s)(pi := p)" "mem (with_pipe s pi p) = mem s"
  "procs (with_pipe s pi p) = procs s" "held (with_pipe s pi p) = held s"
  "curproc (with_pipe s pi p) = curproc s"
  "with_pipe (with_pipe s pi p) pi q = with_pipe s pi q"
  "with_pipe s pi (pipes s pi) = s"
  "(with_pipe s pi p)\<lparr>mem := m\<rparr> = with_pipe (s\<lparr>mem := m\<rparr>) pi p"
  by (simp_all add: with_pipe_def)

lemma setpipe_with [simp, prog_simps]: "setpipe pi g s = Ret () (with_pipe s pi (g (pipes s pi)))"
  by (simp add: setpipe_def with_pipe_def)

lemma pipe_done_apply:
  assumes "held s = {LPipe pi}"
  shows "pipe_done ch pi n s = Ret (int n) ((woken ch s)\<lparr>held := {}\<rparr>)"
proof -
  have "held s \<inter> range LProc = {}" using assms by auto
  from wakeup_woken [OF this, of ch] show ?thesis
    using assms by (simp add: pipe_done_def prog_simps)
qed

lemma pipe_put_fields [simp]:
  "readopen (pipe_put c p) = readopen p" "writeopen (pipe_put c p) = writeopen p"
  by (simp_all add: pipe_put_def)

section \<open>Writing\<close>

lemma pipewrite_byte:
  assumes env: "in_pipe s pr pi" and live: "readopen (pipes s pi) \<noteq> 0" "pkilled (procs s pr) = 0"
    and room: "\<not> pipe_full (pipes s pi)"
  shows "ubyte (mem s) (pagetable (procs s pr)) (addr + of_nat i) = Some c \<Longrightarrow>
      pipewrite_loop (Suc k) pr pi addr i s =
      pipewrite_loop k pr pi addr (Suc i) (with_pipe s pi (pipe_put c (pipes s pi)))"
    and "ubyte (mem s) (pagetable (procs s pr)) (addr + of_nat i) = None \<Longrightarrow>
      pipewrite_loop (Suc k) pr pi addr i s = pipe_done (ChPipeRead pi) pi i s"
proof -
  let ?pt = "pagetable (procs s pr)" and ?va = "addr + of_nat i"
  have e: "LProc pr \<notin> held s" "pt_wf KERNBASE (mem s) ?pt" using env by (auto simp: in_pipe_def)
  have u: "umapped (mem s) ?pt ?va 1 \<longleftrightarrow> ubyte (mem s) ?pt ?va \<noteq> None" by (simp add: umapped_def)
  note c = copyin_loop_correct [OF e(2), of ?va 1 "[]", folded copyin_def, unfolded u]
  have run: "pipewrite_loop (Suc k) pr pi addr i s =
     bindp (copyin ?pt ?va 1) (\<lambda>(r, c). if r = - 1 then pipe_done (ChPipeRead pi) pi i
       else seqp (setpipe pi (pipe_put (hd c))) (pipewrite_loop k pr pi addr (Suc i))) s"
    using live room killed_apply [OF e(1)] by (simp add: prog_simps)
  show "pipewrite_loop (Suc k) pr pi addr i s =
      pipewrite_loop k pr pi addr (Suc i) (with_pipe s pi (pipe_put c (pipes s pi)))"
    if "ubyte (mem s) ?pt ?va = Some c"
    unfolding run using c that by (simp add: ubytes_def prog_simps)
  show "pipewrite_loop (Suc k) pr pi addr i s = pipe_done (ChPipeRead pi) pi i s"
    if "ubyte (mem s) ?pt ?va = None"
    unfolding run using c that by (auto simp: prog_simps)
qed

lemma umapped_Suc:
  "umapped m pt va (Suc n) \<longleftrightarrow> (\<exists>c. ubyte m pt va = Some c) \<and> umapped m pt (va + 1) n"
  using umapped_add [of m pt va 1 n] by (auto simp: umapped_def)

lemma ubytes_Suc: "ubytes m pt va (Suc n) = the (ubyte m pt va) # ubytes m pt (va + 1) n"
  using ubytes_add [of m pt va 1 n] by (simp add: ubytes_def)

lemma pipewrite_prefix:
  assumes "in_pipe s pr pi" and "readopen (pipes s pi) \<noteq> 0" "pkilled (procs s pr) = 0"
    and "umapped (mem s) (pagetable (procs s pr)) (addr + of_nat i) j"
    and "length (pipe_contents (pipes s pi)) + j \<le> PIPESIZE"
  shows "pipewrite_loop (j + k) pr pi addr i s = pipewrite_loop k pr pi addr (i + j) (with_pipe s pi
           (fold pipe_put (ubytes (mem s) (pagetable (procs s pr)) (addr + of_nat i) j) (pipes s pi)))"
  using assms
proof (induction j arbitrary: i s)
  case 0
  then show ?case by (simp add: ubytes_def)
next
  case (Suc j)
  obtain c where c: "ubyte (mem s) (pagetable (procs s pr)) (addr + of_nat i) = Some c"
    and m: "umapped (mem s) (pagetable (procs s pr)) (addr + of_nat (Suc i)) j"
    using Suc.prems(4) by (auto simp: umapped_Suc algebra_simps)
  have ok: "pipe_ok (pipes s pi)" using Suc.prems(1) by (simp add: in_pipe_def)
  have room: "\<not> pipe_full (pipes s pi)"
    using Suc.prems(5) by (simp add: pipe_queue.full_iff [OF ok])
  define t where "t = with_pipe s pi (pipe_put c (pipes s pi))"
  note put = pipe_queue.put_contents [OF ok room, of c]
  have t: "in_pipe t pr pi" "readopen (pipes t pi) \<noteq> 0" "pkilled (procs t pr) = 0"
      "umapped (mem t) (pagetable (procs t pr)) (addr + of_nat (Suc i)) j"
      "length (pipe_contents (pipes t pi)) + j \<le> PIPESIZE"
    using Suc.prems m put by (simp_all add: t_def in_pipe_def)
  have "pipewrite_loop (Suc j + k) pr pi addr i s = pipewrite_loop (j + k) pr pi addr (Suc i) t"
    using pipewrite_byte(1) [OF Suc.prems(1-3) room c, of "j + k"] by (simp add: t_def)
  also note Suc.IH [OF t, unfolded add_Suc]
  finally show ?case by (simp add: t_def ubytes_Suc c algebra_simps del: pipewrite_loop.simps)
qed

section \<open>Reading\<close>

lemma pipe_take_fields [simp]:
  "readopen (pipe_take p) = readopen p" "writeopen (pipe_take p) = writeopen p"
  by (simp_all add: pipe_take_def)

lemma piperead_byte:
  assumes env: "in_pipe s pr pi" and ne: "\<not> pipe_empty (pipes s pi)"
  shows "\<exists>m'. uwrote (pagetable (procs s pr)) (mem s) m' (addr + of_nat i)
      (if ubyte (mem s) (pagetable (procs s pr)) (addr + of_nat i) = None then [] else [pipe_first (pipes s pi)]) \<and>
    piperead_copy (Suc k) pr pi addr i s =
      (if ubyte (mem s) (pagetable (procs s pr)) (addr + of_nat i) = None then pipe_done (ChPipeWrite pi) pi i
       else piperead_copy k pr pi addr (Suc i))
      (with_pipe (s\<lparr>mem := m'\<rparr>) pi (pipe_take (pipes s pi)))"
proof -
  let ?pt = "pagetable (procs s pr)" and ?va = "addr + of_nat i" and ?c = "pipe_first (pipes s pi)"
  let ?s = "with_pipe s pi (pipe_take (pipes s pi))"
  have wf: "pt_wf KERNBASE (mem ?s) ?pt" "user_ok (mem ?s) ?pt" using env by (auto simp: in_pipe_def)
  have l: "length [?c] < 2 ^ 64" by simp
  obtain m' n where c: "copyout ?pt ?va [?c] ?s = Ret (if n = length [?c] then 0 else - 1) (?s\<lparr>mem := m'\<rparr>)"
      "n \<le> 1" "umapped (mem s) ?pt ?va n" "uwrote ?pt (mem s) m' ?va (take n [?c])"
      "n < 1 \<longrightarrow> ubyte (mem s) ?pt ?va = None"
    using copyout_writes [OF wf l, of ?va] by fastforce
  have n: "n = (if ubyte (mem s) ?pt ?va = None then 0 else 1)"
    using c(2,3,5) by (cases n) (auto simp: umapped_def)
  have "piperead_copy (Suc k) pr pi addr i s = bindp (copyout ?pt ?va [?c])
      (\<lambda>r. if r = - 1 then pipe_done (ChPipeWrite pi) pi i else piperead_copy k pr pi addr (Suc i)) ?s"
    using ne by (simp add: prog_simps)
  then show ?thesis using c(1,4) n by (intro exI [of _ m']) (auto simp: prog_simps)
qed

lemma piperead_prefix:
  assumes "in_pipe s pr pi" and "umapped (mem s) (pagetable (procs s pr)) (addr + of_nat i) j"
    and "j \<le> length (pipe_contents (pipes s pi))" and "j < 2 ^ 64"
  shows "\<exists>m'. uwrote (pagetable (procs s pr)) (mem s) m' (addr + of_nat i) (take j (pipe_contents (pipes s pi))) \<and>
    piperead_copy (j + k) pr pi addr i s =
      piperead_copy k pr pi addr (i + j) (with_pipe (s\<lparr>mem := m'\<rparr>) pi ((pipe_take ^^ j) (pipes s pi)))"
  using assms
proof (induction j arbitrary: i s)
  case 0
  then show ?case by (auto intro: exI [of _ "mem s"] simp: uwrote_Nil)
next
  case (Suc j)
  let ?pt = "pagetable (procs s pr)" and ?va = "addr + of_nat i" and ?q = "pipes s pi"
  have ok: "pipe_ok ?q" using Suc.prems(1) by (simp add: in_pipe_def)
  have ne: "\<not> pipe_empty ?q" using Suc.prems(3) by (auto simp: pipe_queue.empty_iff [OF ok])
  have c: "ubyte (mem s) ?pt ?va \<noteq> None" and m: "umapped (mem s) ?pt (?va + 1) j"
    using Suc.prems(2) by (auto simp: umapped_Suc)
  obtain m1 where m1: "uwrote ?pt (mem s) m1 ?va [pipe_first ?q]"
      "piperead_copy (Suc (j + k)) pr pi addr i s =
       piperead_copy (j + k) pr pi addr (Suc i) (with_pipe (s\<lparr>mem := m1\<rparr>) pi (pipe_take ?q))"
    using piperead_byte [OF Suc.prems(1) ne, of addr i "j + k"] c by auto
  define t where "t = with_pipe (s\<lparr>mem := m1\<rparr>) pi (pipe_take ?q)"
  note pop = pipe_queue.pop_contents [OF ok ne]
  have "pt_wf KERNBASE m1 ?pt = pt_wf KERNBASE (mem s) ?pt" using m1(1) by (simp add: uwrote_def)
  then have t: "in_pipe t pr pi" "umapped (mem t) (pagetable (procs t pr)) (addr + of_nat (Suc i)) j"
      "j \<le> length (pipe_contents (pipes t pi))" "j < 2 ^ 64"
    using Suc.prems m pop uwrote_user_ok [OF m1(1)] uwrote_umapped [OF m1(1)]
    by (simp_all add: t_def in_pipe_def algebra_simps)
  obtain m2 where m2: "uwrote ?pt m1 m2 (addr + of_nat (Suc i)) (take j (pipe_contents (pipe_take ?q)))"
      "piperead_copy (j + k) pr pi addr (Suc i) t = piperead_copy k pr pi addr (Suc i + j)
        (with_pipe (t\<lparr>mem := m2\<rparr>) pi ((pipe_take ^^ j) (pipe_take ?q)))"
    using Suc.IH [OF t] by (auto simp: t_def)
  have "uwrote ?pt (mem s) m2 ?va ([pipe_first ?q] @ take j (pipe_contents (pipe_take ?q)))"
    using m1(1) m2(1) Suc.prems(4) by (intro uwrote_append) (simp_all add: algebra_simps)
  moreover have "[pipe_first ?q] @ take j (pipe_contents (pipe_take ?q)) = take (Suc j) (pipe_contents ?q)"
    using pop by simp
  ultimately show ?case
    using m1(2) m2(2) by (intro exI [of _ m2]) (simp add: t_def funpow_swap1)
qed

section \<open>Properties\<close>

lemma woken_held: "(woken ch (s\<lparr>held := h\<rparr>))\<lparr>held := g\<rparr> = woken ch (s\<lparr>held := g\<rparr>)"
  unfolding woken_def by simp

lemma with_pipe_held: "(with_pipe s pi p)\<lparr>held := h\<rparr> = with_pipe (s\<lparr>held := h\<rparr>) pi p"
  by (simp add: with_pipe_def)

lemma woken_held_with: "held s = {} \<Longrightarrow>
    (woken ch (with_pipe (s\<lparr>held := h\<rparr>) pi p))\<lparr>held := {}\<rparr> = woken ch (with_pipe s pi p)"
  unfolding woken_def with_pipe_def by simp

lemma pipe_done_with:
  assumes "held s = {}"
  shows "pipe_done ch pi j (with_pipe (s\<lparr>held := {LPipe pi}\<rparr>) pi q) =
    Ret (int j) (woken ch (with_pipe s pi q))"
  using assms by (simp add: pipe_done_apply woken_held_with)

lemma pipe_put_fold [simp]:
  "readopen (fold pipe_put cs p) = readopen p" "writeopen (fold pipe_put cs p) = writeopen p"
  by (induction cs arbitrary: p) simp_all

lemma pipewrite_full:
  assumes "in_pipe s pr pi" and "readopen (pipes s pi) \<noteq> 0" "pkilled (procs s pr) = 0"
    and "pipe_full (pipes s pi)"
  shows "pipewrite_loop (Suc k) pr pi addr i s =
    Switch (asleep pr (ChPipeWrite pi) (woken (ChPipeRead pi) s))"
proof -
  let ?t = "woken (ChPipeRead pi) s"
  have h: "held s = {LPipe pi}" "curproc s = Some pr" using assms(1) by (simp_all add: in_pipe_def)
  then have "sleep (ChPipeWrite pi) (LPipe pi) ?t = Switch (asleep pr (ChPipeWrite pi) ?t)"
    by (subst sleep_apply [of _ pr]) (simp_all add: asleep_def)
  moreover have "held s \<inter> range LProc = {}" using h by auto
  ultimately show ?thesis
    using assms(2-4) h by (simp add: prog_simps killed_apply wakeup_woken)
qed

lemma pipewrite_loop_run:
  fixes s :: "'z file_state_scheme" and pr :: nat and addr :: u64
  defines "c \<equiv> pipe_contents" and "bs \<equiv> ubytes (mem s) (pagetable (procs s pr)) addr"
  assumes env: "in_pipe s pr pi" and live: "readopen (pipes s pi) \<noteq> 0" "pkilled (procs s pr) = 0"
    and j: "j \<le> len" "umapped (mem s) (pagetable (procs s pr)) addr j"
      "j < len \<Longrightarrow> ubyte (mem s) (pagetable (procs s pr)) (addr + of_nat j) = None"
    and room: "room = PIPESIZE - length (c (pipes s pi))"
  shows "\<exists>q. pipe_ok q \<and> c q = c (pipes s pi) @ bs (min j room) \<and>
    pipewrite_loop len pr pi addr 0 s =
      (if j < room \<or> len \<le> room then pipe_done (ChPipeRead pi) pi j (with_pipe s pi q)
       else Switch (asleep pr (ChPipeWrite pi) (woken (ChPipeRead pi) (with_pipe s pi q))))"
proof -
  define i where "i = min j room"
  define q where "q = fold pipe_put (bs i) (pipes s pi)"
  have ok: "pipe_ok (pipes s pi)" using env by (simp add: in_pipe_def)
  have le: "length (c (pipes s pi)) \<le> PIPESIZE" unfolding c_def by (rule pipe_queue.bounded [OF ok])
  have q: "pipe_ok q" "c q = c (pipes s pi) @ bs i"
    using pipe_queue.puts_contents [OF ok, of "bs i"] le room by (simp_all add: q_def c_def bs_def i_def)
  have il: "i + (len - i) = len" using j(1) by (simp add: i_def)
  have "umapped (mem s) (pagetable (procs s pr)) (addr + of_nat 0) i" using j(2) by (simp add: i_def umapped_def)
  from pipewrite_prefix [OF env live this, of "len - i"]
  have run: "pipewrite_loop len pr pi addr 0 s = pipewrite_loop (len - i) pr pi addr i (with_pipe s pi q)"
    unfolding il using le room by (simp add: q_def bs_def i_def c_def)
  have env2: "in_pipe (with_pipe s pi q) pr pi" using env q by (simp add: in_pipe_def)
  have live2: "readopen (pipes (with_pipe s pi q) pi) \<noteq> 0" "pkilled (procs (with_pipe s pi q) pr) = 0"
    using live by (simp_all add: q_def)
  have full: "pipe_full q \<longleftrightarrow> room \<le> i"
    using q(2) room le unfolding pipe_queue.full_iff [OF q(1)] c_def bs_def by (auto simp: i_def)
  have "pipewrite_loop (len - i) pr pi addr i (with_pipe s pi q) =
      (if j < room \<or> len \<le> room then pipe_done (ChPipeRead pi) pi j (with_pipe s pi q)
       else Switch (asleep pr (ChPipeWrite pi) (woken (ChPipeRead pi) (with_pipe s pi q))))"
  proof (cases "len - i")
    case 0
    then show ?thesis using j(1) by (auto simp: i_def)
  next
    case (Suc k)
    show ?thesis
    proof (cases "room \<le> i")
      case True
      then show ?thesis using pipewrite_full [OF env2 live2, of k addr i] full Suc by (auto simp: i_def)
    next
      case False
      then have "i = j" "j < room" "j < len" using Suc by (auto simp: i_def)
      then show ?thesis using pipewrite_byte(2) [OF env2 live2, of addr i k] full j(3) Suc by simp
    qed
  qed
  then show ?thesis using q run by (auto simp: i_def)
qed

text \<open>
  C29: the bytes that a process writes to a pipe are appended to its queue, in order. With a reader
  and a live caller, let \<open>j\<close> be the number of the \<open>len\<close> bytes at \<open>addr\<close> that are mapped. When these
  fit, or the call stops at an unmapped byte before the pipe is full, \<open>pipewrite\<close> appends them,
  wakes the readers and returns \<open>j\<close>. Otherwise it fills the pipe to its capacity, wakes the readers
  and sleeps with the lock of the pipe released. No byte of the pipe is overwritten.
\<close>

theorem pipewrite_queue:
  fixes s :: "'z file_state_scheme"
  defines "c \<equiv> \<lambda>p. pipe_contents p" and "pt \<equiv> \<lambda>s pr. pagetable (procs s pr)"
  assumes "held s = {}" and "curproc s = Some pr" and "pt_wf KERNBASE (mem s) (pt s pr)"
    and "user_ok (mem s) (pt s pr)" and "pipe_ok (pipes s pi)"
    and "readopen (pipes s pi) \<noteq> 0" and "pkilled (procs s pr) = 0"
    and "len = nat (sint n)" and "j \<le> len" and "umapped (mem s) (pt s pr) addr j"
    and "j < len \<Longrightarrow> ubyte (mem s) (pt s pr) (addr + of_nat j) = None"
    and "room = PIPESIZE - length (c (pipes s pi))"
  shows "\<exists>q. pipe_ok q \<and>
    (if j < room \<or> len \<le> room
     then c q = c (pipes s pi) @ ubytes (mem s) (pt s pr) addr j \<and>
       pipewrite pi addr n s = Ret (int j) (woken (ChPipeRead pi) (with_pipe s pi q))
     else c q = c (pipes s pi) @ ubytes (mem s) (pt s pr) addr room \<and> length (c q) = PIPESIZE \<and>
       pipewrite pi addr n s =
         Switch (asleep pr (ChPipeWrite pi) (woken (ChPipeRead pi) (with_pipe s pi q))))"
proof -
  define s1 where "s1 = s\<lparr>held := {LPipe pi}\<rparr>"
  have "in_pipe s1 pr pi" using assms by (simp add: s1_def in_pipe_def)
  then obtain q where q: "pipe_ok q" "c q = c (pipes s pi) @ ubytes (mem s) (pt s pr) addr (min j room)"
      "pipewrite_loop len pr pi addr 0 s1 =
        (if j < room \<or> len \<le> room then pipe_done (ChPipeRead pi) pi j (with_pipe s1 pi q)
         else Switch (asleep pr (ChPipeWrite pi) (woken (ChPipeRead pi) (with_pipe s1 pi q))))"
    using pipewrite_loop_run [of s1 pr pi j len addr room] assms(8-14) by (auto simp: s1_def c_def pt_def)
  have "pipewrite pi addr n s = pipewrite_loop len pr pi addr 0 s1"
    using assms by (simp add: pipewrite_def prog_simps s1_def)
  moreover note q(3) pipe_done_with [OF assms(3), of "ChPipeRead pi" pi j q, folded s1_def]
  moreover have "asleep pr (ChPipeWrite pi) (woken (ChPipeRead pi) (with_pipe s1 pi q)) =
      asleep pr (ChPipeWrite pi) (woken (ChPipeRead pi) (with_pipe s pi q))"
    unfolding asleep_def woken_def with_pipe_def s1_def by simp
  moreover have "length (c (pipes s pi)) \<le> PIPESIZE" unfolding c_def by (rule pipe_queue.bounded [OF assms(7)])
  moreover have "min j room = j" if "j < room \<or> len \<le> room" using that assms(11) by auto
  moreover have "min j room = room" if "\<not> (j < room \<or> len \<le> room)" using that by simp
  ultimately show ?thesis using q(1,2) assms(14) by (intro exI [of _ q]) auto
qed

text \<open>One byte of an empty pipe, from and to the user page of the example.\<close>

lemma pipe_example:
  "held file_example = {}" "curproc file_example = Some 0" "pkilled (procs file_example 0) = 0"
  "pagetable (procs file_example 0) = KERNBASE" "mem file_example = user_mem"
  "readopen (pipes file_example p) \<noteq> 0" "pipe_ok (pipes file_example p)"
  "pipe_contents (pipes file_example p) = []" "writeopen (pipes file_example p) \<noteq> 0"
  by (simp_all add: file_example_defs proc0_def pipe_ok_def pipe_contents_def ring_def)

lemma user_byte: "ubyte user_mem KERNBASE 0 = Some 0" "umapped user_mem KERNBASE 0 1"
  using user_example_ok(3) user_mem_zero by (simp_all add: user_example_def umapped_def)

theorem pipewrite_queue_witness:
  "\<exists>q. pipe_contents q = [0] \<and>
    pipewrite KERNBASE 0 1 file_example = Ret 1 (woken (ChPipeRead KERNBASE) (with_pipe file_example KERNBASE q))"
  using pipewrite_queue [of file_example 0 KERNBASE 1 1 1 0 PIPESIZE] pipe_example user_mem_ok user_byte
  by (auto simp: PIPESIZE_def ubytes_def)

lemma piperead_stop:
  fixes s :: "'z file_state_scheme" and r :: nat and pi :: u64
  defines "none \<equiv> r = 0 \<or> pipe_contents (pipes s pi) = []"
  assumes env: "in_pipe s pr pi" and "none \<or> ubyte (mem s) (pagetable (procs s pr)) (addr + of_nat j) = None"
  shows "\<exists>m' q. uwrote (pagetable (procs s pr)) (mem s) m' (addr + of_nat j) [] \<and> pipe_ok q \<and>
    pipe_contents q = (if none then pipe_contents (pipes s pi) else tl (pipe_contents (pipes s pi))) \<and>
    piperead_copy r pr pi addr j s = pipe_done (ChPipeWrite pi) pi j (with_pipe (s\<lparr>mem := m'\<rparr>) pi q)"
proof (cases none)
  case True
  have ok: "pipe_ok (pipes s pi)" using env by (simp add: in_pipe_def)
  have "with_pipe (s\<lparr>mem := mem s\<rparr>) pi (pipes s pi) = s" by simp
  moreover have "piperead_copy r pr pi addr j s = pipe_done (ChPipeWrite pi) pi j s"
    using True pipe_queue.empty_iff [OF ok] by (cases r) (simp_all add: none_def prog_simps)
  ultimately show ?thesis using True ok uwrote_Nil by (intro exI [of _ "mem s"] exI [of _ "pipes s pi"]) simp
next
  case False
  have ok: "pipe_ok (pipes s pi)" using env by (simp add: in_pipe_def)
  obtain r' where r: "r = Suc r'" using False by (cases r) (simp_all add: none_def)
  have ne: "\<not> pipe_empty (pipes s pi)" using False pipe_queue.empty_iff [OF ok] by (simp add: none_def)
  show ?thesis
    using piperead_byte [OF env ne, of addr j r'] pipe_queue.pop_contents [OF ok ne] False assms(3)
    by (auto simp: r simp del: piperead_copy.simps)
qed

lemma piperead_copy_run:
  fixes s :: "'z file_state_scheme" and pr :: nat
  defines "c \<equiv> pipe_contents" and "pt \<equiv> pagetable (procs s pr)"
  assumes env: "in_pipe s pr pi" and k: "k = min r (length (c (pipes s pi)))" "j \<le> k"
    and m: "umapped (mem s) pt addr j" "j < k \<Longrightarrow> ubyte (mem s) pt (addr + of_nat j) = None"
  shows "\<exists>m' q. uwrote pt (mem s) m' addr (take j (c (pipes s pi))) \<and> pipe_ok q \<and>
    c q = drop (if j < k then Suc j else j) (c (pipes s pi)) \<and>
    piperead_copy r pr pi addr 0 s = pipe_done (ChPipeWrite pi) pi j (with_pipe (s\<lparr>mem := m'\<rparr>) pi q)"
proof -
  have ok: "pipe_ok (pipes s pi)" using env by (simp add: in_pipe_def)
  have jl: "j \<le> length (pipe_contents (pipes s pi))" "j < 2 ^ 64" "j + (r - j) = r"
    using k pipe_queue.bounded [OF ok] by (simp_all add: c_def PIPESIZE_def)
  have mj: "umapped (mem s) (pagetable (procs s pr)) (addr + of_nat 0) j" using m(1) by (simp add: pt_def)
  define q where "q = (pipe_take ^^ j) (pipes s pi)"
  have q: "pipe_ok q" "c q = drop j (c (pipes s pi))"
    using pipe_queue.pops_contents [OF ok, of j] jl(1) by (simp_all add: q_def c_def)
  obtain m1 where m1: "uwrote pt (mem s) m1 addr (take j (c (pipes s pi)))"
      "piperead_copy r pr pi addr 0 s = piperead_copy (r - j) pr pi addr j (with_pipe (s\<lparr>mem := m1\<rparr>) pi q)"
    using piperead_prefix [OF env mj jl(1,2), of "r - j"] unfolding jl(3) by (auto simp: pt_def c_def q_def)
  define t where "t = with_pipe (s\<lparr>mem := m1\<rparr>) pi q"
  have t: "mem t = m1" "pagetable (procs t pr) = pt" "pipes t pi = q" by (simp_all add: t_def pt_def)
  have none: "r - j = 0 \<or> pipe_contents q = [] \<longleftrightarrow> \<not> j < k" using k q(2) by (auto simp: c_def)
  have "pt_wf KERNBASE m1 pt = pt_wf KERNBASE (mem s) pt" using m1(1) by (simp add: uwrote_def)
  then have "in_pipe t pr pi" using env q(1) uwrote_user_ok [OF m1(1)] by (simp add: t_def in_pipe_def pt_def)
  moreover have "j < k \<Longrightarrow> ubyte m1 pt (addr + of_nat j) = None"
    using m(2) uwrote_uwalk [OF m1(1)] by (simp add: ubyte_None)
  ultimately obtain m2 q2 where m2: "uwrote pt m1 m2 (addr + of_nat j) []" "pipe_ok q2"
      "c q2 = (if \<not> j < k then c q else tl (c q))"
      "piperead_copy (r - j) pr pi addr j t = pipe_done (ChPipeWrite pi) pi j (with_pipe (t\<lparr>mem := m2\<rparr>) pi q2)"
    using piperead_stop [of t pr pi "r - j" addr j] unfolding t none c_def by blast
  have "uwrote pt (mem s) m2 addr (take j (c (pipes s pi)) @ [])"
    using m1(1) m2(1) jl by (intro uwrote_append) (auto simp: min_def c_def)
  moreover have "c q2 = drop (if j < k then Suc j else j) (c (pipes s pi))"
    using m2(3) q(2) by (simp add: drop_Suc tl_drop)
  ultimately show ?thesis using m1(2) m2(2,4) by (intro exI [of _ m2] exI [of _ q2]) (simp add: t_def)
qed

text \<open>
  C30: a process reads from a pipe the oldest bytes of its queue, in order. When there is something to
  read or no writer is left, \<open>piperead\<close> stores the first bytes of the queue at \<open>addr\<close>, as many as were
  asked for and are there and up to the first address that is not mapped, wakes the writers and
  returns their number \<open>j\<close>. Exactly the bytes that were stored leave the queue, except that the byte
  for an unmapped address leaves it as well and is lost. On an empty pipe with a writer, a live
  caller sleeps with the lock of the pipe released.
\<close>

theorem piperead_queue:
  fixes s :: "'z file_state_scheme"
  defines "c \<equiv> \<lambda>p. pipe_contents p" and "pt \<equiv> \<lambda>s pr. pagetable (procs s pr)"
  assumes "held s = {}" and "curproc s = Some pr" and "pt_wf KERNBASE (mem s) (pt s pr)"
    and "user_ok (mem s) (pt s pr)" and "pipe_ok (pipes s pi)"
    and "k = min (nat (sint n)) (length (c (pipes s pi)))" and "j \<le> k"
    and "umapped (mem s) (pt s pr) addr j"
    and "j < k \<Longrightarrow> ubyte (mem s) (pt s pr) (addr + of_nat j) = None"
  shows "if c (pipes s pi) = [] \<and> writeopen (pipes s pi) \<noteq> 0
    then pkilled (procs s pr) = 0 \<longrightarrow> piperead pi addr n s = Switch (asleep pr (ChPipeRead pi) s)
    else \<exists>m' q. uwrote (pt s pr) (mem s) m' addr (take j (c (pipes s pi))) \<and> pipe_ok q \<and>
      c q = drop (if j < k then Suc j else j) (c (pipes s pi)) \<and>
      piperead pi addr n s = Ret (int j) (woken (ChPipeWrite pi) (with_pipe (s\<lparr>mem := m'\<rparr>) pi q))"
proof -
  define s1 where "s1 = s\<lparr>held := {LPipe pi}\<rparr>"
  have env: "in_pipe s1 pr pi" using assms by (simp add: s1_def in_pipe_def)
  have emp: "pipe_empty (pipes s pi) \<longleftrightarrow> c (pipes s pi) = []"
    unfolding c_def by (rule pipe_queue.empty_iff [OF assms(7)])
  have start: "piperead pi addr n s = piperead_loop (nat (sint n)) pr pi addr s1"
    using assms by (simp add: piperead_def prog_simps s1_def)
  show ?thesis
  proof (cases "c (pipes s pi) = [] \<and> writeopen (pipes s pi) \<noteq> 0")
    case True
    have "sleep (ChPipeRead pi) (LPipe pi) s1 = Switch (asleep pr (ChPipeRead pi) s)"
      using assms by (subst sleep_apply [of _ pr]) (simp_all add: asleep_def s1_def)
    then show ?thesis
      using True emp start by (auto simp: piperead_loop_def prog_simps killed_apply s1_def)
  next
    case False
    obtain m' q where q: "uwrote (pt s pr) (mem s) m' addr (take j (c (pipes s pi)))" "pipe_ok q"
        "c q = drop (if j < k then Suc j else j) (c (pipes s pi))"
        "piperead_copy (nat (sint n)) pr pi addr 0 s1 = pipe_done (ChPipeWrite pi) pi j (with_pipe (s1\<lparr>mem := m'\<rparr>) pi q)"
      using piperead_copy_run [OF env, of k "nat (sint n)" j addr] assms(8-11) by (auto simp: s1_def c_def pt_def)
    have "piperead pi addr n s = piperead_copy (nat (sint n)) pr pi addr 0 s1"
      using False emp start by (auto simp: piperead_loop_def prog_simps s1_def)
    moreover have "held (s\<lparr>mem := m'\<rparr>) = {}" "s\<lparr>mem := m', held := {LPipe pi}\<rparr> = s1\<lparr>mem := m'\<rparr>"
      using assms(3) by (simp_all add: s1_def)
    moreover note pipe_done_with [OF this(1), of "ChPipeWrite pi" pi j q]
    ultimately have "piperead pi addr n s = Ret (int j) (woken (ChPipeWrite pi) (with_pipe (s\<lparr>mem := m'\<rparr>) pi q))"
      using q(4) by simp
    then show ?thesis using q(1-3) unfolding if_not_P [OF False] by blast
  qed
qed

definition pipe_one :: file_state where
  "pipe_one = with_pipe file_example KERNBASE (pipe_put 7 (pipes file_example KERNBASE))"

theorem piperead_queue_witness:
  "\<exists>m' q. ubyte m' KERNBASE 0 = Some 7 \<and> pipe_contents q = [] \<and>
    piperead KERNBASE 0 2 pipe_one = Ret 1 (woken (ChPipeWrite KERNBASE) (with_pipe (pipe_one\<lparr>mem := m'\<rparr>) KERNBASE q))"
proof -
  have nf: "\<not> pipe_full (pipes file_example KERNBASE)"
    using pipe_example by (simp add: pipe_queue.full_iff PIPESIZE_def)
  have one: "pipe_ok (pipes pipe_one KERNBASE)" "pipe_contents (pipes pipe_one KERNBASE) = [7]"
    using pipe_queue.put_contents [OF pipe_example(7) nf] pipe_example(8) by (simp_all add: pipe_one_def)
  have env: "held pipe_one = {}" "curproc pipe_one = Some 0" "pagetable (procs pipe_one 0) = KERNBASE"
      "mem pipe_one = user_mem"
    using pipe_example by (simp_all add: pipe_one_def)
  obtain m' q where "uwrote KERNBASE user_mem m' 0 [7]" "pipe_contents q = []"
    "piperead KERNBASE 0 2 pipe_one = Ret 1 (woken (ChPipeWrite KERNBASE) (with_pipe (pipe_one\<lparr>mem := m'\<rparr>) KERNBASE q))"
    using piperead_queue [of pipe_one 0 KERNBASE 1 2 1 0] one env user_mem_ok user_byte by auto
  moreover from this(1) have "ubyte m' KERNBASE 0 = Some 7" by (simp add: uwrote_def)
  ultimately show ?thesis by blast
qed

text \<open>
  C31: a pipe is a first-in first-out queue of at most 512 bytes. Over any sequence of writes of a
  byte while the pipe is not full and reads of a byte while it is not empty, on a pipe whose
  counters may wrap around, the bytes read followed by those still in the pipe are the bytes that
  were there followed by those written.
\<close>

theorem pipe_fifo:
  assumes "pipe_ok p" and "pipe_queue.serve_queue ops p = (written, got, p')"
  shows "pipe_ok p' \<and> pipe_contents p @ written = got @ pipe_contents p' \<and>
    length (pipe_contents p') \<le> PIPESIZE"
  using pipe_queue.fifo [OF assms] pipe_queue.bounded by simp

theorem pipe_fifo_witness:
  "\<exists>p'. pipe_queue.serve_queue [Put 1, Put 2, Get] (pipes file_example 0\<lparr>nread := 0xFFFFFFFF, nwrite := 0xFFFFFFFF\<rparr>) =
      ([1, 2], [1], p') \<and> pipe_contents p' = [2]"
proof -
  let ?p = "pipes file_example 0\<lparr>nread := 0xFFFFFFFF, nwrite := 0xFFFFFFFF\<rparr>"
  have ok: "pipe_ok ?p" "pipe_contents ?p = []" by (simp_all add: pipe_ok_def pipe_contents_def ring_def)
  obtain p' where r: "pipe_queue.serve_queue [Put 1, Put 2, Get] ?p = ([1, 2], [1], p')"
    by (simp add: pipe_full_def pipe_empty_def pipe_put_def pipe_first_def pipe_take_def PIPESIZE_def)
  from pipe_fifo [OF ok(1) r] ok(2) r show ?thesis by auto
qed

end
