(* ===== verification/Trap.thy ===== *)
theory Trap
  imports Virtio
begin

text \<open>
  \<open>kernel/trap.c\<close>, \<open>kernel/plic.c\<close>, \<open>forkret\<close> of \<open>kernel/proc.c\<close>, \<open>kvminithart\<close> of \<open>kernel/vm.c\<close>,
  \<open>kernel/main.c\<close> and \<open>kernel/start.c\<close>. The control registers of the hart are fields of the state,
  and so are the addresses of the assembly routines. What the interrupt controller answers to the
  next claim is \<open>plic_pending\<close>; its other registers are kept by address.

  \<open>usertrapret\<close> leaves the kernel: its result is the address in the trampoline page that it jumps
  to and the value for \<open>satp\<close> that it passes there.
\<close>

record trap_state = vd_state +
  sstatus :: u64
  sepc :: u64
  scause :: u64
  stval :: u64
  stvec :: u64
  satp :: u64
  sip :: u64
  tp :: u64
  kernelvec :: u64
  uservec :: u64
  userret :: u64
  usertrap_addr :: u64
  plic :: "u64 \<Rightarrow> u32"
  plic_pending :: u32
  plic_completed :: "u32 list"
  first :: bool
  started :: bool

definition SSTATUS_SPP :: u64 where "SSTATUS_SPP = push_bit 8 1"
definition SSTATUS_SPIE :: u64 where "SSTATUS_SPIE = push_bit 5 1"
definition SSTATUS_SIE :: u64 where "SSTATUS_SIE = push_bit 1 1"
definition UART0_IRQ :: u32 where "UART0_IRQ = 10"
definition VIRTIO0_IRQ :: u32 where "VIRTIO0_IRQ = 1"
definition PLIC :: u64 where "PLIC = 0x0c000000"

abbreviation TF_kernel_satp :: u64 where "TF_kernel_satp \<equiv> 0"
abbreviation TF_kernel_sp :: u64 where "TF_kernel_sp \<equiv> 8"
abbreviation TF_kernel_trap :: u64 where "TF_kernel_trap \<equiv> 16"
abbreviation TF_kernel_hartid :: u64 where "TF_kernel_hartid \<equiv> 32"

definition MAKE_SATP :: "u64 \<Rightarrow> u64" where
  "MAKE_SATP pt = push_bit 60 8 OR drop_bit 12 pt"

definition intr_on :: "('z trap_state_scheme, unit) prog" where
  "intr_on = modify (\<lambda>s. s\<lparr>sstatus := sstatus s OR SSTATUS_SIE\<rparr>)"

definition intr_off :: "('z trap_state_scheme, unit) prog" where
  "intr_off = modify (\<lambda>s. s\<lparr>sstatus := sstatus s AND NOT SSTATUS_SIE\<rparr>)"

definition cpuid :: "('z trap_state_scheme, u32) prog" where
  "cpuid = gets (\<lambda>s. ucast (tp s))"

section \<open>plic.c\<close>

definition plic_write :: "u64 \<Rightarrow> u32 \<Rightarrow> ('z trap_state_scheme, unit) prog" where
  "plic_write a v = modify (\<lambda>s. s\<lparr>plic := (plic s)(a := v)\<rparr>)"

definition plicinit :: "('z trap_state_scheme, unit) prog" where
  "plicinit =
     block
      [plic_write (PLIC + ucast UART0_IRQ * 4) 1,
       plic_write (PLIC + ucast VIRTIO0_IRQ * 4) 1]"

definition plicinithart :: "('z trap_state_scheme, unit) prog" where
  "plicinithart =
     bindp cpuid (\<lambda>hart.
     block
      [plic_write (PLIC + 0x2080 + ucast hart * 0x100) (push_bit (unat UART0_IRQ) 1 OR push_bit (unat VIRTIO0_IRQ) 1),
       plic_write (PLIC + 0x201000 + ucast hart * 0x2000) 0])"

text \<open>Reading the claim register takes the pending interrupt.\<close>

definition plic_claim :: "('z trap_state_scheme, u32) prog" where
  "plic_claim =
     bindp (gets plic_pending) (\<lambda>irq.
     seqp (modify (\<lambda>s. s\<lparr>plic_pending := 0\<rparr>)) (
     ret irq))"

definition plic_complete :: "u32 \<Rightarrow> ('z trap_state_scheme, unit) prog" where
  "plic_complete irq = modify (\<lambda>s. s\<lparr>plic_completed := plic_completed s @ [irq]\<rparr>)"

section \<open>trap.c\<close>

definition trapinit :: "('z trap_state_scheme, unit) prog" where
  "trapinit = lock_init LTicks"

definition trapinithart :: "('z trap_state_scheme, unit) prog" where
  "trapinithart = modify (\<lambda>s. s\<lparr>stvec := kernelvec s\<rparr>)"

definition clockintr :: "('z sys_state_scheme, unit) prog" where
  "clockintr =
     block
      [lock_acquire LTicks,
       modify (\<lambda>s. s\<lparr>ticks := ticks s + 1\<rparr>),
       wakeup ChTicks,
       lock_release LTicks]"

definition devintr :: "('z trap_state_scheme, int) prog" where
  "devintr =
     bindp (gets scause) (\<lambda>c.
     if c AND 0x8000000000000000 \<noteq> 0 \<and> c AND 0xff = 9 then
       bindp plic_claim (\<lambda>irq.
       seqp (block
        [if irq = UART0_IRQ then uartintr
         else if irq = VIRTIO0_IRQ then virtio_disk_intr
         else whenp (irq \<noteq> 0) (printf (''unexpected interrupt irq=%d'' @ [CHR 0x0A]) [AInt irq]),
         whenp (irq \<noteq> 0) (plic_complete irq)]) (
       ret 1))
     else if c = 0x8000000000000001 then
       bindp cpuid (\<lambda>hart.
       seqp (block
        [whenp (hart = 0) clockintr,
         modify (\<lambda>s. s\<lparr>sip := sip s AND NOT 2\<rparr>)]) (
       ret 2))
     else ret 0)"

definition usertrapret :: "('z trap_state_scheme, u64 \<times> u64) prog" where
  "usertrapret =
     with_proc (\<lambda>i.
     seqp (block
      [intr_off,
       modify (\<lambda>s. s\<lparr>stvec := TRAMPOLINE + (uservec s - trampoline s)\<rparr>),
       bindp (gets satp) (tf_set i TF_kernel_satp),
       bindp (getp i kstack) (\<lambda>k. tf_set i TF_kernel_sp (k + PGSIZE)),
       bindp (gets usertrap_addr) (tf_set i TF_kernel_trap),
       bindp (gets tp) (tf_set i TF_kernel_hartid),
       modify (\<lambda>s. s\<lparr>sstatus := sstatus s AND NOT SSTATUS_SPP OR SSTATUS_SPIE\<rparr>),
       bindp (tf_get i TF_epc) (\<lambda>pc. modify (\<lambda>s. s\<lparr>sepc := pc\<rparr>))]) (
     bindp (getp i pagetable) (\<lambda>pt.
     bindp (gets (\<lambda>s. TRAMPOLINE + (userret s - trampoline s))) (\<lambda>a.
     ret (a, MAKE_SATP pt)))))"

text \<open>The part of \<open>usertrap\<close> after the cause is handled.\<close>

definition usertrap_end :: "nat \<Rightarrow> int \<Rightarrow> ('z trap_state_scheme, u64 \<times> u64) prog" where
  "usertrap_end i which_dev =
     bindp (killed i) (\<lambda>k.
     seqp (block
      [whenp (k \<noteq> 0) (exit (- 1)),
       whenp (which_dev = 2) yield]) usertrapret)"

definition usertrap :: "('z trap_state_scheme, u64 \<times> u64) prog" where
  "usertrap =
     bindp (gets sstatus) (\<lambda>st.
     if st AND SSTATUS_SPP \<noteq> 0 then panic ''usertrap: not from user mode'' else
     seqp (modify (\<lambda>s. s\<lparr>stvec := kernelvec s\<rparr>)) (
     with_proc (\<lambda>i.
     seqp (bindp (gets sepc) (tf_set i TF_epc)) (
     bindp (gets scause) (\<lambda>c.
     if c = 8 then
       bindp (killed i) (\<lambda>k.
       seqp (block
        [whenp (k \<noteq> 0) (exit (- 1)),
         bindp (tf_get i TF_epc) (\<lambda>pc. tf_set i TF_epc (pc + 4)),
         intr_on,
         syscall]) (
       usertrap_end i 0))
     else
       bindp devintr (\<lambda>which_dev.
       if which_dev \<noteq> 0 then usertrap_end i which_dev
       else
       bindp (getp i pid) (\<lambda>n.
       bindp (gets sepc) (\<lambda>pc.
       bindp (gets stval) (\<lambda>v.
       seqp (block
        [printf (''usertrap(): unexpected scause %p pid=%d'' @ [CHR 0x0A]) [APtr c, AInt n],
         printf (''            sepc=%p stval=%p'' @ [CHR 0x0A]) [APtr pc, APtr v],
         setkilled i]) (
       usertrap_end i 0))))))))))"

text \<open>When the scheduler comes back to a process that a timer interrupt took off the CPU.\<close>

definition usertrap_resume :: "('z trap_state_scheme, u64 \<times> u64) prog" where
  "usertrap_resume = seqp yield_resume usertrapret"

definition kerneltrap_end :: "u64 \<Rightarrow> u64 \<Rightarrow> ('z trap_state_scheme, unit) prog" where
  "kerneltrap_end pc st = modify (\<lambda>s. s\<lparr>sepc := pc, sstatus := st\<rparr>)"

definition kerneltrap :: "('z trap_state_scheme, unit) prog" where
  "kerneltrap =
     bindp (gets sepc) (\<lambda>pc.
     bindp (gets sstatus) (\<lambda>st.
     bindp (gets scause) (\<lambda>c.
     if st AND SSTATUS_SPP = 0 then panic ''kerneltrap: not from supervisor mode''
     else if st AND SSTATUS_SIE \<noteq> 0 then panic ''kerneltrap: interrupts enabled''
     else
     bindp devintr (\<lambda>which_dev.
     if which_dev = 0 then
       bindp (gets sepc) (\<lambda>pc'.
       bindp (gets stval) (\<lambda>v.
       seqp (block
        [printf (''scause %p'' @ [CHR 0x0A]) [APtr c],
         printf (''sepc=%p stval=%p'' @ [CHR 0x0A]) [APtr pc', APtr v]]) (
       panic ''kerneltrap'')))
     else
     bindp (gets (\<lambda>s. case curproc s of None \<Rightarrow> False | Some i \<Rightarrow> pstate (procs s i) = RUNNING)) (\<lambda>r.
     seqp (whenp (which_dev = 2 \<and> r) yield) (
     kerneltrap_end pc st))))))"

definition kerneltrap_resume :: "u64 \<Rightarrow> u64 \<Rightarrow> ('z trap_state_scheme, unit) prog" where
  "kerneltrap_resume pc st = seqp yield_resume (kerneltrap_end pc st)"

text \<open>\<open>forkret\<close>: where a new process starts, with its lock held by the scheduler's switch.\<close>

definition forkret :: "('z trap_state_scheme, u64 \<times> u64) prog" where
  "forkret =
     seqp (with_proc (\<lambda>i. lock_release (LProc i))) (
     bindp (gets first) (\<lambda>f.
     seqp (whenp f (block
      [fsinit ROOTDEV,
       modify (\<lambda>s. s\<lparr>first := False\<rparr>)])) usertrapret))"

section \<open>main.c\<close>

definition kvminithart :: "('z trap_state_scheme, unit) prog" where
  "kvminithart = modify (\<lambda>s. s\<lparr>satp := MAKE_SATP (kernel_pagetable s)\<rparr>)"

text \<open>
  \<open>main\<close> up to the call of \<open>scheduler\<close>. A hart other than the first spins until \<open>started\<close> is set.
\<close>

definition main :: "('z trap_state_scheme, unit) prog" where
  "main =
     bindp cpuid (\<lambda>hart.
     if hart = 0 then
       block
        [consoleinit,
         printfinit,
         printf [CHR 0x0A] [],
         printf (''xv6 kernel is booting'' @ [CHR 0x0A]) [],
         printf [CHR 0x0A] [],
         kinit,
         kvminit,
         kvminithart,
         procinit,
         trapinit,
         trapinithart,
         plicinit,
         plicinithart,
         binit,
         iinit,
         fileinit,
         virtio_disk_init,
         userinit,
         modify (\<lambda>s. s\<lparr>started := True\<rparr>)]
     else
       bindp (gets started) (\<lambda>go.
       if \<not> go then (\<lambda>s. Diverge) else
       block
        [printf (''hart %d starting'' @ [CHR 0x0A]) [AInt hart],
         kvminithart,
         trapinithart,
         plicinithart]))"

section \<open>start.c\<close>

record mhart =
  mstatus :: u64
  mepc :: u64
  m_satp :: u64
  medeleg :: u64
  mideleg :: u64
  m_sie :: u64
  pmpaddr0 :: u64
  pmpcfg0 :: u64
  mhartid :: u64
  m_tp :: u64
  mscratch :: u64
  mtvec :: u64
  mie :: u64
  mtime :: u64
  mtimecmp :: "nat \<Rightarrow> u64"
  timer_scratch :: "nat \<Rightarrow> nat \<Rightarrow> u64"
  supervisor :: bool

definition MSTATUS_MPP_MASK :: u64 where "MSTATUS_MPP_MASK = push_bit 11 3"
definition MSTATUS_MPP_S :: u64 where "MSTATUS_MPP_S = push_bit 11 1"
definition MSTATUS_MIE :: u64 where "MSTATUS_MIE = push_bit 3 1"
definition CLINT_MTIMECMP :: "nat \<Rightarrow> u64" where "CLINT_MTIMECMP h = 0x2000000 + 0x4000 + 8 * of_nat h"

text \<open>\<open>scratch_addr\<close> and \<open>timervec_addr\<close> are the addresses of \<open>timer_scratch\<close> and \<open>timervec\<close>.\<close>

definition timerinit :: "u64 \<Rightarrow> u64 \<Rightarrow> mhart \<Rightarrow> mhart" where
  "timerinit scratch_addr timervec_addr m =
     (let h = unat (ucast (mhartid m) :: u32);
          interval = 1000000;
          m1 = m\<lparr>mtimecmp := (mtimecmp m)(h := mtime m + interval)\<rparr>;
          m2 = m1\<lparr>timer_scratch := (timer_scratch m1)(h := (timer_scratch m1 h)(3 := CLINT_MTIMECMP h, 4 := interval))\<rparr>;
          m3 = m2\<lparr>mscratch := scratch_addr + 40 * of_nat h\<rparr>;
          m4 = m3\<lparr>mtvec := timervec_addr\<rparr>;
          m5 = m4\<lparr>mstatus := mstatus m4 OR MSTATUS_MIE\<rparr>
      in m5\<lparr>mie := mie m5 OR push_bit 7 1\<rparr>)"

text \<open>\<open>mret\<close> goes to \<open>mepc\<close> in the mode of the MPP field.\<close>

definition start :: "u64 \<Rightarrow> u64 \<Rightarrow> u64 \<Rightarrow> mhart \<Rightarrow> mhart" where
  "start main_addr scratch_addr timervec_addr m =
     (let m1 = m\<lparr>mstatus := mstatus m AND NOT MSTATUS_MPP_MASK OR MSTATUS_MPP_S\<rparr>;
          m2 = m1\<lparr>mepc := main_addr\<rparr>;
          m3 = m2\<lparr>m_satp := 0\<rparr>;
          m4 = m3\<lparr>medeleg := 0xffff, mideleg := 0xffff\<rparr>;
          m5 = m4\<lparr>m_sie := m_sie m4 OR push_bit 9 1 OR push_bit 5 1 OR push_bit 1 1\<rparr>;
          m6 = m5\<lparr>pmpaddr0 := 0x3fffffffffffff, pmpcfg0 := 0xf\<rparr>;
          m7 = timerinit scratch_addr timervec_addr m6;
          m8 = m7\<lparr>m_tp := scast (ucast (mhartid m7) :: u32)\<rparr>
      in m8\<lparr>supervisor := (mstatus m8 AND MSTATUS_MPP_MASK = MSTATUS_MPP_S)\<rparr>)"

end
