(* ===== verification/Spec2Isabelle.thy ===== *)
theory Spec2Isabelle
  imports Directory Filewrite Contents Shell_Syntax Sh Grep Disk Ptable Sleeping Txn Crash Cache Cstring Spinlock Asm Tty Fsdata Pipes Trap
begin

text \<open>
  Verification of xv6 for RISC-V: the kernel (\<open>src/kernel\<close>) and the user programs \<open>sh\<close> and \<open>grep\<close> (\<open>src/user\<close>).

  \<^bold>\<open>The parts of the program and how they interact.\<close> At the bottom, \<open>spinlock.c\<close> gives mutual exclusion, \<open>kalloc.c\<close> hands out
  physical pages and \<open>vm.c\<close> builds Sv39 page tables in them and copies between kernel and user memory. \<open>proc.c\<close> keeps the table of
  processes with \<open>sleep\<close>, \<open>wakeup\<close> and the scheduler; \<open>swtch.S\<close>, \<open>trampoline.S\<close> and \<open>kernelvec.S\<close> switch between contexts. Devices
  are the UART (\<open>uart.c\<close>, \<open>console.c\<close>, \<open>printf.c\<close>) and the virtio disk (\<open>virtio_disk.c\<close>). The file system is a stack:
  \<open>bio.c\<close> caches blocks under the sleep locks of \<open>sleeplock.c\<close>, \<open>log.c\<close> groups block writes into transactions, \<open>fs.c\<close> has inodes,
  directories and paths, \<open>file.c\<close> and \<open>pipe.c\<close> open files. \<open>sysfile.c\<close>, \<open>sysproc.c\<close>, \<open>exec.c\<close> and \<open>syscall.c\<close> are the system
  calls, which \<open>trap.c\<close> dispatches; \<open>main.c\<close> and \<open>start.c\<close> boot.

  \<^bold>\<open>How the code is modelled.\<close> A kernel function is a function on states in the outcome monad of \<open>Prelude\<close>. Its outcome is \<open>Ret\<close> (it
  returned), \<open>Panic\<close> (with the message), \<open>Switch\<close> (the process gave up the processor, in \<open>sleep\<close> or \<open>yield\<close>) or \<open>Diverge\<close> (a loop that
  does not end). Where a function continues after a switch, a definition \<open><function>_resume\<close> is the rest of it; the properties of
  \<open>Sleeping\<close>, \<open>Ptable\<close>, \<open>Txn\<close> and \<open>Disk\<close> are about all interleavings of such pieces. The state is one record that each component extends: physical
  memory and held locks (\<open>Machine\<close>), the free list (\<open>Kalloc\<close>), processes (\<open>Proc\<close>), console, sleep locks, buffer cache and disk, log, inodes,
  open files and pipes, the system call layer, the disk driver, control registers. Machine integers keep their width (\<open>u8\<close>, \<open>u16\<close>,
  \<open>u32\<close>, \<open>u64\<close>). Memory is a function from addresses to bytes; page tables and the free list of pages are in it. Structures
  that only kernel code touches are records, and a pointer to an element of a table is its index. \<open>memmove\<close> and the other routines of \<open>string.c\<close>
  are modelled on memory in \<open>Cstring\<close>.

  \<^bold>\<open>Theories and sources.\<close>
  \<^item> \<open>Prelude\<close>: integer types, memory, the outcome monad and its rules. \<open>Ring\<close>: the ring buffers of \<open>pipe.c\<close>, \<open>uart.c\<close> and
    \<open>console.c\<close> as a locale \<open>byte_queue\<close> with its three interpretations.
  \<^item> \<open>Cstring\<close>: \<open>string.c\<close>. \<open>Machine\<close>, \<open>Spinlock\<close>: \<open>spinlock.c\<close>. \<open>Kalloc\<close>: \<open>kalloc.c\<close>. \<open>Vm\<close>: \<open>vm.c\<close>, with \<open>Pagetable\<close> and
    \<open>Addrspace\<close> (what its functions compute) and \<open>Kframe\<close> (what they leave alone).
  \<^item> \<open>Asm\<close>: \<open>swtch.S\<close>, \<open>trampoline.S\<close>, \<open>kernelvec.S\<close>, \<open>entry.S\<close>, instruction by instruction.
  \<^item> \<open>Proc\<close>, \<open>Process\<close>: \<open>proc.c\<close>, \<open>sysproc.c\<close>; \<open>Ptable\<close>: the process table under all its operations.
  \<^item> \<open>Console\<close>: \<open>uart.c\<close>, \<open>printf.c\<close>, \<open>console.c\<close>; \<open>Tty\<close>: their correctness.
  \<^item> \<open>Sleeplock\<close>, \<open>Sleeping\<close>: \<open>sleeplock.c\<close>. \<open>Bio\<close>, \<open>Cache\<close>: \<open>bio.c\<close>. \<open>Log\<close>, \<open>Txn\<close>, \<open>Crash\<close>: \<open>log.c\<close>.
  \<^item> \<open>Fs\<close>: \<open>fs.c\<close>; \<open>Fsdata\<close>: its data on disk; \<open>Contents\<close>, \<open>Filewrite\<close>: reading and writing files; \<open>Blockalloc\<close>: allocation of blocks; \<open>Directory\<close>: directories.
  \<^item> \<open>File\<close>, \<open>Pipes\<close>: \<open>file.c\<close>, \<open>pipe.c\<close>. \<open>Sysfile\<close>: \<open>sysfile.c\<close>. \<open>Exec\<close>: \<open>exec.c\<close>, \<open>syscall.c\<close>.
  \<^item> \<open>Virtio\<close>: \<open>virtio_disk.c\<close>; \<open>Disk\<close>: the driver with a device. \<open>Trap\<close>: \<open>trap.c\<close>, \<open>plic.c\<close>, \<open>main.c\<close>, \<open>start.c\<close>.
  \<^item> \<open>Sh\<close>, \<open>Shell_Syntax\<close>: the parser of \<open>user/sh.c\<close>. \<open>Grep\<close>: \<open>user/grep.c\<close>.

  \<^bold>\<open>What the lemmas show.\<close>
  \<^item> File system. \<open>Cache\<close>: the buffers form one doubly linked list, no block has two of them, and clients see a map from block numbers to contents
    (the locale \<open>block_cache\<close>, interpreted on \<open>bio.c\<close>). \<open>Crash\<close>: \<open>commit\<close> is atomic under a crash after any of its writes. \<open>Txn\<close>: the
    reservation of \<open>begin_op\<close> is enough for every admitted operation if the log is as large as \<open>LOGSIZE\<close> says, and one block short with the log that
    mkfs makes. \<open>Contents\<close> and \<open>Filewrite\<close>: \<open>readi\<close>, \<open>dirlookup\<close> and \<open>writei\<close> in terms of the contents of files, proved over the
    contract of the cache. \<open>Blockalloc\<close>: the bitmap is the set of used blocks, and \<open>balloc\<close> hands out a free one.
    \<open>Directory\<close>: a directory is a map from names to inode numbers, which \<open>dirlink\<close> extends at one name. \<open>Disk\<close>: driver, device, interrupt and scheduler together give the contract \<open>disk_rw\<close> that \<open>Bio\<close> assumes of the disk.
  \<^item> Processes. \<open>Spinlock\<close>: mutual exclusion of several harts at the atomic swap. \<open>Sleeping\<close>: the protocol of sleep locks, without lost
    wakeups. \<open>Ptable\<close>: distinct process ids, no parent that sleeps while a child has exited, \<open>wait\<close> and \<open>kill\<close> on every branch. \<open>Asm\<close>: a
    context or trap frame comes back with all its registers.
  \<^item> Memory. \<open>Kalloc\<close>: the allocator never hands out a page twice. \<open>Addrspace\<close>: mapping and copying, page by page, on mapped and unmapped memory.
  \<^item> Devices. \<open>Tty\<close>: the line discipline refines an editor of lines; what is sent is what was written. \<open>Pipes\<close>: pipes are queues.
  \<^item> User programs. \<open>Shell_Syntax\<close>: the parser of the shell reads back every printed command tree. \<open>Grep\<close>: the matcher decides membership in the
    language of the expression, and the output does not depend on how \<open>read\<close> cuts the file.

  \<^bold>\<open>Bounds.\<close> Loops over lists in memory carry a number of steps: \<open>NBUF + 1\<close> for the scans of the buffer list, shown to be enough for a
  list of \<open>NBUF\<close> buffers, where the outcome of too few is \<open>Diverge\<close>; \<open>NUM\<close> for a chain of descriptors; the length of the path for \<open>namex\<close>, which
  \<open>skipelem\<close> shortens; \<open>n\<close> for \<open>n\<close> bytes in \<open>readi\<close> and \<open>writei\<close>, whose rounds move at least one byte. The parser of the shell has
  the depth of calls \<open>4 * length + 4\<close>, shown to be enough for every line. Loops that wait for a device or another process are the switches.

  \<^bold>\<open>Assumptions.\<close> The memory model is sequentially consistent; the TLB is not modelled, and \<open>sfence_vma\<close> is part of the loading of \<open>satp\<close>. Other
  harts appear where a property is about them: in \<open>Spinlock\<close> as an interleaving, elsewhere as other processes between two steps. Linker symbols (\<open>end\<close>,
  \<open>etext\<close>, \<open>trampoline\<close>) and the program image of \<open>initcode\<close> are parameters. \<open>writei\<close> is shown for ranges whose blocks are allocated.

  \<^bold>\<open>Not modelled.\<close> The test programs \<open>usertests.c\<close>, \<open>grind.c\<close>, \<open>forktest.c\<close> and \<open>stressfs.c\<close> and the small commands (\<open>cat.c\<close>,
  \<open>echo.c\<close>, \<open>init.c\<close>, \<open>kill.c\<close>, \<open>ln.c\<close>, \<open>ls.c\<close>, \<open>mkdir.c\<close>, \<open>rm.c\<close>, \<open>wc.c\<close>, \<open>zombie.c\<close>) are sequences of system calls that make no
  promise of their own. The string routines and \<open>printf\<close> of the user library (\<open>ulib.c\<close>, \<open>printf.c\<close>) repeat those of the kernel; \<open>malloc\<close> and \<open>free\<close> of
  \<open>umalloc.c\<close> are left out. \<open>mkfs.c\<close> runs on the host; the layout that it writes appears as the example superblock of \<open>Fs\<close> and in \<open>Txn\<close>. \<open>ramdisk.c\<close> is not
  linked into the kernel. \<open>defs.h\<close>, \<open>user.h\<close> and \<open>types.h\<close> have only prototypes and names of types.
\<close>

end
